(* ===== verification/Prelude.thy ===== *)
theory Prelude
  imports Main "HOL-Library.Word" "HOL-Library.List_Lexorder" "HOL-Library.Char_ord"
begin

text \<open>
  Shared vocabulary of the development: the Rust machine types, big-endian byte
  strings, and the iterator operations of the standard library.

  \<^item> Unsigned integers that the code shifts or masks are words (\<open>8 word\<close>,
    \<open>64 word\<close>).  Signed timestamps, tokens and deletion times that the code only
    compares are \<open>int\<close>; the bounds of \<open>i64\<close> and \<open>i32\<close> are the constants
    below, and \<open>wrap_i64\<close> is the two's complement wrap-around of the release
    profile, written wherever the code adds to such a value.
  \<^item> \<open>String\<close> is \<open>string\<close> and \<open>Vec<u8>\<close> is a list of bytes; both are
    ordered lexicographically, as in Rust.
\<close>

unbundle bit_operations_syntax

section \<open>Machine types\<close>

type_synonym u8 = "8 word"
type_synonym u64 = "64 word"
type_synonym bytes = "8 word list"
type_synonym uuid = "128 word"
type_synonym i64 = int
type_synonym i32 = int

abbreviation i64_min :: int where "i64_min \<equiv> - (2 ^ 63)"
abbreviation i64_max :: int where "i64_max \<equiv> 2 ^ 63 - 1"
abbreviation i32_min :: int where "i32_min \<equiv> - (2 ^ 31)"
abbreviation i32_max :: int where "i32_max \<equiv> 2 ^ 31 - 1"

definition in_i64 :: "int \<Rightarrow> bool" where
  "in_i64 x \<longleftrightarrow> i64_min \<le> x \<and> x \<le> i64_max"

definition in_i32 :: "int \<Rightarrow> bool" where
  "in_i32 x \<longleftrightarrow> i32_min \<le> x \<and> x \<le> i32_max"

definition wrap_i64 :: "int \<Rightarrow> int" where
  "wrap_i64 x = (x + 2 ^ 63) mod 2 ^ 64 - 2 ^ 63"

lemma wrap_i64_id [simp]: "in_i64 x \<Longrightarrow> wrap_i64 x = x"
  by (simp add: wrap_i64_def in_i64_def)

lemma wrap_i64_range [simp, intro]: "in_i64 (wrap_i64 x)"
proof -
  have "0 \<le> (x + 2 ^ 63) mod 2 ^ 64" "(x + 2 ^ 63) mod 2 ^ 64 < 2 ^ 64"
    by simp_all
  then show ?thesis
    unfolding wrap_i64_def in_i64_def by simp
qed

lemma wrap_i64_overflow: "wrap_i64 (i64_max + 1) = i64_min"
  by (simp add: wrap_i64_def)

lemma sint_in_i64 [simp]: "in_i64 (sint (w :: u64))"
  using sint_range_size [of w] by (simp add: in_i64_def word_size)

lemma sint_word_of_int_i64 [simp]: "in_i64 x \<Longrightarrow> sint (word_of_int x :: u64) = x"
  unfolding in_i64_def by (simp add: signed_of_int signed_take_bit_int_eq_self)

lemma sint_word_of_int_i32 [simp]: "in_i32 x \<Longrightarrow> sint (word_of_int x :: 32 word) = x"
  unfolding in_i32_def by (simp add: signed_of_int signed_take_bit_int_eq_self)

lemma uint_pow2: "k < LENGTH('a) \<Longrightarrow> uint (2 ^ k :: 'a::len word) = 2 ^ k"
  by transfer (simp add: take_bit_int_eq_self)

lemma bit_less_pow2:
  fixes v :: "'a::len word"
  assumes "v < 2 ^ k" "k < LENGTH('a)" "bit v j"
  shows "j < k"
proof -
  have "take_bit k (uint v) = uint v"
    using assms by (simp add: word_less_def uint_pow2 take_bit_int_eq_self)
  with assms(3) show ?thesis
    by (metis bit_take_bit_iff bit_uint_iff bit_imp_le_length)
qed

lemma less_pow2_iff_bits:
  fixes v :: "'a::len word"
  assumes "k < LENGTH('a)"
  shows "v < 2 ^ k \<longleftrightarrow> (\<forall>i. bit v i \<longrightarrow> i < k)"
proof
  assume "\<forall>i. bit v i \<longrightarrow> i < k"
  then have "take_bit k v = v"
    by (intro bit_word_eqI) (auto simp: bit_take_bit_iff)
  then have "uint v < 2 ^ k"
    by (metis take_bit_int_less_exp unsigned_take_bit_eq)
  then show "v < 2 ^ k"
    using assms by (simp add: word_less_def uint_pow2)
qed (use bit_less_pow2 [OF _ assms] in blast)

section \<open>Big-endian byte strings\<close>

text \<open>
  \<open>be_bytes n v\<close> are the \<open>n\<close> low bytes of \<open>v\<close>, most significant first, as
  \<open>byteorder\<close>'s big-endian writers and the shift loops of the codecs emit them;
  \<open>be_fold\<close> is the decoding loop \<open>v = (v << 8) | byte\<close>.
\<close>

primrec be_bytes :: "nat \<Rightarrow> 'a::len word \<Rightarrow> bytes" where
  "be_bytes 0 v = []"
| "be_bytes (Suc n) v = ucast (drop_bit (8 * n) v) # be_bytes n v"

definition be_fold :: "'a::len word \<Rightarrow> bytes \<Rightarrow> 'a word" where
  "be_fold w bs = foldl (\<lambda>acc b. push_bit 8 acc OR ucast b) w bs"

lemma be_fold_simps [simp]:
  "be_fold w [] = w"
  "be_fold w (b # bs) = be_fold (push_bit 8 w OR ucast b) bs"
  by (simp_all add: be_fold_def)

lemma length_be_bytes [simp]: "length (be_bytes n v) = n"
  by (induction n) simp_all

lemma be_bytes_nth: "i < n \<Longrightarrow> be_bytes n v ! i = ucast (drop_bit (8 * (n - 1 - i)) v)"
  by (induction n arbitrary: i) (auto simp: nth_Cons split: nat.splits)

lemma be_step_bits:
  fixes w v :: "'a::len word"
  shows "push_bit m (push_bit 8 w OR ucast (ucast (drop_bit m v) :: u8)) OR take_bit m v
       = push_bit (m + 8) w OR take_bit (m + 8) v"
  by (rule bit_word_eqI)
    (auto simp: bit_or_iff bit_push_bit_iff bit_take_bit_iff bit_drop_bit_eq bit_ucast_iff)

lemma be_fold_be_bytes: "be_fold w (be_bytes n v) = push_bit (8 * n) w OR take_bit (8 * n) v"
proof (induction n arbitrary: w)
  case 0
  show ?case by simp
next
  case (Suc n)
  have "be_fold w (be_bytes (Suc n) v)
      = push_bit (8 * n) (push_bit 8 w OR ucast (ucast (drop_bit (8 * n) v) :: u8))
        OR take_bit (8 * n) v"
    by (simp add: Suc.IH)
  also have "\<dots> = push_bit (8 * n + 8) w OR take_bit (8 * n + 8) v"
    by (rule be_step_bits)
  finally show ?case by (simp add: add.commute)
qed

lemma be_roundtrip [simp]:
  fixes v :: "'a::len word"
  assumes "LENGTH('a) \<le> 8 * n"
  shows "be_fold 0 (be_bytes n v) = v"
  using assms by (simp add: be_fold_be_bytes take_bit_word_eq_self)

section \<open>Iterator operations of the standard library\<close>

text \<open>
  \<open>Iterator::max_by\<close> and \<open>max_by_key\<close>: the last of several equally maximal elements.
\<close>

fun max_by_key :: "('a \<Rightarrow> 'b::linorder) \<Rightarrow> 'a list \<Rightarrow> 'a option" where
  "max_by_key f [] = None"
| "max_by_key f (x # xs) =
     (case max_by_key f xs of None \<Rightarrow> Some x | Some y \<Rightarrow> Some (if f y < f x then x else y))"

lemma max_by_key_None [simp]: "max_by_key f xs = None \<longleftrightarrow> xs = []"
  by (cases xs) (auto split: option.splits)

lemma max_by_key_in: "max_by_key f xs = Some m \<Longrightarrow> m \<in> set xs"
  by (induction xs arbitrary: m) (auto split: option.splits if_splits)

lemma max_by_key_max: "max_by_key f xs = Some m \<Longrightarrow> x \<in> set xs \<Longrightarrow> f x \<le> f m"
  by (induction xs arbitrary: m) (fastforce split: option.splits if_splits)+

section \<open>Collecting distinct elements\<close>

text \<open>
  The idiom \<open>if seen.insert(x) { result.push(x) }\<close>: elements in the order of their first
  occurrence.
\<close>

definition push_new :: "'a \<Rightarrow> 'a list \<Rightarrow> 'a list" where
  "push_new x acc = (if x \<in> set acc then acc else acc @ [x])"

abbreviation firsts :: "'a list \<Rightarrow> 'a list" where "firsts xs \<equiv> fold push_new xs []"

lemma push_new_old [simp]: "x \<in> set acc \<Longrightarrow> push_new x acc = acc"
  and push_new_fresh [simp]: "x \<notin> set acc \<Longrightarrow> push_new x acc = acc @ [x]"
  by (simp_all add: push_new_def)

lemma set_push_new [simp]: "set (push_new x acc) = insert x (set acc)"
  by (auto simp: push_new_def)

lemma distinct_push_new [simp]: "distinct (push_new x acc) = distinct acc"
  by (auto simp: push_new_def)

lemma set_fold_push_new [simp]: "set (fold push_new xs acc) = set acc \<union> set xs"
  by (induction xs arbitrary: acc) auto

lemma distinct_fold_push_new [simp]: "distinct (fold push_new xs acc) = distinct acc"
  by (induction xs arbitrary: acc) auto

lemma fold_push_new_prefix: "\<exists>zs. fold push_new xs acc = acc @ zs"
proof (induction xs arbitrary: acc)
  case (Cons x xs)
  obtain zs where "fold push_new xs (push_new x acc) = push_new x acc @ zs"
    using Cons.IH by blast
  moreover obtain ys where "push_new x acc = acc @ ys"
    by (metis append_Nil2 push_new_def)
  ultimately show ?case by simp
qed simp

lemma fold_push_new_absorb [simp]: "set xs \<subseteq> set acc \<Longrightarrow> fold push_new xs acc = acc"
  by (induction xs) (auto simp: push_new_def)

lemma filter_push_new:
  "filter P (push_new x acc) = (if P x then push_new x (filter P acc) else filter P acc)"
  by (auto simp: push_new_def)

lemma filter_fold_push_new:
  "filter P (fold push_new xs acc) = fold push_new (filter P xs) (filter P acc)"
  by (induction xs arbitrary: acc) (auto simp: filter_push_new)

lemma fold_push_new_distinct: "distinct (acc @ xs) \<Longrightarrow> fold push_new xs acc = acc @ xs"
  by (induction xs arbitrary: acc) (auto simp: push_new_def)

lemma length_firsts: "length (firsts xs) = card (set xs)"
  using distinct_card [of "firsts xs"] by simp

text \<open>At most one element is lost when one value is filtered out of a distinct list.\<close>

lemma take_filter_neq:
  "distinct xs \<Longrightarrow>
   take n (filter (\<lambda>y. y \<noteq> x) xs) = take n (filter (\<lambda>y. y \<noteq> x) (take (Suc n) xs))"
proof (induction xs arbitrary: n)
  case (Cons z xs)
  show ?case
  proof (cases "z = x")
    case True
    with Cons.prems have "filter (\<lambda>y. y \<noteq> x) xs = xs" "filter (\<lambda>y. y \<noteq> x) (take n xs) = take n xs"
      by (auto simp: filter_id_conv dest: in_set_takeD)
    with True show ?thesis by simp
  next
    case False
    with Cons show ?thesis by (cases n) simp_all
  qed
qed simp

end
