(* ===== verification/Ordered_Map.thy ===== *)
theory Ordered_Map
  imports Prelude
begin

text \<open>
  The standard library's \<open>BTreeMap\<close>: an association list in strictly increasing key
  order, with the operations the modelled code calls (\<open>insert\<close>, \<open>remove\<close>,
  \<open>retain\<close>, the entry API \<open>entry(k).and_modify(f).or_insert(v)\<close>, \<open>range\<close> and
  in-order iteration).  The interface \<open>ordered_map\<close> states what the components rely on,
  and is interpreted on this model.  \<open>convergent\<close> is the contract of a replicated
  merge operation: commutative, associative and idempotent on a carrier; its lemma
  says that folding updates in any order and with any duplication gives one result,
  and \<open>bt_merge\<close> lifts the contract from values to maps.
\<close>

section \<open>The map and its operations\<close>

type_synonym ('k, 'v) btree_map = "('k \<times> 'v) list"

named_theorems bt_intro \<open>the order invariant is kept\<close>

definition bt_ok :: "('k::linorder, 'v) btree_map \<Rightarrow> bool" where
  "bt_ok m \<longleftrightarrow> sorted_wrt (<) (map fst m)"

fun bt_insert :: "'k::linorder \<Rightarrow> 'v \<Rightarrow> ('k, 'v) btree_map \<Rightarrow> ('k, 'v) btree_map" where
  "bt_insert k v [] = [(k, v)]"
| "bt_insert k v ((k', v') # m) =
     (if k < k' then (k, v) # (k', v') # m
      else if k = k' then (k, v) # m
      else (k', v') # bt_insert k v m)"

definition bt_remove :: "'k \<Rightarrow> ('k, 'v) btree_map \<Rightarrow> ('k, 'v) btree_map" where
  "bt_remove k m = filter (\<lambda>e. fst e \<noteq> k) m"

definition bt_retain :: "('k \<Rightarrow> 'v \<Rightarrow> bool) \<Rightarrow> ('k, 'v) btree_map \<Rightarrow> ('k, 'v) btree_map" where
  "bt_retain P m = filter (\<lambda>e. P (fst e) (snd e)) m"

definition bt_range_from :: "'k::linorder \<Rightarrow> ('k, 'v) btree_map \<Rightarrow> ('k, 'v) btree_map" where
  "bt_range_from k m = filter (\<lambda>e. k \<le> fst e) m"

definition bt_range_below :: "'k::linorder \<Rightarrow> ('k, 'v) btree_map \<Rightarrow> ('k, 'v) btree_map" where
  "bt_range_below k m = filter (\<lambda>e. fst e < k) m"

definition bt_upsert ::
  "('v \<Rightarrow> 'v \<Rightarrow> 'v) \<Rightarrow> 'k::linorder \<Rightarrow> 'v \<Rightarrow> ('k, 'v) btree_map \<Rightarrow> ('k, 'v) btree_map" where
  "bt_upsert f k v m =
     (case map_of m k of None \<Rightarrow> bt_insert k v m | Some x \<Rightarrow> bt_insert k (f x v) m)"

definition bt_merge ::
  "('v \<Rightarrow> 'v \<Rightarrow> 'v) \<Rightarrow> ('k::linorder, 'v) btree_map \<Rightarrow> ('k, 'v) btree_map \<Rightarrow> ('k, 'v) btree_map" where
  "bt_merge f m other = fold (\<lambda>e. bt_upsert f (fst e) (snd e)) other m"

abbreviation bt_keys :: "('k, 'v) btree_map \<Rightarrow> 'k list" where "bt_keys m \<equiv> map fst m"
abbreviation bt_values :: "('k, 'v) btree_map \<Rightarrow> 'v list" where "bt_values m \<equiv> map snd m"

text \<open>A property of every entry.\<close>

definition bt_all :: "('k \<Rightarrow> 'v \<Rightarrow> bool) \<Rightarrow> ('k, 'v) btree_map \<Rightarrow> bool" where
  "bt_all P m \<longleftrightarrow> (\<forall>e \<in> set m. P (fst e) (snd e))"

section \<open>Laws\<close>

lemma bt_ok_Nil [simp]: "bt_ok []"
  by (simp add: bt_ok_def)

lemma bt_ok_Cons: "bt_ok (e # m) \<longleftrightarrow> (\<forall>k \<in> set (bt_keys m). fst e < k) \<and> bt_ok m"
  by (simp add: bt_ok_def)

lemma bt_ok_distinct: "bt_ok m \<Longrightarrow> distinct (bt_keys m)"
  unfolding bt_ok_def by (rule strict_sorted_iff [THEN iffD1, THEN conjunct2])

lemma keys_bt_insert [simp]: "set (bt_keys (bt_insert k v m)) = insert k (set (bt_keys m))"
  by (induction k v m rule: bt_insert.induct) auto

lemma bt_ok_insert [bt_intro]: "bt_ok m \<Longrightarrow> bt_ok (bt_insert k v m)"
proof (induction k v m rule: bt_insert.induct)
  case (1 k v)
  show ?case by (simp add: bt_ok_Cons)
next
  case (2 k v k' v' m)
  then show ?case
    using keys_bt_insert [of k v m] by (auto simp: bt_ok_Cons simp del: keys_bt_insert)
qed

lemma get_bt_insert [simp]: "map_of (bt_insert k v m) = (map_of m)(k \<mapsto> v)"
  by (induction k v m rule: bt_insert.induct) (auto simp: fun_eq_iff)

lemma sorted_wrt_keys_filter: "bt_ok m \<Longrightarrow> bt_ok (filter P m)"
  by (induction m) (auto simp: bt_ok_Cons)

lemma bt_ok_filters [bt_intro]:
  "bt_ok m \<Longrightarrow> bt_ok (bt_remove k m)"
  "bt_ok m \<Longrightarrow> bt_ok (bt_retain P m)"
  "bt_ok m \<Longrightarrow> bt_ok (bt_range_from k m)"
  "bt_ok m \<Longrightarrow> bt_ok (bt_range_below k m)"
  by (simp_all add: bt_remove_def bt_retain_def bt_range_from_def bt_range_below_def
      sorted_wrt_keys_filter)

lemma get_bt_remove [simp]: "map_of (bt_remove k m) = (map_of m)(k := None)"
  unfolding bt_remove_def by (induction m) (auto simp: fun_eq_iff)

lemma get_filter_distinct:
  "distinct (bt_keys m) \<Longrightarrow>
   map_of (filter (\<lambda>e. P (fst e) (snd e)) m) k
     = (case map_of m k of None \<Rightarrow> None | Some v \<Rightarrow> if P k v then Some v else None)"
proof (induction m)
  case Nil
  then show ?case by simp
next
  case (Cons e m)
  then show ?case
    by (cases e) (auto split: option.splits simp: map_of_eq_None_iff dest!: map_of_SomeD
        intro: rev_image_eqI)
qed

lemma get_bt_retain:
  "bt_ok m \<Longrightarrow> map_of (bt_retain P m) k
     = (case map_of m k of None \<Rightarrow> None | Some v \<Rightarrow> if P k v then Some v else None)"
  unfolding bt_retain_def by (rule get_filter_distinct [OF bt_ok_distinct])

text \<open>A map is determined by its lookups: equality of \<open>BTreeMap\<close>s is extensional.\<close>

lemma bt_map_of_keys: "distinct (bt_keys m) \<Longrightarrow> map (\<lambda>k. (k, the (map_of m k))) (bt_keys m) = m"
proof (induction m)
  case Nil
  then show ?case by simp
next
  case (Cons e m)
  have "map (\<lambda>k. (k, the (map_of (e # m) k))) (bt_keys m) = map (\<lambda>k. (k, the (map_of m k))) (bt_keys m)"
    using Cons.prems by (cases e) (auto simp: image_iff)
  with Cons show ?case by (cases e) simp
qed

lemma bt_ext:
  assumes "bt_ok a" "bt_ok b" "map_of a = map_of b"
  shows "a = b"
proof -
  have "set (bt_keys a) = set (bt_keys b)"
    using assms(3) by (metis dom_map_of_conv_image_fst list.set_map)
  then have "bt_keys a = bt_keys b"
    using assms(1,2) unfolding bt_ok_def by (intro strict_sorted_equal) simp_all
  then show ?thesis
    using assms by (metis bt_map_of_keys bt_ok_distinct)
qed

subsection \<open>The entry API and merging\<close>

lemma bt_ok_upsert [bt_intro]: "bt_ok m \<Longrightarrow> bt_ok (bt_upsert f k v m)"
  by (auto simp: bt_upsert_def intro: bt_ok_insert split: option.splits)

lemma get_bt_upsert:
  "map_of (bt_upsert f k v m) =
     (map_of m)(k \<mapsto> (case map_of m k of None \<Rightarrow> v | Some x \<Rightarrow> f x v))"
  by (auto simp: bt_upsert_def split: option.splits)

lemma bt_ok_merge [bt_intro]: "bt_ok m \<Longrightarrow> bt_ok (bt_merge f m other)"
  unfolding bt_merge_def
  by (induction other arbitrary: m) (auto intro: bt_ok_upsert)

lemma get_bt_merge:
  "distinct (bt_keys other) \<Longrightarrow>
   map_of (bt_merge f m other) k =
     (case map_of other k of
        None \<Rightarrow> map_of m k
      | Some v \<Rightarrow> Some (case map_of m k of None \<Rightarrow> v | Some x \<Rightarrow> f x v))"
proof (induction other arbitrary: m)
  case Nil
  then show ?case by (simp add: bt_merge_def)
next
  case (Cons e other)
  obtain k' v' where e: "e = (k', v')" by (cases e)
  have "bt_merge f m (e # other) = bt_merge f (bt_upsert f k' v' m) other"
    by (simp add: bt_merge_def e)
  moreover have "map_of other k' = None"
    using Cons.prems by (auto simp: e map_of_eq_None_iff)
  ultimately show ?case
    using Cons e by (auto simp: get_bt_upsert split: option.splits)
qed

lemma bt_all_simps [simp]: "bt_all P []" "bt_all P (e # m) \<longleftrightarrow> P (fst e) (snd e) \<and> bt_all P m"
  by (simp_all add: bt_all_def)

lemma bt_all_get: "bt_all P m \<Longrightarrow> map_of m k = Some v \<Longrightarrow> P k v"
  by (fastforce simp: bt_all_def dest: map_of_SomeD)

lemma bt_all_insert [bt_intro]: "bt_all P m \<Longrightarrow> P k v \<Longrightarrow> bt_all P (bt_insert k v m)"
  by (induction k v m rule: bt_insert.induct) auto

lemma bt_all_upsert [bt_intro]:
  "bt_all P m \<Longrightarrow> P k v \<Longrightarrow> (\<And>x. P k x \<Longrightarrow> P k (f x v)) \<Longrightarrow> bt_all P (bt_upsert f k v m)"
  by (auto simp: bt_upsert_def intro!: bt_all_insert dest: bt_all_get split: option.splits)

lemma bt_all_merge [bt_intro]:
  assumes "bt_all P m" "bt_all P other" "\<And>k x y. P k x \<Longrightarrow> P k y \<Longrightarrow> P k (f x y)"
  shows "bt_all P (bt_merge f m other)"
  using assms(1,2) unfolding bt_merge_def
  by (induction other arbitrary: m) (auto intro!: bt_all_upsert intro: assms(3))

lemma keys_bt_merge:
  "distinct (bt_keys other) \<Longrightarrow>
   set (bt_keys (bt_merge f m other)) = set (bt_keys m) \<union> set (bt_keys other)"
  by (auto simp flip: dom_map_of_conv_image_fst simp: dom_def get_bt_merge split: option.splits)

section \<open>Interfaces\<close>

text \<open>What a component relies on when it keeps its state in a \<open>BTreeMap\<close>.\<close>

locale ordered_map =
  fixes ok :: "'m \<Rightarrow> bool"
    and get :: "'m \<Rightarrow> 'k::linorder \<Rightarrow> 'v option"
    and put :: "'k \<Rightarrow> 'v \<Rightarrow> 'm \<Rightarrow> 'm"
    and del :: "'k \<Rightarrow> 'm \<Rightarrow> 'm"
  assumes get_put: "get (put k v m) k' = (if k' = k then Some v else get m k')"
    and get_del: "get (del k m) k' = (if k' = k then None else get m k')"
    and ok_put: "ok m \<Longrightarrow> ok (put k v m)"
    and ok_del: "ok m \<Longrightarrow> ok (del k m)"
    and ext: "ok m \<Longrightarrow> ok m' \<Longrightarrow> (\<And>k. get m k = get m' k) \<Longrightarrow> m = m'"
begin

lemma put_put: "ok m \<Longrightarrow> put k v (put k w m) = put k v m"
  by (rule ext) (auto simp: get_put intro: ok_put)

lemma put_commute: "ok m \<Longrightarrow> k \<noteq> k' \<Longrightarrow> put k v (put k' v' m) = put k' v' (put k v m)"
  by (rule ext) (auto simp: get_put intro: ok_put)

lemma put_same: "ok m \<Longrightarrow> get m k = Some v \<Longrightarrow> put k v m = m"
  by (rule ext) (auto simp: get_put intro: ok_put)

lemma del_put: "ok m \<Longrightarrow> get m k = None \<Longrightarrow> del k (put k v m) = m"
  by (rule ext) (auto simp: get_put get_del intro: ok_put ok_del)

end

interpretation bt: ordered_map bt_ok map_of bt_insert bt_remove
  by unfold_locales (auto intro: bt_ok_insert bt_ok_filters bt_ext)

text \<open>The contract of a replicated merge operation.\<close>

locale convergent =
  fixes carrier :: "'a \<Rightarrow> bool"
    and join :: "'a \<Rightarrow> 'a \<Rightarrow> 'a"
  assumes closed: "carrier x \<Longrightarrow> carrier y \<Longrightarrow> carrier (join x y)"
    and idem: "carrier x \<Longrightarrow> join x x = x"
    and comm: "carrier x \<Longrightarrow> carrier y \<Longrightarrow> join x y = join y x"
    and assoc: "carrier x \<Longrightarrow> carrier y \<Longrightarrow> carrier z \<Longrightarrow> join (join x y) z = join x (join y z)"
begin

definition below :: "'a \<Rightarrow> 'a \<Rightarrow> bool" where
  "below x y \<longleftrightarrow> join x y = y"

lemma below_antisym: "carrier x \<Longrightarrow> carrier y \<Longrightarrow> below x y \<Longrightarrow> below y x \<Longrightarrow> x = y"
  unfolding below_def using comm by metis

lemma below_trans:
  "carrier x \<Longrightarrow> carrier y \<Longrightarrow> carrier z \<Longrightarrow> below x y \<Longrightarrow> below y z \<Longrightarrow> below x z"
  unfolding below_def using assoc by metis

lemma below_join: "carrier x \<Longrightarrow> carrier y \<Longrightarrow> below x (join x y) \<and> below y (join x y)"
  unfolding below_def using assoc comm idem by metis

lemma join_least:
  "carrier x \<Longrightarrow> carrier y \<Longrightarrow> carrier z \<Longrightarrow> below x z \<Longrightarrow> below y z \<Longrightarrow> below (join x y) z"
  unfolding below_def using assoc by simp

lemma foldl_carrier: "carrier a \<Longrightarrow> (\<forall>x \<in> set xs. carrier x) \<Longrightarrow> carrier (foldl join a xs)"
  by (induction xs arbitrary: a) (auto intro: closed)

lemma foldl_above:
  assumes "carrier a" "\<forall>x \<in> set xs. carrier x" "x = a \<or> x \<in> set xs"
  shows "below x (foldl join a xs)"
  using assms
proof (induction xs arbitrary: a x)
  case Nil
  then show ?case by (simp add: below_def idem)
next
  case (Cons y ys)
  then have c: "carrier (join a y)" "carrier a" "carrier y"
    by (auto intro: closed)
  have top: "below (join a y) (foldl join (join a y) ys)"
    using Cons.IH [OF c(1)] Cons.prems by auto
  have f: "carrier (foldl join (join a y) ys)"
    using c Cons.prems by (intro foldl_carrier) auto
  show ?case
  proof (cases "x = a \<or> x = y")
    case True
    then have "below x (join a y)" using below_join c by auto
    with top True c f show ?thesis by (auto intro: below_trans)
  next
    case False
    with Cons.prems have "x \<in> set ys" by auto
    then show ?thesis using Cons.IH [OF c(1), of x] Cons.prems by auto
  qed
qed

lemma foldl_least:
  assumes "carrier a" "carrier z" "\<forall>x \<in> set xs. carrier x"
    and "below a z" "\<forall>x \<in> set xs. below x z"
  shows "below (foldl join a xs) z"
  using assms by (induction xs arbitrary: a) (auto intro: closed join_least)

text \<open>Any order and any duplication of the same updates gives the same state.\<close>

lemma any_order:
  assumes "\<forall>x \<in> set (a # xs). carrier x" "set (a # xs) = set (b # ys)"
  shows "foldl join a xs = foldl join b ys"
proof -
  have below: "below (foldl join c us) (foldl join d vs)"
    if "\<forall>x \<in> set (c # us). carrier x" "set (c # us) = set (d # vs)" for c d us vs
  proof -
    have d: "carrier d" "\<forall>x \<in> set vs. carrier x" using that by (metis list.set_intros)+
    have up: "below x (foldl join d vs)" if "x \<in> set (c # us)" for x
      using foldl_above [OF d, of x] that \<open>set (c # us) = set (d # vs)\<close> by auto
    show ?thesis
      by (rule foldl_least) (use that up foldl_carrier [OF d] in auto)
  qed
  have ys: "\<forall>y \<in> set (b # ys). carrier y" using assms by metis
  show ?thesis
    by (rule below_antisym [OF _ _ below [OF assms] below [OF ys assms(2) [symmetric]]])
      (use assms(1) ys in \<open>auto intro: foldl_carrier\<close>)
qed

end

text \<open>Merging maps entry by entry is convergent when merging the values of each key is.\<close>

lemma convergent_bt_merge:
  fixes C :: "'k::linorder \<Rightarrow> 'v \<Rightarrow> bool"
  assumes "\<And>k. convergent (C k) f"
  shows "convergent (\<lambda>m. bt_ok m \<and> (\<forall>k v. map_of m k = Some v \<longrightarrow> C k v)) (bt_merge f)"
    (is "convergent ?P _")
proof
  note laws = convergent.closed [OF assms] convergent.idem [OF assms]
    convergent.comm [OF assms] convergent.assoc [OF assms]
  have ok: "bt_ok (bt_merge f x y)" if "?P x" for x y
    using that by (auto intro: bt_ok_merge)
  have get: "map_of (bt_merge f x y) k = (case map_of y k of None \<Rightarrow> map_of x k
      | Some v \<Rightarrow> Some (case map_of x k of None \<Rightarrow> v | Some u \<Rightarrow> f u v))" if "?P y" for x y k
    using that by (auto simp: get_bt_merge bt_ok_distinct)
  show cl: "?P (bt_merge f x y)" if "?P x" "?P y" for x y
    using that ok by (auto simp: get intro!: laws split: option.splits)
  show "bt_merge f x x = x" if "?P x" for x
    using that ok by (intro bt_ext ext) (auto simp: get intro!: laws split: option.splits)
  show "bt_merge f x y = bt_merge f y x" if "?P x" "?P y" for x y
    using that ok by (intro bt_ext ext) (auto simp: get intro!: laws split: option.splits)
  show "bt_merge f (bt_merge f x y) z = bt_merge f x (bt_merge f y z)"
    if "?P x" "?P y" "?P z" for x y z
  proof (rule bt_ext)
    show "map_of (bt_merge f (bt_merge f x y) z) = map_of (bt_merge f x (bt_merge f y z))"
    proof
      fix k
      have C: "C k u" if "map_of x k = Some u \<or> map_of y k = Some u \<or> map_of z k = Some u" for u
        using that \<open>?P x\<close> \<open>?P y\<close> \<open>?P z\<close> by blast
      show "map_of (bt_merge f (bt_merge f x y) z) k = map_of (bt_merge f x (bt_merge f y z)) k"
        unfolding get [OF that(3)] get [OF that(2)] get [OF cl [OF that(2,3)]]
        using C laws(4) [of k] by (simp split: option.splits)
    qed
  qed (use that ok cl in blast)+
qed

end
