(* ===== verification/Vint.thy ===== *)
theory Vint
  imports Ordered_Map
begin

text \<open>
  Variable-length integers.  The repository has two implementations of the same wire
  format: \<open>cassandra-types/src/vint.rs\<close> (vectors, a \<open>Result\<close> on short input) and
  \<open>cassandra-io/src/util/varint.rs\<close> (caller-supplied buffers and streams).  Both are
  modelled, each on words at their width; a signed \<open>i64\<close> is its two's complement
  bit pattern.  A Rust panic (an index out of bounds) is \<open>None\<close>.
\<close>

section \<open>Definitions\<close>

subsection \<open>Standard library: leading ones and zeros\<close>

definition leading_ones :: "u8 \<Rightarrow> nat" where
  "leading_ones w = length (takeWhile (bit w) [7, 6, 5, 4, 3, 2, 1, 0])"

definition leading_zeros8 :: "u8 \<Rightarrow> nat" where
  "leading_zeros8 w = length (takeWhile (\<lambda>i. \<not> bit w i) [7, 6, 5, 4, 3, 2, 1, 0])"

definition leading_zeros64 :: "u64 \<Rightarrow> nat" where
  "leading_zeros64 w = length (takeWhile (\<lambda>i. \<not> bit w i) (rev [0..<64]))"

subsection \<open>\<open>cassandra-types/src/vint.rs\<close>\<close>

datatype vint_error = UnexpectedEof

definition zigzag_encode :: "u64 \<Rightarrow> u64" where
  "zigzag_encode v = push_bit 1 v XOR signed_drop_bit 63 v"

definition zigzag_decode :: "u64 \<Rightarrow> u64" where
  "zigzag_decode v = drop_bit 1 v XOR - (v AND 1)"

definition compute_uvint_size :: "u64 \<Rightarrow> nat" where
  "compute_uvint_size v =
     (if v < push_bit 7 1 then 1
      else if v < push_bit 14 1 then 2
      else if v < push_bit 21 1 then 3
      else if v < push_bit 28 1 then 4
      else if v < push_bit 35 1 then 5
      else if v < push_bit 42 1 then 6
      else if v < push_bit 49 1 then 7
      else if v < push_bit 56 1 then 8
      else 9)"

definition encode_uvint :: "u64 \<Rightarrow> bytes" where
  "encode_uvint v =
     (let size = compute_uvint_size v; buf = replicate size (0 :: u8) in
      if size = 1 then buf[0 := ucast v]
      else if size = 9 then
        foldl (\<lambda>b i. b[1 + i := ucast (drop_bit (56 - 8 * i) v)]) (buf[0 := 0xFF]) [0..<8]
      else
        let extra = size - 1;
            buf = foldl (\<lambda>b i. b[size - 1 - i := ucast (drop_bit (8 * i) v)]) buf [0..<extra];
            marker = push_bit (8 - extra) (0xFF :: u8);
            high_bits = ucast (drop_bit (8 * extra) v)
        in buf[0 := marker OR high_bits])"

definition decode_uvint :: "bytes \<Rightarrow> vint_error + u64 \<times> nat" where
  "decode_uvint data =
     (if data = [] then Inl UnexpectedEof
      else
        let first = data ! 0; extra = leading_ones first; size = extra + 1 in
        if extra = 8 then
          (if length data < 9 then Inl UnexpectedEof
           else Inr (foldl (\<lambda>v i. push_bit 8 v OR ucast (data ! (1 + i))) 0 [0..<8], 9))
        else if length data < size then Inl UnexpectedEof
        else
          let mask = push_bit (8 - size) (1 :: u8) - 1 in
          Inr (foldl (\<lambda>v byte. push_bit 8 v OR ucast byte) (ucast (first AND mask))
                 (drop 1 (take size data)), size))"

definition encode_vint :: "u64 \<Rightarrow> bytes" where
  "encode_vint v = encode_uvint (zigzag_encode v)"

definition decode_vint :: "bytes \<Rightarrow> vint_error + u64 \<times> nat" where
  "decode_vint data =
     (case decode_uvint data of Inl e \<Rightarrow> Inl e | Inr (u, len) \<Rightarrow> Inr (zigzag_decode u, len))"

subsection \<open>\<open>cassandra-io/src/util/varint.rs\<close>\<close>

definition unsigned_vint_size :: "u64 \<Rightarrow> nat" where
  "unsigned_vint_size value =
     (let magnitude = 64 - leading_zeros64 value in
      if magnitude \<le> 7 then 1
      else if magnitude \<le> 14 then 2
      else if magnitude \<le> 21 then 3
      else if magnitude \<le> 28 then 4
      else if magnitude \<le> 35 then 5
      else if magnitude \<le> 42 then 6
      else if magnitude \<le> 49 then 7
      else if magnitude \<le> 56 then 8
      else 9)"

definition extra_bytes_for_first :: "u8 \<Rightarrow> nat" where
  "extra_bytes_for_first first_byte = leading_zeros8 (NOT first_byte)"

text \<open>
  Slice accesses \<open>buf[i]\<close> and \<open>buf[1..9]\<close> panic out of range; the loop over
  \<open>iter_mut().enumerate().take(size).skip(1)\<close> stops at the end of the buffer instead.
\<close>

definition encode_unsigned_vint :: "u64 \<Rightarrow> bytes \<Rightarrow> (bytes \<times> nat) option" where
  "encode_unsigned_vint value buf =
     (let size = unsigned_vint_size value in
      if buf = [] then None
      else if size = 1 then Some (buf[0 := ucast value], 1)
      else if size = 9 then
        (if length buf < 9 then None
         else Some (0xFF # be_bytes 8 value @ drop 9 buf, 9))
      else
        let extra = size - 1;
            data_bits_in_first = 8 - extra - 1;
            total_extra_bits = extra * 8;
            prefix = NOT (push_bit (8 - extra) (1 :: u8) - 1);
            first_data = ucast (drop_bit total_extra_bits value)
                           AND (push_bit data_bits_in_first 1 - 1);
            buf = buf[0 := prefix OR first_data];
            buf = foldl (\<lambda>b i. b[i := ucast (drop_bit ((size - 1 - i) * 8) value)])
                    buf [1..<min size (length buf)]
        in Some (buf, size))"

definition decode_unsigned_vint :: "bytes \<Rightarrow> (u64 \<times> nat) option" where
  "decode_unsigned_vint buf =
     (if buf = [] then None
      else
        let first = buf ! 0; extra = extra_bytes_for_first first in
        if extra = 0 then Some (ucast first, 1)
        else if 8 \<le> extra then
          (if length buf < 9 then None else Some (be_fold 0 (take 8 (drop 1 buf)), 9))
        else
          let size = extra + 1;
              data_bits_in_first = 8 - extra - 1;
              mask = push_bit data_bits_in_first (1 :: u8) - 1
          in Some (foldl (\<lambda>v byte. push_bit 8 v OR ucast byte) (ucast (first AND mask))
                     (drop 1 (take size buf)), size))"

definition io_encode_vint :: "u64 \<Rightarrow> bytes \<Rightarrow> (bytes \<times> nat) option" where
  "io_encode_vint value buf = encode_unsigned_vint (zigzag_encode value) buf"

definition io_decode_vint :: "bytes \<Rightarrow> (u64 \<times> nat) option" where
  "io_decode_vint buf =
     (case decode_unsigned_vint buf of None \<Rightarrow> None | Some (raw, n) \<Rightarrow> Some (zigzag_decode raw, n))"

text \<open>
  A \<open>Read\<close> stream is the list of bytes still to come; \<open>read_exact\<close> fails on a stream
  that is too short.  A \<open>Write\<close> stream is the list of bytes written.
\<close>

definition read_exact :: "nat \<Rightarrow> bytes \<Rightarrow> vint_error + bytes \<times> bytes" where
  "read_exact n s = (if length s < n then Inl UnexpectedEof else Inr (take n s, drop n s))"

definition read_unsigned_vint :: "bytes \<Rightarrow> vint_error + u64 \<times> bytes" where
  "read_unsigned_vint reader =
     (case read_exact 1 reader of Inl e \<Rightarrow> Inl e
      | Inr (first, reader) \<Rightarrow>
        let extra = extra_bytes_for_first (first ! 0) in
        if extra = 0 then Inr (ucast (first ! 0), reader)
        else if 8 \<le> extra then
          (case read_exact 8 reader of Inl e \<Rightarrow> Inl e
           | Inr (be, reader) \<Rightarrow> Inr (be_fold 0 be, reader))
        else
          let data_bits_in_first = 8 - extra - 1;
              mask = push_bit data_bits_in_first (1 :: u8) - 1
          in case read_exact extra reader of Inl e \<Rightarrow> Inl e
             | Inr (rest, reader) \<Rightarrow>
                 Inr (foldl (\<lambda>v byte. push_bit 8 v OR ucast byte) (ucast (first ! 0 AND mask)) rest,
                      reader))"

definition write_unsigned_vint :: "bytes \<Rightarrow> u64 \<Rightarrow> (bytes \<times> nat) option" where
  "write_unsigned_vint writer value =
     (case encode_unsigned_vint value (replicate 9 0) of
        None \<Rightarrow> None
      | Some (buf, n) \<Rightarrow> Some (writer @ take n buf, n))"

definition read_vint :: "bytes \<Rightarrow> vint_error + u64 \<times> bytes" where
  "read_vint reader =
     (case read_unsigned_vint reader of Inl e \<Rightarrow> Inl e
      | Inr (raw, reader) \<Rightarrow> Inr (zigzag_decode raw, reader))"

definition write_vint :: "bytes \<Rightarrow> u64 \<Rightarrow> (bytes \<times> nat) option" where
  "write_vint writer value = write_unsigned_vint writer (zigzag_encode value)"

section \<open>Zigzag\<close>

lemma bit_zigzag_encode:
  "bit (zigzag_encode v) n \<longleftrightarrow> n < 64 \<and> ((0 < n \<and> bit v (n - 1)) \<noteq> bit v 63)"
  unfolding zigzag_encode_def bit_xor_iff bit_push_bit_iff bit_signed_drop_bit_iff
  by (cases "n < 64"; cases "n = 0") (auto dest: bit_imp_le_length)

lemma uminus_and_one: "- (x AND 1 :: u64) = (if bit x 0 then - 1 else 0)"
  by (simp add: and_one_eq mod_2_eq_odd bit_0)

lemma zigzag_roundtrip [simp]: "zigzag_decode (zigzag_encode v) = v"
proof (rule bit_word_eqI)
  fix n assume "n < LENGTH(64)"
  then show "bit (zigzag_decode (zigzag_encode v)) n = bit v n"
    unfolding zigzag_decode_def uminus_and_one
    by (cases "n = 63") (auto simp: bit_xor_iff bit_drop_bit_eq bit_zigzag_encode
        dest: bit_imp_le_length)
qed

section \<open>Sizes\<close>

lemma uvint_size_range: "1 \<le> compute_uvint_size v \<and> compute_uvint_size v \<le> 9"
  by (simp add: compute_uvint_size_def)

lemma uvint_size_upper:
  "compute_uvint_size v < 9 \<Longrightarrow> v < 2 ^ (7 * compute_uvint_size v)"
  by (simp add: compute_uvint_size_def split: if_splits)

lemma uvint_size_least: "1 \<le> k \<Longrightarrow> k \<le> 8 \<Longrightarrow> v < push_bit (7 * k) 1 \<Longrightarrow> compute_uvint_size v \<le> k"
proof -
  assume "1 \<le> k" "k \<le> 8" "v < push_bit (7 * k) 1"
  then have "k = 1 \<or> k = 2 \<or> k = 3 \<or> k = 4 \<or> k = 5 \<or> k = 6 \<or> k = 7 \<or> k = 8" by auto
  then show ?thesis
    using \<open>v < push_bit (7 * k) 1\<close> by (elim disjE) (simp_all add: compute_uvint_size_def)
qed

lemma uvint_size_bits:
  "compute_uvint_size v < 9 \<Longrightarrow> bit v j \<Longrightarrow> j < 7 * compute_uvint_size v"
  by (rule bit_less_pow2 [OF uvint_size_upper]) (use uvint_size_range [of v] in auto)

lemma uvint_size_cases:
  obtains "compute_uvint_size v = 1" | "compute_uvint_size v = 9"
  | e where "compute_uvint_size v = Suc e" "1 \<le> e" "e \<le> 7"
proof -
  have "compute_uvint_size v = Suc (compute_uvint_size v - 1)"
    using uvint_size_range [of v] by simp
  moreover have "compute_uvint_size v = 1 \<or> compute_uvint_size v = 9
      \<or> 1 \<le> compute_uvint_size v - 1 \<and> compute_uvint_size v - 1 \<le> 7"
    using uvint_size_range [of v] by linarith
  ultimately show thesis using that by blast
qed

section \<open>Closed form of the encoder\<close>

definition uvint_header :: "nat \<Rightarrow> u64 \<Rightarrow> u8" where
  "uvint_header e v = push_bit (8 - e) 0xFF OR ucast (drop_bit (8 * e) v)"

lemma shift_loop:
  "n \<le> e \<Longrightarrow> foldl (\<lambda>b i. b[e - i := ucast (drop_bit (8 * i) v)]) (replicate (Suc e) (0::u8)) [0..<n]
     = replicate (Suc e - n) 0 @ be_bytes n v"
proof (induction n)
  case 0
  then show ?case by simp
next
  case (Suc n)
  then have "Suc e - n = Suc (e - n)" by simp
  then have r: "replicate (Suc e - n) (0::u8) = replicate (e - n) 0 @ [0]"
    by (simp add: replicate_append_same)
  from Suc show ?case by (simp add: r list_update_append)
qed

lemma fill_loop:
  "n \<le> m \<Longrightarrow> foldl (\<lambda>b i. b[Suc i := f i]) (x # replicate m z) [0..<n]
     = x # map f [0..<n] @ replicate (m - n) z"
proof (induction n)
  case 0
  then show ?case by simp
next
  case (Suc n)
  then have "m - n = Suc (m - Suc n)" by simp
  with Suc show ?case by (simp add: list_update_append)
qed

lemma be_bytes_8: "be_bytes 8 v = map (\<lambda>i. ucast (drop_bit (56 - 8 * i) v)) [0..<8]"
  by (rule nth_equalityI) (auto simp: be_bytes_nth diff_mult_distrib2 simp del: upt_rec_numeral)

lemma encode_uvint_eq:
  "compute_uvint_size v = 1 \<Longrightarrow> encode_uvint v = [ucast v]"
  "compute_uvint_size v = 9 \<Longrightarrow> encode_uvint v = 0xFF # be_bytes 8 v"
  "compute_uvint_size v = Suc e \<Longrightarrow> 1 \<le> e \<Longrightarrow> e \<le> 7 \<Longrightarrow>
     encode_uvint v = uvint_header e v # be_bytes e v"
proof -
  assume "compute_uvint_size v = 1"
  then show "encode_uvint v = [ucast v]" by (simp add: encode_uvint_def)
next
  assume "compute_uvint_size v = 9"
  moreover have "replicate 9 (0 :: u8) = 0 # replicate 8 0"
    by (simp add: eval_nat_numeral)
  ultimately show "encode_uvint v = 0xFF # be_bytes 8 v"
    using fill_loop [of 8 8 "\<lambda>i. ucast (drop_bit (56 - 8 * i) v)" "0xFF" 0]
    by (simp add: encode_uvint_def be_bytes_8 del: upt_rec_numeral)
next
  assume s: "compute_uvint_size v = Suc e" and e: "1 \<le> e" "e \<le> 7"
  have "foldl (\<lambda>b i. b[e - i := ucast (drop_bit (8 * i) v)]) (replicate (Suc e) (0::u8)) [0..<e]
      = 0 # be_bytes e v"
    using shift_loop [of e e v] by simp
  then show "encode_uvint v = uvint_header e v # be_bytes e v"
    using s e by (simp add: encode_uvint_def uvint_header_def Let_def)
qed

lemma length_encode_uvint: "length (encode_uvint v) = compute_uvint_size v"
  by (cases v rule: uvint_size_cases) (auto simp: encode_uvint_eq)

section \<open>Decoding the header byte\<close>

lemma leading_onesI:
  assumes "n \<le> 8" "\<And>i. 8 - n \<le> i \<Longrightarrow> i < 8 \<Longrightarrow> bit w i" "n < 8 \<Longrightarrow> \<not> bit w (7 - n)"
  shows "leading_ones w = n"
proof -
  have "n = 0 \<or> n = 1 \<or> n = 2 \<or> n = 3 \<or> n = 4 \<or> n = 5 \<or> n = 6 \<or> n = 7 \<or> n = 8"
    using assms(1) by auto
  then show ?thesis
    using assms(2,3) by (elim disjE) (simp_all add: leading_ones_def)
qed

lemma leading_ones_le: "leading_ones w \<le> 8"
  unfolding leading_ones_def by (rule order_trans [OF length_takeWhile_le]) simp

lemma bit_FF: "bit (0xFF :: u8) i \<longleftrightarrow> i < 8"
proof -
  have "(0xFF :: u8) = mask 8" by (simp add: mask_eq_exp_minus_1)
  then show ?thesis by (simp only: bit_mask_iff) simp
qed

lemma leading_ones_FF [simp]: "leading_ones 0xFF = 8"
  by (simp add: leading_ones_def)

lemma header_bit:
  assumes "1 \<le> e" "e \<le> 7"
  shows "bit (uvint_header e v) i \<longleftrightarrow> i < 8 \<and> (8 - e \<le> i \<or> bit v (8 * e + i))"
  unfolding uvint_header_def bit_or_iff bit_push_bit_iff bit_FF bit_ucast_iff bit_drop_bit_eq
  using assms by auto

lemma mask_u8: "push_bit n (1 :: u8) - 1 = mask n"
  by (simp add: mask_eq_exp_minus_1)

text \<open>Every encoding is a header byte that names the number of bytes to follow.\<close>

definition uvint_first :: "u64 \<Rightarrow> u8" where
  "uvint_first v = hd (encode_uvint v)"

lemma uvint_first_bits:
  assumes "e = compute_uvint_size v - 1"
  shows "bit (uvint_first v) i \<longleftrightarrow> i < 8 \<and> (8 - e \<le> i \<or> e < 8 \<and> bit v (8 * e + i))"
proof (cases v rule: uvint_size_cases)
  case 1
  then show ?thesis
    using assms by (auto simp: uvint_first_def encode_uvint_eq bit_ucast_iff)
next
  case 2
  then show ?thesis
    using assms by (simp only: uvint_first_def encode_uvint_eq list.sel bit_FF) auto
next
  case (3 e')
  then show ?thesis
    using assms by (auto simp: uvint_first_def encode_uvint_eq header_bit)
qed

lemma encode_uvint_shape:
  "encode_uvint v = uvint_first v # be_bytes (compute_uvint_size v - 1) v"
  by (cases v rule: uvint_size_cases) (auto simp: uvint_first_def encode_uvint_eq)

lemma uvint_extra:
  obtains e where "compute_uvint_size v = Suc e" "e \<le> 8"
proof (cases "compute_uvint_size v")
  case (Suc e)
  with that uvint_size_range [of v] show thesis by simp
qed (use uvint_size_range [of v] in simp)

lemma leading_ones_first: "leading_ones (uvint_first v) = compute_uvint_size v - 1"
proof -
  obtain e where e: "compute_uvint_size v = Suc e" "e \<le> 8" by (rule uvint_extra)
  then have bits: "bit (uvint_first v) i \<longleftrightarrow> i < 8 \<and> (8 - e \<le> i \<or> e < 8 \<and> bit v (8 * e + i))" for i
    using uvint_first_bits [of e v] by simp
  have "\<not> bit v (8 * e + (7 - e))" if "e < 8"
    using uvint_size_bits [of v "8 * e + (7 - e)"] e that by auto
  then have "leading_ones (uvint_first v) = e"
    using e by (intro leading_onesI) (auto simp: bits)
  with e show ?thesis by simp
qed

lemma first_value_bits:
  assumes e: "compute_uvint_size v = Suc e"
  shows "push_bit (8 * e) (ucast (uvint_first v AND mask (7 - e))) OR take_bit (8 * e) v = v"
proof (cases "e = 8")
  case True
  then show ?thesis by (simp add: take_bit_word_eq_self)
next
  case False
  then have "e < 8" using e uvint_size_range [of v] by simp
  have bits: "bit (uvint_first v) i \<longleftrightarrow> i < 8 \<and> (8 - e \<le> i \<or> bit v (8 * e + i))" for i
    using uvint_first_bits [of e v] e \<open>e < 8\<close> by simp
  have low: "i < 7 * e + 7" if "bit v i" for i
    using uvint_size_bits [of v i] e \<open>e < 8\<close> that by simp
  show ?thesis
    by (rule bit_word_eqI)
      (auto simp: bit_or_iff bit_push_bit_iff bit_ucast_iff bit_and_iff bit_mask_iff
        bit_take_bit_iff bits dest: low)
qed

section \<open>Closed form of the decoders\<close>

definition uvint_value :: "u8 \<Rightarrow> bytes \<Rightarrow> u64" where
  "uvint_value b bs = be_fold (ucast (b AND mask (7 - leading_ones b))) (take (leading_ones b) bs)"

lemma map_nth_take: "n \<le> length bs \<Longrightarrow> map (\<lambda>i. bs ! i) [0..<n] = take n bs"
  by (rule nth_equalityI) simp_all

lemma be_fold_loop: "foldl (\<lambda>v i. push_bit 8 v OR ucast ((bs :: bytes) ! i)) w [0..<n] = be_fold w (take n bs)"
  if "n \<le> length bs"
  unfolding be_fold_def map_nth_take [OF that, symmetric] foldl_map ..

lemma decode_uvint_eq:
  "decode_uvint [] = Inl UnexpectedEof"
  "decode_uvint (b # bs) =
     (if length bs < leading_ones b then Inl UnexpectedEof
      else Inr (uvint_value b bs, leading_ones b + 1))"
proof -
  show "decode_uvint [] = Inl UnexpectedEof" by (simp add: decode_uvint_def)
  show "decode_uvint (b # bs) =
     (if length bs < leading_ones b then Inl UnexpectedEof
      else Inr (uvint_value b bs, leading_ones b + 1))"
  proof (cases "leading_ones b = 8")
    case True
    have loop: "foldl (\<lambda>v i. push_bit 8 v OR ucast ((b # bs) ! (1 + i))) (0 :: u64) [0..<8]
        = be_fold 0 (take 8 bs)" if "\<not> length bs < 8"
      using be_fold_loop [of 8 bs "0 :: u64"] that by (simp del: upt_rec_numeral)
    show ?thesis
    proof (cases "length bs < 8")
      case short: True
      then show ?thesis using True by (simp add: decode_uvint_def)
    next
      case long: False
      show ?thesis
        using True long unfolding decode_uvint_def Let_def loop [OF long] uvint_value_def by simp
    qed
  next
    case False
    then show ?thesis
      by (simp add: decode_uvint_def uvint_value_def mask_eq_exp_minus_1 be_fold_def Let_def)
  qed
qed

lemma uvint_value_encode:
  "uvint_value (uvint_first v) (be_bytes (compute_uvint_size v - 1) v @ rest) = v"
proof -
  obtain e where "compute_uvint_size v = Suc e" by (rule uvint_extra)
  then show ?thesis
    using first_value_bits [of v e]
    by (simp add: uvint_value_def leading_ones_first be_fold_be_bytes)
qed

theorem decode_encode_uvint:
  "decode_uvint (encode_uvint v @ rest) = Inr (v, length (encode_uvint v))"
proof -
  obtain e where "compute_uvint_size v = Suc e" by (rule uvint_extra)
  then show ?thesis
    using uvint_value_encode [of v rest]
    by (simp add: length_encode_uvint encode_uvint_shape decode_uvint_eq leading_ones_first)
qed

section \<open>The buffer and stream codec agrees with the vector codec\<close>

lemma extra_bytes_eq: "extra_bytes_for_first b = leading_ones b"
  unfolding extra_bytes_for_first_def leading_zeros8_def leading_ones_def
  by (rule arg_cong [of _ _ length], rule takeWhile_cong) (auto simp: bit_not_iff)

lemma magnitude_le:
  "n - length (takeWhile (\<lambda>i. \<not> bit (v :: u64) i) (rev [0..<n])) \<le> k
     \<longleftrightarrow> (\<forall>i<n. bit v i \<longrightarrow> i < k)"
proof (induction n)
  case 0
  then show ?case by simp
next
  case (Suc n)
  have "length (takeWhile (\<lambda>i. \<not> bit v i) (rev [0..<n])) \<le> n"
    using length_takeWhile_le [of _ "rev [0..<n]"] by simp
  with Suc show ?case by (auto simp: less_Suc_eq Suc_diff_le)
qed

lemma unsigned_vint_size_eq: "unsigned_vint_size v = compute_uvint_size v"
proof -
  have "64 - leading_zeros64 v \<le> k \<longleftrightarrow> v < push_bit k 1" if "k < 64" for k
    using magnitude_le [of 64 v k] less_pow2_iff_bits [of k v] that bit_imp_le_length [of v]
    by (auto simp: leading_zeros64_def)
  then show ?thesis
    by (simp add: unsigned_vint_size_def compute_uvint_size_def Let_def)
qed

lemma prefix_header:
  assumes "1 \<le> e" "e \<le> 7" "compute_uvint_size v = Suc e"
  shows "NOT (push_bit (8 - e) (1 :: u8) - 1)
      OR (ucast (drop_bit (e * 8) v) AND (push_bit (8 - e - 1) 1 - 1)) = uvint_header e v"
proof -
  have low: "i < 7 * e + 7" if "bit v i" for i
    using uvint_size_bits [of v i] assms that by simp
  show ?thesis
    unfolding mask_u8
    by (rule bit_word_eqI)
      (auto simp: header_bit [OF assms(1,2)] bit_or_iff bit_not_iff bit_mask_iff bit_and_iff
        bit_ucast_iff bit_drop_bit_eq mult.commute dest: low)
qed

lemma store_loop:
  assumes "Suc e \<le> length buf"
  shows "n \<le> e \<Longrightarrow>
    foldl (\<lambda>b i. b[i := ucast (drop_bit ((e - i) * 8) v)]) buf [1..<Suc n]
      = take 1 buf @ take n (be_bytes e v) @ drop (Suc n) buf"
proof (induction n)
  case 0
  with assms show ?case by (cases buf) simp_all
next
  case (Suc n)
  have n: "n < e" using Suc.prems by simp
  have upt: "[Suc 0..<Suc (Suc n)] = [Suc 0..<Suc n] @ [Suc n]" by simp
  have d: "drop (Suc n) buf = buf ! Suc n # drop (Suc (Suc n)) buf"
    using n assms by (simp add: Cons_nth_drop_Suc)
  have "length (take 1 buf @ take n (be_bytes e v)) = Suc n"
    using n assms by (cases buf) simp_all
  then have "(take 1 buf @ take n (be_bytes e v) @ drop (Suc n) buf)[Suc n := x]
      = take 1 buf @ take n (be_bytes e v) @ x # drop (Suc (Suc n)) buf" for x
    using n d by (simp add: list_update_append)
  moreover have "be_bytes e v ! n = ucast (drop_bit ((e - Suc n) * 8) v)"
    using n by (simp add: be_bytes_nth mult.commute)
  ultimately show ?case
    using Suc n by (simp add: upt take_Suc_conv_app_nth del: upt_Suc)
qed

theorem encode_unsigned_vint_eq:
  assumes "compute_uvint_size v \<le> length buf"
  shows "encode_unsigned_vint v buf
       = Some (encode_uvint v @ drop (compute_uvint_size v) buf, compute_uvint_size v)"
proof (cases v rule: uvint_size_cases)
  case 1
  with assms show ?thesis
    by (cases buf) (simp_all add: encode_unsigned_vint_def unsigned_vint_size_eq encode_uvint_eq)
next
  case 2
  with assms show ?thesis
    by (auto simp: encode_unsigned_vint_def unsigned_vint_size_eq encode_uvint_eq)
next
  case (3 e)
  then obtain b bs where buf: "buf = b # bs" and len: "e \<le> length bs"
    using assms by (cases buf) auto
  have "min (Suc e) (length buf) = Suc e" using buf len by simp
  then show ?thesis
    using 3 prefix_header [of e v] store_loop [of e "uvint_header e v # bs" e v] len
    by (simp add: encode_unsigned_vint_def unsigned_vint_size_eq encode_uvint_eq buf Let_def
        del: upt_Suc)
qed

lemma no_leading_ones_mask: "leading_ones b = 0 \<Longrightarrow> b AND mask 7 = b"
proof -
  assume "leading_ones b = 0"
  then have "\<not> bit b 7" by (simp add: leading_ones_def split: if_splits)
  then show ?thesis
    by (intro bit_word_eqI) (auto simp: bit_and_iff bit_mask_iff less_Suc_eq numeral_eq_Suc)
qed

lemma leading_ones_ge_8: "8 \<le> leading_ones b \<Longrightarrow> leading_ones b = 8"
  using leading_ones_le [of b] by simp

lemmas uvint_decoder_simps = uvint_value_def extra_bytes_eq mask_eq_exp_minus_1 be_fold_def Let_def

lemma decode_unsigned_vint_eq:
  "decode_unsigned_vint (b # bs) =
     (if leading_ones b = 8 \<and> length bs < 8 then None
      else Some (uvint_value b bs, leading_ones b + 1))"
  using no_leading_ones_mask [of b] leading_ones_ge_8 [of b]
  by (auto simp: decode_unsigned_vint_def uvint_decoder_simps)

lemma read_unsigned_vint_eq:
  "read_unsigned_vint [] = Inl UnexpectedEof"
  "read_unsigned_vint (b # bs) =
     (if length bs < leading_ones b then Inl UnexpectedEof
      else Inr (uvint_value b bs, drop (leading_ones b) bs))"
  using no_leading_ones_mask [of b] leading_ones_ge_8 [of b]
  by (auto simp: read_unsigned_vint_def read_exact_def uvint_decoder_simps)

lemma write_unsigned_vint_eq:
  "write_unsigned_vint writer v = Some (writer @ encode_uvint v, compute_uvint_size v)"
proof -
  have "compute_uvint_size v \<le> 9" using uvint_size_range [of v] by simp
  then show ?thesis
    using encode_unsigned_vint_eq [of v "replicate 9 0"]
    by (simp add: write_unsigned_vint_def flip: length_encode_uvint)
qed

lemma decode_uvint_truncated:
  assumes "k < length (encode_uvint v)"
  shows "decode_uvint (take k (encode_uvint v)) = Inl UnexpectedEof"
proof (cases k)
  case 0
  then show ?thesis by (simp add: decode_uvint_eq)
next
  case (Suc k')
  with assms show ?thesis
    by (simp add: encode_uvint_shape decode_uvint_eq leading_ones_first length_encode_uvint)
qed

section \<open>The codec contract\<close>

text \<open>
  What a serializer relies on: a decoder that returns the value and the unread input,
  reverses the encoder whatever follows it, and reports a truncated encoding.
\<close>

primrec decode_many ::
  "(bytes \<Rightarrow> vint_error + u64 \<times> bytes) \<Rightarrow> nat \<Rightarrow> bytes \<Rightarrow> vint_error + u64 list \<times> bytes" where
  "decode_many dec 0 bs = Inr ([], bs)"
| "decode_many dec (Suc n) bs =
     (case dec bs of Inl e \<Rightarrow> Inl e
      | Inr (v, bs) \<Rightarrow> (case decode_many dec n bs of Inl e \<Rightarrow> Inl e
                        | Inr (vs, bs) \<Rightarrow> Inr (v # vs, bs)))"

locale vint_codec =
  fixes enc :: "u64 \<Rightarrow> bytes"
    and dec :: "bytes \<Rightarrow> vint_error + u64 \<times> bytes"
  assumes dec_enc: "dec (enc v @ rest) = Inr (v, rest)"
    and truncated: "k < length (enc v) \<Longrightarrow> dec (take k (enc v)) = Inl UnexpectedEof"
begin

lemma decode_many_concat:
  "decode_many dec (length vs) (concat (map enc vs) @ rest) = Inr (vs, rest)"
  by (induction vs) (simp_all add: dec_enc)

lemma prefix_free: "enc v @ r = enc w @ r' \<Longrightarrow> v = w \<and> r = r'"
  by (metis dec_enc prod.inject sum.inject(2))

lemma sequences_unique: "length vs = length ws \<Longrightarrow> concat (map enc vs) = concat (map enc ws) \<Longrightarrow> vs = ws"
  using decode_many_concat [of vs "[]"] decode_many_concat [of ws "[]"] by simp

lemma decode_many_truncated:
  assumes "k < length (enc v)"
  shows "decode_many dec (Suc (length vs)) (concat (map enc vs) @ take k (enc v))
       = Inl UnexpectedEof"
  by (induction vs) (simp_all add: dec_enc truncated [OF assms])

end

definition next_uvint :: "bytes \<Rightarrow> vint_error + u64 \<times> bytes" where
  "next_uvint data = (case decode_uvint data of Inl e \<Rightarrow> Inl e | Inr (v, n) \<Rightarrow> Inr (v, drop n data))"

definition next_vint :: "bytes \<Rightarrow> vint_error + u64 \<times> bytes" where
  "next_vint data = (case decode_vint data of Inl e \<Rightarrow> Inl e | Inr (v, n) \<Rightarrow> Inr (v, drop n data))"

lemma read_unsigned_vint_next: "read_unsigned_vint bs = next_uvint bs"
  by (cases bs) (simp_all add: next_uvint_def decode_uvint_eq read_unsigned_vint_eq)

lemma read_vint_next: "read_vint bs = next_vint bs"
  unfolding read_vint_def next_vint_def decode_vint_def read_unsigned_vint_next next_uvint_def
  by (simp split: sum.splits prod.splits)

interpretation uvint: vint_codec encode_uvint read_unsigned_vint
  by unfold_locales
    (simp_all add: read_unsigned_vint_next next_uvint_def decode_encode_uvint decode_uvint_truncated)

interpretation svint: vint_codec encode_vint read_vint
  by unfold_locales
    (simp_all add: read_vint_next next_vint_def decode_vint_def encode_vint_def
      decode_encode_uvint decode_uvint_truncated)

section \<open>Properties\<close>

text \<open>
  C33. A signed value written by \<open>encode_vint\<close> is read back by \<open>decode_vint\<close>
  whatever bytes follow it, with exactly the encoded length consumed.
\<close>

theorem vint_roundtrip:
  "decode_vint (encode_vint v @ rest) = Inr (v, length (encode_vint v))"
  by (simp add: decode_vint_def encode_vint_def decode_encode_uvint)

text \<open>
  Every proper prefix of an encoding is reported as \<open>UnexpectedEof\<close>; no truncated
  value is ever decoded.
\<close>

theorem vint_truncated:
  assumes "k < length (encode_vint v)"
  shows "decode_vint (take k (encode_vint v)) = Inl UnexpectedEof"
  using assms by (simp add: decode_vint_def encode_vint_def decode_uvint_truncated)

theorem vint_truncated_witness:
  "2 < length (encode_vint 100000) \<and> decode_vint (take 2 (encode_vint 100000)) = Inl UnexpectedEof"
proof -
  have h: "2 < length (encode_vint 100000)"
    by (simp add: encode_vint_def length_encode_uvint compute_uvint_size_def zigzag_encode_def)
  show ?thesis using h vint_truncated [OF h] by simp
qed

text \<open>
  C32. The two implementations agree: \<open>encode_unsigned_vint\<close> writes into any buffer that
  is large enough exactly the bytes of \<open>encode_uvint\<close>, leaves the rest of the buffer
  alone and returns their number, which is between one and nine and the least number of
  seven-bit groups that hold the value; and where \<open>decode_uvint\<close> succeeds
  \<open>decode_unsigned_vint\<close> returns the same value and length.
\<close>

theorem vint_implementations_agree:
  "(compute_uvint_size v \<le> length buf \<longrightarrow>
      encode_unsigned_vint v buf
        = Some (encode_uvint v @ drop (compute_uvint_size v) buf, compute_uvint_size v))
   \<and> length (encode_uvint v) = compute_uvint_size v
   \<and> 1 \<le> compute_uvint_size v \<and> compute_uvint_size v \<le> 9
   \<and> (\<forall>k. 1 \<le> k \<and> k \<le> 8 \<longrightarrow> (compute_uvint_size v \<le> k \<longleftrightarrow> v < push_bit (7 * k) 1))
   \<and> (\<forall>r. decode_uvint data = Inr r \<longrightarrow> decode_unsigned_vint data = Some r)"
  (is "?A \<and> ?B \<and> ?C \<and> ?D \<and> ?E \<and> ?F")
proof (intro conjI)
  show ?A using encode_unsigned_vint_eq by blast
  show ?B by (rule length_encode_uvint)
  show ?C ?D using uvint_size_range by blast+
  have "compute_uvint_size v \<le> k \<Longrightarrow> v < push_bit (7 * k) 1" if "1 \<le> k" "k \<le> 8" for k
  proof -
    assume s: "compute_uvint_size v \<le> k"
    then have "bit v i \<Longrightarrow> i < 7 * k" for i
      using uvint_size_bits [of v i] that by auto
    then show ?thesis
      using less_pow2_iff_bits [of "7 * k" v] that by auto
  qed
  then show ?E using uvint_size_least by blast
  show ?F
    by (cases data) (auto simp: decode_uvint_eq decode_unsigned_vint_eq split: if_splits)
qed

theorem vint_implementations_agree_witness:
  "encode_unsigned_vint 300 [7, 7, 7] = Some ([0x81, 0x2C, 7], 2)
   \<and> decode_unsigned_vint [0x81, 0x2C] = Some (300, 2)"
proof -
  have s: "compute_uvint_size 300 = 2" by (simp add: compute_uvint_size_def)
  then have e: "encode_uvint 300 = [0x81, 0x2C]"
    by (simp add: encode_uvint_eq(3) [of 300 1] uvint_header_def)
  have "encode_unsigned_vint 300 [7, 7, 7] = Some ([0x81, 0x2C, 7], 2)"
    using vint_implementations_agree [of 300 "[7, 7, 7]" "[]"] s e by simp
  moreover have "decode_uvint [0x81, 0x2C] = Inr (300, 2)"
    using decode_encode_uvint [of 300 "[]"] e by simp
  then have "decode_unsigned_vint [0x81, 0x2C] = Some (300, 2)"
    using vint_implementations_agree [of 0 "[]" "[0x81, 0x2C]"] by blast
  ultimately show ?thesis by simp
qed

text \<open>
  A stream of any number of signed values written one after the other reads back as
  the same values, leaving the bytes that follow, and a stream cut inside its last value
  fails instead of yielding a shortened sequence.
\<close>

theorem vint_stream_roundtrip:
  "fold (\<lambda>v w. fst (the (write_vint w v))) vs writer = writer @ concat (map encode_vint vs)
   \<and> decode_many read_vint (length vs) (concat (map encode_vint vs) @ rest) = Inr (vs, rest)
   \<and> (\<forall>k < length (encode_vint v).
        decode_many read_vint (Suc (length vs)) (concat (map encode_vint vs) @ take k (encode_vint v))
          = Inl UnexpectedEof)"
proof (intro conjI allI impI)
  show "fold (\<lambda>v w. fst (the (write_vint w v))) vs writer = writer @ concat (map encode_vint vs)"
    by (induction vs arbitrary: writer)
      (simp_all add: write_vint_def write_unsigned_vint_eq encode_vint_def)
qed (rule svint.decode_many_concat, rule svint.decode_many_truncated)

theorem vint_stream_roundtrip_witness:
  "decode_many read_vint 2 (concat (map encode_vint [1, - 1]) @ [9]) = Inr ([1, - 1], [9])"
  using vint_stream_roundtrip [of "[1, - 1]" "[]" "[9]" 0] by (simp add: numeral_2_eq_2)

end
