(* ===== verification/Tombstones.thy ===== *)
theory Tombstones
  imports Ordered_Map
begin

text \<open>
  Deletion and liveness of \<open>cassandra-common\<close> and \<open>cassandra-storage\<close>:
  \<open>timestamp.rs\<close>, \<open>ttl.rs\<close> and \<open>tombstone.rs\<close> (the sentinels, \<open>DeletionTime\<close> with its
  order, \<open>RangeTombstone\<close>), \<open>rows/liveness.rs\<close> (\<open>LivenessInfo\<close>) and \<open>rows/deletion.rs\<close>
  (\<open>MutableDeletionInfo\<close>: partition deletion and range tombstones).  Timestamps and
  times are only compared, so they are integers; strings of bytes compare
  lexicographically.  The lemmas show that \<open>supersedes\<close> is the strict part of the
  linear order of \<open>DeletionTime\<close>, that merging liveness is convergent, and that the
  deletion active for a clustering key is the greatest of all deletions covering it,
  whatever the order in which they were added or merged.
\<close>

section \<open>Sentinels\<close>

definition NO_TIMESTAMP :: i64 where "NO_TIMESTAMP = i64_min"
definition NO_TTL :: i32 where "NO_TTL = 0"
definition NO_DELETION_TIME :: i32 where "NO_DELETION_TIME = i32_max"
definition MAX_TTL :: i32 where "MAX_TTL = 20 * 365 * 24 * 60 * 60"

lemmas sentinel_defs = NO_TIMESTAMP_def NO_TTL_def NO_DELETION_TIME_def

section \<open>Deletion times\<close>

datatype deletion_time =
  DeletionTime (marked_for_delete_at: i64) (local_deletion_time: i32)

definition DELETION_LIVE :: deletion_time where
  "DELETION_LIVE = DeletionTime NO_TIMESTAMP NO_DELETION_TIME"

definition deletion_is_live :: "deletion_time \<Rightarrow> bool" where
  "deletion_is_live d \<longleftrightarrow>
     marked_for_delete_at d = NO_TIMESTAMP \<and> local_deletion_time d = NO_DELETION_TIME"

definition supersedes :: "deletion_time \<Rightarrow> deletion_time \<Rightarrow> bool" where
  "supersedes d other \<longleftrightarrow>
     marked_for_delete_at d > marked_for_delete_at other \<or>
     (marked_for_delete_at d = marked_for_delete_at other \<and>
      local_deletion_time d > local_deletion_time other)"

definition is_purgeable :: "deletion_time \<Rightarrow> i32 \<Rightarrow> bool" where
  "is_purgeable d gc_before_seconds \<longleftrightarrow>
     \<not> deletion_is_live d \<and> local_deletion_time d < gc_before_seconds"

text \<open>\<open>Ord for DeletionTime\<close>: by deletion timestamp, then by local deletion time.\<close>

instantiation deletion_time :: linorder
begin

definition less_eq_deletion_time :: "deletion_time \<Rightarrow> deletion_time \<Rightarrow> bool" where
  "d \<le> e \<longleftrightarrow> marked_for_delete_at d < marked_for_delete_at e \<or>
     (marked_for_delete_at d = marked_for_delete_at e \<and>
      local_deletion_time d \<le> local_deletion_time e)"

definition less_deletion_time :: "deletion_time \<Rightarrow> deletion_time \<Rightarrow> bool" where
  "d < e \<longleftrightarrow> marked_for_delete_at d < marked_for_delete_at e \<or>
     (marked_for_delete_at d = marked_for_delete_at e \<and>
      local_deletion_time d < local_deletion_time e)"

instance
  by standard (auto simp: less_eq_deletion_time_def less_deletion_time_def deletion_time.expand)

end

lemma supersedes_iff: "supersedes d e \<longleftrightarrow> e < d"
  by (auto simp: supersedes_def less_deletion_time_def)

lemma deletion_is_live_iff: "deletion_is_live d \<longleftrightarrow> d = DELETION_LIVE"
  by (cases d) (simp add: deletion_is_live_def DELETION_LIVE_def)

lemma marked_mono: "d \<le> e \<Longrightarrow> marked_for_delete_at d \<le> marked_for_delete_at e"
  by (auto simp: less_eq_deletion_time_def)

text \<open>The idiom \<open>if other.supersedes(self) { other } else { self }\<close> is the maximum.\<close>

lemma supersedes_max: "(if supersedes e d then e else d) = max d e"
  by (auto simp: supersedes_iff max_def)

section \<open>Range tombstones\<close>

record range_tombstone =
  rt_start :: bytes
  rt_end :: bytes
  rt_deletion :: deletion_time

definition range_is_live :: "range_tombstone \<Rightarrow> bool" where
  "range_is_live rt = deletion_is_live (rt_deletion rt)"

definition covers :: "range_tombstone \<Rightarrow> bytes \<Rightarrow> bool" where
  "covers rt clustering_key \<longleftrightarrow> rt_start rt \<le> clustering_key \<and> clustering_key \<le> rt_end rt"

section \<open>Partition deletion information\<close>

record deletion_info =
  partition_deletion :: deletion_time
  range_tombstones :: "range_tombstone list"

definition deletion_info_live :: deletion_info where
  "deletion_info_live = \<lparr>partition_deletion = DELETION_LIVE, range_tombstones = []\<rparr>"

definition with_partition_deletion :: "deletion_time \<Rightarrow> deletion_info" where
  "with_partition_deletion d = \<lparr>partition_deletion = d, range_tombstones = []\<rparr>"

definition deletion_info_is_live :: "deletion_info \<Rightarrow> bool" where
  "deletion_info_is_live di \<longleftrightarrow>
     deletion_is_live (partition_deletion di) \<and> range_tombstones di = []"

definition add_range_tombstone :: "range_tombstone \<Rightarrow> deletion_info \<Rightarrow> deletion_info" where
  "add_range_tombstone rt di =
     di\<lparr>range_tombstones := sort_key rt_start (range_tombstones di @ [rt])\<rparr>"

definition set_partition_deletion :: "deletion_time \<Rightarrow> deletion_info \<Rightarrow> deletion_info" where
  "set_partition_deletion d di =
     (if supersedes d (partition_deletion di) then di\<lparr>partition_deletion := d\<rparr> else di)"

definition deletion_info_merge :: "deletion_info \<Rightarrow> deletion_info \<Rightarrow> deletion_info" where
  "deletion_info_merge di other =
     fold add_range_tombstone (range_tombstones other)
       (set_partition_deletion (partition_deletion other) di)"

definition range_tombstone_covering :: "deletion_info \<Rightarrow> bytes \<Rightarrow> range_tombstone option" where
  "range_tombstone_covering di clustering_key =
     max_by_key rt_deletion (filter (\<lambda>rt. covers rt clustering_key) (range_tombstones di))"

definition active_deletion_for :: "deletion_info \<Rightarrow> bytes \<Rightarrow> deletion_time" where
  "active_deletion_for di clustering_key =
     (case range_tombstone_covering di clustering_key of
        Some rt \<Rightarrow> if supersedes (rt_deletion rt) (partition_deletion di)
                   then rt_deletion rt else partition_deletion di
      | None \<Rightarrow> partition_deletion di)"

text \<open>The deletions that apply to a clustering key.\<close>

definition covering_deletions :: "deletion_info \<Rightarrow> bytes \<Rightarrow> deletion_time set" where
  "covering_deletions di k =
     insert (partition_deletion di) (rt_deletion ` {rt \<in> set (range_tombstones di). covers rt k})"

lemma finite_covering [simp]: "finite (covering_deletions di k)" "covering_deletions di k \<noteq> {}"
  by (auto simp: covering_deletions_def)

lemma partition_below_Max: "partition_deletion di \<le> Max (covering_deletions di k)"
  by (rule Max_ge) (simp, simp add: covering_deletions_def)

lemma active_deletion_Max: "active_deletion_for di k = Max (covering_deletions di k)"
proof (cases "range_tombstone_covering di k")
  case None
  then have "{rt \<in> set (range_tombstones di). covers rt k} = {}"
    by (simp add: range_tombstone_covering_def filter_empty_conv)
  with None show ?thesis
    by (simp only: active_deletion_for_def covering_deletions_def) simp
next
  case (Some rt)
  then have mem: "rt \<in> set (range_tombstones di)" "covers rt k"
    and top: "\<And>r. r \<in> set (range_tombstones di) \<Longrightarrow> covers r k \<Longrightarrow> rt_deletion r \<le> rt_deletion rt"
    using max_by_key_in [OF Some [unfolded range_tombstone_covering_def]]
      max_by_key_max [OF Some [unfolded range_tombstone_covering_def]] by auto
  have "active_deletion_for di k = max (partition_deletion di) (rt_deletion rt)"
    using Some by (simp add: active_deletion_for_def supersedes_max)
  also have "\<dots> = Max (covering_deletions di k)"
    by (rule Max_eqI [symmetric])
      (use mem top in \<open>auto simp: covering_deletions_def le_max_iff_disj\<close>, use mem in \<open>auto simp: max_def\<close>)
  finally show ?thesis .
qed

lemma range_tombstones_add [simp]:
  "set (range_tombstones (add_range_tombstone rt di)) = insert rt (set (range_tombstones di))"
  by (auto simp: add_range_tombstone_def)

lemma partition_deletion_add [simp]:
  "partition_deletion (add_range_tombstone rt di) = partition_deletion di"
  by (simp add: add_range_tombstone_def)

lemma fold_add_range:
  "set (range_tombstones (fold add_range_tombstone rts di)) = set rts \<union> set (range_tombstones di)"
  "partition_deletion (fold add_range_tombstone rts di) = partition_deletion di"
  by (induction rts arbitrary: di) auto

lemma set_partition_deletion_max [simp]:
  "partition_deletion (set_partition_deletion d di) = max (partition_deletion di) d"
  "range_tombstones (set_partition_deletion d di) = range_tombstones di"
  by (auto simp: set_partition_deletion_def supersedes_iff max_def)

lemma deletion_info_merge_simps [simp]:
  "partition_deletion (deletion_info_merge di e) = max (partition_deletion di) (partition_deletion e)"
  "set (range_tombstones (deletion_info_merge di e)) =
     set (range_tombstones di) \<union> set (range_tombstones e)"
  by (auto simp: deletion_info_merge_def fold_add_range)

lemma active_deletion_add:
  "active_deletion_for (add_range_tombstone rt di) k =
     (if covers rt k then max (active_deletion_for di k) (rt_deletion rt)
      else active_deletion_for di k)"
proof -
  have "covering_deletions (add_range_tombstone rt di) k =
      (if covers rt k then insert (rt_deletion rt) (covering_deletions di k)
       else covering_deletions di k)"
    by (auto simp: covering_deletions_def)
  then show ?thesis
    by (simp add: active_deletion_Max max.commute)
qed

lemma active_deletion_merge:
  "active_deletion_for (deletion_info_merge di e) k =
     max (active_deletion_for di k) (active_deletion_for e k)"
  unfolding active_deletion_Max
proof (rule Max_eqI)
  show "finite (covering_deletions (deletion_info_merge di e) k)" by simp
next
  fix d assume "d \<in> covering_deletions (deletion_info_merge di e) k"
  then have "d \<in> covering_deletions di k \<union> covering_deletions e k"
    by (auto simp: covering_deletions_def max_def)
  then show "d \<le> max (Max (covering_deletions di k)) (Max (covering_deletions e k))"
    by (auto simp: le_max_iff_disj)
next
  have in_merge: "d \<in> covering_deletions (deletion_info_merge di e) k"
    if "d \<in> covering_deletions di k \<union> covering_deletions e k"
      "partition_deletion di \<le> d" "partition_deletion e \<le> d" for d
    using that by (auto simp: covering_deletions_def max_def)
  have pick: "max a b \<in> S \<union> T \<and> p \<le> max a b \<and> q \<le> max a b"
    if "a \<in> S" "b \<in> T" "p \<le> a" "q \<le> b" for a b p q :: deletion_time and S T
    using that by (auto simp: max_def)
  note pick [OF Max_in [OF finite_covering, of di k] Max_in [OF finite_covering, of e k]
    partition_below_Max [of di k] partition_below_Max [of e k]]
  then show "max (Max (covering_deletions di k)) (Max (covering_deletions e k))
      \<in> covering_deletions (deletion_info_merge di e) k"
    by (intro in_merge) simp_all
qed

section \<open>Liveness of a row's primary key\<close>

record liveness_info =
  li_timestamp :: i64
  li_ttl :: i32
  li_local_deletion_time :: i32

definition LIVENESS_EMPTY :: liveness_info where
  "LIVENESS_EMPTY = \<lparr>li_timestamp = NO_TIMESTAMP, li_ttl = NO_TTL,
     li_local_deletion_time = NO_DELETION_TIME\<rparr>"

definition liveness_create :: "i64 \<Rightarrow> liveness_info" where
  "liveness_create ts = \<lparr>li_timestamp = ts, li_ttl = NO_TTL,
     li_local_deletion_time = NO_DELETION_TIME\<rparr>"

definition liveness_expiring :: "i64 \<Rightarrow> i32 \<Rightarrow> i32 \<Rightarrow> liveness_info" where
  "liveness_expiring ts ttl ldt = \<lparr>li_timestamp = ts, li_ttl = ttl,
     li_local_deletion_time = ldt\<rparr>"

definition liveness_is_empty :: "liveness_info \<Rightarrow> bool" where
  "liveness_is_empty l \<longleftrightarrow> li_timestamp l = NO_TIMESTAMP"

definition liveness_is_expiring :: "liveness_info \<Rightarrow> bool" where
  "liveness_is_expiring l \<longleftrightarrow> li_ttl l \<noteq> NO_TTL"

definition liveness_is_expired :: "liveness_info \<Rightarrow> i32 \<Rightarrow> bool" where
  "liveness_is_expired l now \<longleftrightarrow> liveness_is_expiring l \<and> now \<ge> li_local_deletion_time l"

definition liveness_is_live :: "liveness_info \<Rightarrow> i32 \<Rightarrow> bool" where
  "liveness_is_live l now \<longleftrightarrow> \<not> liveness_is_empty l \<and> \<not> liveness_is_expired l now"

definition liveness_supersedes :: "liveness_info \<Rightarrow> liveness_info \<Rightarrow> bool" where
  "liveness_supersedes l other =
     (if li_timestamp l \<noteq> li_timestamp other then li_timestamp l > li_timestamp other
      else if liveness_is_expiring l \<noteq> liveness_is_expiring other then \<not> liveness_is_expiring l
      else if li_ttl l \<noteq> li_ttl other then li_ttl l > li_ttl other
      else li_local_deletion_time l > li_local_deletion_time other)"

definition liveness_merge :: "liveness_info \<Rightarrow> liveness_info \<Rightarrow> liveness_info" where
  "liveness_merge a b =
     (if liveness_is_empty a then b else if liveness_is_empty b then a
      else if liveness_supersedes a b then a else b)"

text \<open>
  The only empty liveness the code builds is the constant \<open>EMPTY\<close>; on such values the
  merge is convergent.
\<close>

definition liveness_ok :: "liveness_info \<Rightarrow> bool" where
  "liveness_ok l \<longleftrightarrow> (liveness_is_empty l \<longrightarrow> l = LIVENESS_EMPTY)"

lemma liveness_total:
  "liveness_supersedes a b \<or> a = b \<or> liveness_supersedes b a"
  by (auto simp: liveness_supersedes_def)

lemma liveness_asym: "liveness_supersedes a b \<Longrightarrow> \<not> liveness_supersedes b a"
  by (auto simp: liveness_supersedes_def split: if_splits)

lemma liveness_trans:
  "liveness_supersedes a b \<Longrightarrow> liveness_supersedes b c \<Longrightarrow> liveness_supersedes a c"
  "\<not> liveness_supersedes a b \<Longrightarrow> \<not> liveness_supersedes b c \<Longrightarrow> \<not> liveness_supersedes a c"
  by (auto simp: liveness_supersedes_def split: if_splits)

interpretation liveness: convergent liveness_ok liveness_merge
proof
  fix x y z :: liveness_info
  assume x: "liveness_ok x" and y: "liveness_ok y"
  then show "liveness_ok (liveness_merge x y)" by (simp add: liveness_merge_def)
  show "liveness_merge x x = x" by (simp add: liveness_merge_def)
  show "liveness_merge x y = liveness_merge y x"
    using x y liveness_total [of x y] liveness_asym [of x y]
    by (auto simp: liveness_merge_def liveness_ok_def)
  show "liveness_merge (liveness_merge x y) z = liveness_merge x (liveness_merge y z)"
    using liveness_trans [of x y z] by (auto simp: liveness_merge_def)
qed

end
