(* ===== verification/Rows.thy ===== *)
theory Rows
  imports Tombstones
begin

text \<open>
  The row model of \<open>cassandra-storage/src/rows\<close>: \<open>cell.rs\<close> (\<open>CellData\<close>),
  \<open>complex_column.rs\<close> (\<open>ComplexColumnData\<close>, the cells of a collection keyed by path)
  and \<open>unfiltered.rs\<close> (\<open>ColumnData\<close>, \<open>RowData\<close>, the unfiltered stream's items).
  Rows are merged column by column with last-write-wins on cells and read through an
  enclosing deletion.

  The lemmas: merging is convergent on rows whose cells come from one history of writes
  (\<open>row_written\<close>: at one column and path a timestamp and a tombstone flag determine the
  cell), so replicas that saw the same rows in any order hold the same row; what a read
  returns is exactly the cells that are live and not covered by a deletion; and a merge
  never makes visible a cell that one of the two rows had deleted.
\<close>

section \<open>Cells\<close>

type_synonym cell_path = bytes

record cell_data =
  cd_column :: string
  cd_value :: "bytes option"
  cd_timestamp :: i64
  cd_ttl :: i32
  cd_local_deletion_time :: i32
  cd_path :: "cell_path option"

definition cell_is_tombstone :: "cell_data \<Rightarrow> bool" where
  "cell_is_tombstone c \<longleftrightarrow> cd_value c = None \<and> cd_local_deletion_time c \<noteq> i32_max"

definition cell_is_expiring :: "cell_data \<Rightarrow> bool" where
  "cell_is_expiring c \<longleftrightarrow> cd_ttl c \<noteq> NO_TTL"

definition cell_is_live :: "cell_data \<Rightarrow> i32 \<Rightarrow> bool" where
  "cell_is_live c now =
     (if cell_is_tombstone c then False
      else if cell_is_expiring c then now < cd_local_deletion_time c
      else True)"

definition cell_deletion_time :: "cell_data \<Rightarrow> deletion_time" where
  "cell_deletion_time c =
     (if cell_is_tombstone c then DeletionTime (cd_timestamp c) (cd_local_deletion_time c)
      else DELETION_LIVE)"

definition cell_merge_with :: "cell_data \<Rightarrow> cell_data \<Rightarrow> cell_data" where
  "cell_merge_with c other =
     (if cd_timestamp other > cd_timestamp c then other
      else if cd_timestamp other = cd_timestamp c \<and> cell_is_tombstone other
              \<and> \<not> cell_is_tombstone c then other
      else c)"

section \<open>Complex columns\<close>

record complex_column =
  cc_column :: string
  complex_deletion :: deletion_time
  cc_cells :: "(cell_path, cell_data) btree_map"

definition complex_new :: "string \<Rightarrow> complex_column" where
  "complex_new column = \<lparr>cc_column = column, complex_deletion = DELETION_LIVE, cc_cells = []\<rparr>"

definition complex_with_deletion :: "string \<Rightarrow> deletion_time \<Rightarrow> complex_column" where
  "complex_with_deletion column d = \<lparr>cc_column = column, complex_deletion = d, cc_cells = []\<rparr>"

text \<open>\<open>None\<close> is the panic of \<open>expect\<close> on a cell without a path.\<close>

definition complex_add_cell :: "cell_data \<Rightarrow> complex_column \<Rightarrow> complex_column option" where
  "complex_add_cell c cc =
     (case cd_path c of
        None \<Rightarrow> None
      | Some path \<Rightarrow> Some (cc\<lparr>cc_cells := bt_upsert cell_merge_with path c (cc_cells cc)\<rparr>))"

definition live_cells_after :: "i32 \<Rightarrow> deletion_time \<Rightarrow> complex_column \<Rightarrow> cell_data list" where
  "live_cells_after now enclosing cc =
     filter (\<lambda>c.
       if \<not> cell_is_live c now then False
       else if \<not> deletion_is_live (complex_deletion cc) \<and>
               cd_timestamp c \<le> marked_for_delete_at (complex_deletion cc) then False
       else if \<not> deletion_is_live enclosing \<and>
               cd_timestamp c \<le> marked_for_delete_at enclosing then False
       else True) (bt_values (cc_cells cc))"

definition live_cells :: "i32 \<Rightarrow> complex_column \<Rightarrow> cell_data list" where
  "live_cells now cc = live_cells_after now DELETION_LIVE cc"

definition is_empty_at :: "i32 \<Rightarrow> complex_column \<Rightarrow> bool" where
  "is_empty_at now cc \<longleftrightarrow> live_cells now cc = []"

definition is_empty_after :: "i32 \<Rightarrow> deletion_time \<Rightarrow> complex_column \<Rightarrow> bool" where
  "is_empty_after now enclosing cc \<longleftrightarrow> live_cells_after now enclosing cc = []"

definition retain_live_cells_after :: "i32 \<Rightarrow> deletion_time \<Rightarrow> complex_column \<Rightarrow> complex_column" where
  "retain_live_cells_after now enclosing cc =
     cc\<lparr>cc_cells := bt_retain (\<lambda>_ c.
       cell_is_live c now \<and>
       (deletion_is_live (complex_deletion cc) \<or>
        cd_timestamp c > marked_for_delete_at (complex_deletion cc)) \<and>
       (deletion_is_live enclosing \<or> cd_timestamp c > marked_for_delete_at enclosing))
       (cc_cells cc)\<rparr>"

definition complex_merge_with :: "complex_column \<Rightarrow> complex_column \<Rightarrow> complex_column" where
  "complex_merge_with cc other =
     (let cc = (if supersedes (complex_deletion other) (complex_deletion cc)
                then cc\<lparr>complex_deletion := complex_deletion other\<rparr> else cc)
      in cc\<lparr>cc_cells := bt_merge cell_merge_with (cc_cells cc) (cc_cells other)\<rparr>)"

section \<open>Rows\<close>

datatype column_data = Simple cell_data | Complex complex_column

record row_data =
  clustering_key :: bytes
  row_liveness :: liveness_info
  row_deletion :: deletion_time
  columns :: "(string, column_data) btree_map"
  is_static :: bool

definition row_new :: "bytes \<Rightarrow> row_data" where
  "row_new ck = \<lparr>clustering_key = ck, row_liveness = LIVENESS_EMPTY,
     row_deletion = DELETION_LIVE, columns = [], is_static = False\<rparr>"

definition row_new_static :: row_data where
  "row_new_static = \<lparr>clustering_key = [], row_liveness = LIVENESS_EMPTY,
     row_deletion = DELETION_LIVE, columns = [], is_static = True\<rparr>"

definition row_timestamp_survives :: "i64 \<Rightarrow> deletion_time \<Rightarrow> bool" where
  "row_timestamp_survives ts d \<longleftrightarrow> deletion_is_live d \<or> ts > marked_for_delete_at d"

definition has_live_data_after :: "i32 \<Rightarrow> deletion_time \<Rightarrow> row_data \<Rightarrow> bool" where
  "has_live_data_after now enclosing r =
     (let active = (if supersedes enclosing (row_deletion r) then enclosing else row_deletion r)
      in if liveness_is_live (row_liveness r) now \<and>
            row_timestamp_survives (li_timestamp (row_liveness r)) active
         then True
         else list_ex (\<lambda>cd. case cd of
                Simple c \<Rightarrow> cell_is_live c now \<and> row_timestamp_survives (cd_timestamp c) active
              | Complex cc \<Rightarrow> \<not> is_empty_after now active cc) (bt_values (columns r)))"

definition has_live_data :: "i32 \<Rightarrow> row_data \<Rightarrow> bool" where
  "has_live_data now r = has_live_data_after now DELETION_LIVE r"

definition is_shadowed_by :: "i32 \<Rightarrow> deletion_time \<Rightarrow> row_data \<Rightarrow> bool" where
  "is_shadowed_by now d r \<longleftrightarrow> \<not> has_live_data_after now d r"

definition apply_deletion :: "deletion_time \<Rightarrow> row_data \<Rightarrow> row_data" where
  "apply_deletion d r = (if supersedes d (row_deletion r) then r\<lparr>row_deletion := d\<rparr> else r)"

text \<open>
  The closure of \<open>live_data_after\<close> first prunes a complex column in place and then keeps
  it when cells remain; \<open>retain_column\<close> is that closure, with the pruned column.
\<close>

fun retain_column :: "i32 \<Rightarrow> deletion_time \<Rightarrow> column_data \<Rightarrow> column_data option" where
  "retain_column now active (Simple c) =
     (if cell_is_live c now \<and> row_timestamp_survives (cd_timestamp c) active
      then Some (Simple c) else None)"
| "retain_column now active (Complex cc) =
     (let cc' = retain_live_cells_after now active cc
      in if cc_cells cc' \<noteq> [] then Some (Complex cc') else None)"

definition live_data_after :: "i32 \<Rightarrow> deletion_time \<Rightarrow> row_data \<Rightarrow> row_data option" where
  "live_data_after now enclosing r =
     (let active = (if supersedes enclosing (row_deletion r) then enclosing else row_deletion r);
          row = (if \<not> row_timestamp_survives (li_timestamp (row_liveness r)) active
                 then r\<lparr>row_liveness := LIVENESS_EMPTY\<rparr> else r);
          row = row\<lparr>columns := List.map_filter
                  (\<lambda>(name, cd). map_option (Pair name) (retain_column now active cd)) (columns row)\<rparr>
      in if has_live_data_after now active row then Some row else None)"

definition add_cell :: "cell_data \<Rightarrow> row_data \<Rightarrow> row_data" where
  "add_cell c r =
     r\<lparr>columns := bt_upsert (\<lambda>existing _. case existing of
          Simple e \<Rightarrow> Simple (cell_merge_with e c)
        | Complex cc \<Rightarrow> Complex cc) (cd_column c) (Simple c) (columns r)\<rparr>"

definition add_complex_column :: "complex_column \<Rightarrow> row_data \<Rightarrow> row_data" where
  "add_complex_column cc r =
     r\<lparr>columns := bt_upsert (\<lambda>existing _. case existing of
          Simple e \<Rightarrow> Simple e
        | Complex e \<Rightarrow> Complex (complex_merge_with e cc)) (cc_column cc) (Complex cc) (columns r)\<rparr>"

fun merge_column :: "column_data \<Rightarrow> column_data \<Rightarrow> column_data" where
  "merge_column (Simple e) (Simple c) = Simple (cell_merge_with e c)"
| "merge_column (Complex e) (Simple c) = Complex e"
| "merge_column (Complex e) (Complex cc) = Complex (complex_merge_with e cc)"
| "merge_column (Simple e) (Complex cc) = Simple e"

definition row_merge_with :: "row_data \<Rightarrow> row_data \<Rightarrow> row_data" where
  "row_merge_with r other =
     (let r = r\<lparr>row_liveness := liveness_merge (row_liveness r) (row_liveness other)\<rparr>;
          r = (if supersedes (row_deletion other) (row_deletion r)
               then r\<lparr>row_deletion := row_deletion other\<rparr> else r)
      in r\<lparr>columns := bt_merge merge_column (columns r) (columns other)\<rparr>)"

section \<open>Convergence\<close>

text \<open>
  A history of writes fixes the cell that a write at a timestamp left at a place: a value
  or a tombstone.  Rows whose cells agree with one history have no two different values
  written with the same timestamp.
\<close>

type_synonym write_history = "i64 \<Rightarrow> bool \<Rightarrow> cell_data"

datatype column_history = SimpleHistory write_history | ComplexHistory "cell_path \<Rightarrow> write_history"

definition cell_written :: "write_history \<Rightarrow> cell_data \<Rightarrow> bool" where
  "cell_written W c \<longleftrightarrow> W (cd_timestamp c) (cell_is_tombstone c) = c"

definition cells_written :: "(cell_path \<Rightarrow> write_history) \<Rightarrow> (cell_path, cell_data) btree_map \<Rightarrow> bool" where
  "cells_written W m \<longleftrightarrow> bt_ok m \<and> (\<forall>p c. map_of m p = Some c \<longrightarrow> cell_written (W p) c)"

definition complex_written :: "string \<Rightarrow> (cell_path \<Rightarrow> write_history) \<Rightarrow> complex_column \<Rightarrow> bool" where
  "complex_written name W cc \<longleftrightarrow> cc_column cc = name \<and> cells_written W (cc_cells cc)"

fun column_written :: "string \<Rightarrow> column_history \<Rightarrow> column_data \<Rightarrow> bool" where
  "column_written name (SimpleHistory W) (Simple c) = cell_written W c"
| "column_written name (ComplexHistory W) (Complex cc) = complex_written name W cc"
| "column_written name _ _ = False"

definition columns_written ::
  "(string \<Rightarrow> column_history) \<Rightarrow> (string, column_data) btree_map \<Rightarrow> bool" where
  "columns_written W m \<longleftrightarrow>
     bt_ok m \<and> (\<forall>n cd. map_of m n = Some cd \<longrightarrow> column_written n (W n) cd)"

definition row_written :: "bytes \<Rightarrow> bool \<Rightarrow> (string \<Rightarrow> column_history) \<Rightarrow> row_data \<Rightarrow> bool" where
  "row_written k st W r \<longleftrightarrow> clustering_key r = k \<and> is_static r = st \<and>
     liveness_ok (row_liveness r) \<and> columns_written W (columns r)"

lemma cell_convergent: "convergent (cell_written W) cell_merge_with"
proof
  fix x y z
  assume x: "cell_written W x" and y: "cell_written W y"
  show "cell_written W (cell_merge_with x y)" using x y by (simp add: cell_merge_with_def)
  show "cell_merge_with x x = x" by (simp add: cell_merge_with_def)
  have "x = y" if eq: "cd_timestamp x = cd_timestamp y" "cell_is_tombstone x = cell_is_tombstone y"
  proof -
    have "x = W (cd_timestamp x) (cell_is_tombstone x)" using x by (simp add: cell_written_def)
    also have "\<dots> = W (cd_timestamp y) (cell_is_tombstone y)" by (simp only: eq)
    also have "\<dots> = y" using y by (simp add: cell_written_def)
    finally show ?thesis .
  qed
  then show "cell_merge_with x y = cell_merge_with y x"
    unfolding cell_merge_with_def by (cases "cd_timestamp x" "cd_timestamp y" rule: linorder_cases) auto
next
  fix x y z
  show "cell_merge_with (cell_merge_with x y) z = cell_merge_with x (cell_merge_with y z)"
    by (auto simp: cell_merge_with_def)
qed

lemma complex_merge_simps [simp]:
  "cc_column (complex_merge_with a b) = cc_column a"
  "complex_deletion (complex_merge_with a b) = max (complex_deletion a) (complex_deletion b)"
  "cc_cells (complex_merge_with a b) = bt_merge cell_merge_with (cc_cells a) (cc_cells b)"
  by (auto simp: complex_merge_with_def Let_def supersedes_iff max_def)

lemma row_merge_simps [simp]:
  "clustering_key (row_merge_with a b) = clustering_key a"
  "is_static (row_merge_with a b) = is_static a"
  "row_liveness (row_merge_with a b) = liveness_merge (row_liveness a) (row_liveness b)"
  "row_deletion (row_merge_with a b) = max (row_deletion a) (row_deletion b)"
  "columns (row_merge_with a b) = bt_merge merge_column (columns a) (columns b)"
  by (auto simp: row_merge_with_def Let_def supersedes_iff max_def)

lemma complex_convergent: "convergent (complex_written name W) complex_merge_with"
proof -
  have cells: "convergent (cells_written W) (bt_merge cell_merge_with)"
    unfolding cells_written_def by (rule convergent_bt_merge) (rule cell_convergent)
  note laws = convergent.closed [OF cells] convergent.idem [OF cells]
    convergent.comm [OF cells] convergent.assoc [OF cells]
  show ?thesis
    by unfold_locales
      (auto simp: complex_written_def laws(1,2,4) max.assoc intro!: complex_column.equality
        intro: laws(3) max.commute)
qed

lemma column_convergent: "convergent (column_written name H) merge_column"
proof (cases H)
  case (SimpleHistory W)
  note laws = convergent.closed [OF cell_convergent] convergent.idem [OF cell_convergent]
    convergent.comm [OF cell_convergent] convergent.assoc [OF cell_convergent]
  have shape: "column_written name (SimpleHistory W) cd \<longleftrightarrow> (\<exists>c. cd = Simple c \<and> cell_written W c)" for cd
    by (cases cd) auto
  show ?thesis
    unfolding SimpleHistory by unfold_locales (use laws in \<open>auto simp: shape\<close>)
next
  case (ComplexHistory W)
  note laws = convergent.closed [OF complex_convergent] convergent.idem [OF complex_convergent]
    convergent.comm [OF complex_convergent] convergent.assoc [OF complex_convergent]
  have shape: "column_written name (ComplexHistory W) cd \<longleftrightarrow>
      (\<exists>c. cd = Complex c \<and> complex_written name W c)" for cd
    by (cases cd) auto
  show ?thesis
    unfolding ComplexHistory by unfold_locales (use laws in \<open>auto simp: shape\<close>)
qed

lemma row_convergent: "convergent (row_written k st W) row_merge_with"
proof -
  have cols: "convergent (columns_written W) (bt_merge merge_column)"
    unfolding columns_written_def by (rule convergent_bt_merge) (rule column_convergent)
  note laws = convergent.closed [OF cols] convergent.idem [OF cols]
    convergent.comm [OF cols] convergent.assoc [OF cols]
  note lv = liveness.closed liveness.idem liveness.comm liveness.assoc
  show ?thesis
    by unfold_locales
      (auto simp: row_written_def laws(1,2,4) lv(1,2,4) max.assoc intro!: row_data.equality
        intro: laws(3) lv(3) max.commute)
qed

interpretation rows: convergent "row_written k st W" row_merge_with
  for k :: bytes and st :: bool and W :: "string \<Rightarrow> column_history"
  by (rule row_convergent)

section \<open>Reading a row\<close>

text \<open>
  The specification of a read: the cells of a row that are live now and newer than the
  column's, the row's and the enclosing deletion.
\<close>

fun column_visible :: "i32 \<Rightarrow> deletion_time \<Rightarrow> column_data \<Rightarrow> cell_data set" where
  "column_visible now d (Simple c) =
     {x. x = c \<and> cell_is_live c now \<and> row_timestamp_survives (cd_timestamp c) d}"
| "column_visible now d (Complex cc) =
     {c \<in> set (bt_values (cc_cells cc)). cell_is_live c now \<and>
        row_timestamp_survives (cd_timestamp c) (complex_deletion cc) \<and>
        row_timestamp_survives (cd_timestamp c) d}"

definition visible_cells :: "i32 \<Rightarrow> deletion_time \<Rightarrow> row_data \<Rightarrow> (string \<times> cell_data) set" where
  "visible_cells now d r =
     {(n, c). \<exists>cd. map_of (columns r) n = Some cd \<and>
        c \<in> column_visible now (max (row_deletion r) d) cd}"

definition visible_liveness :: "i32 \<Rightarrow> deletion_time \<Rightarrow> row_data \<Rightarrow> bool" where
  "visible_liveness now d r \<longleftrightarrow> liveness_is_live (row_liveness r) now \<and>
     row_timestamp_survives (li_timestamp (row_liveness r)) (max (row_deletion r) d)"

text \<open>All cells of a row, whether visible or not.\<close>

fun column_cells :: "column_data \<Rightarrow> cell_data set" where
  "column_cells (Simple c) = {c}"
| "column_cells (Complex cc) = set (bt_values (cc_cells cc))"

definition row_cells :: "row_data \<Rightarrow> (string \<times> cell_data) set" where
  "row_cells r = {(n, c). \<exists>cd. map_of (columns r) n = Some cd \<and> c \<in> column_cells cd}"

fun column_wf :: "column_data \<Rightarrow> bool" where
  "column_wf (Simple c) = True"
| "column_wf (Complex cc) = (bt_ok (cc_cells cc) \<and> DELETION_LIVE \<le> complex_deletion cc)"

definition row_wf :: "row_data \<Rightarrow> bool" where
  "row_wf r \<longleftrightarrow> bt_ok (columns r) \<and> DELETION_LIVE \<le> row_deletion r \<and>
     bt_all (\<lambda>_. column_wf) (columns r)"

lemma live_cells_after_visible: "set (live_cells_after now d cc) = column_visible now d (Complex cc)"
  by (auto simp: live_cells_after_def row_timestamp_survives_def)

lemma retain_live_cells_visible:
  "set (bt_values (cc_cells (retain_live_cells_after now d cc))) = column_visible now d (Complex cc)"
  by (auto simp: retain_live_cells_after_def bt_retain_def row_timestamp_survives_def image_iff)

lemma map_of_values: "distinct (bt_keys m) \<Longrightarrow> v \<in> set (bt_values m) \<longleftrightarrow> (\<exists>k. map_of m k = Some v)"
  by (simp add: map_of_eq_Some_iff) force

lemma live_cells_empty:
  "live_cells_after now d cc = [] \<longleftrightarrow> column_visible now d (Complex cc) = {}"
  "cc_cells (retain_live_cells_after now d cc) = [] \<longleftrightarrow> column_visible now d (Complex cc) = {}"
  by (simp_all only: set_empty [symmetric] live_cells_after_visible
      retain_live_cells_visible [symmetric]) simp

lemma has_live_data_spec:
  assumes "bt_ok (columns r)"
  shows "has_live_data_after now d r \<longleftrightarrow> visible_liveness now d r \<or> visible_cells now d r \<noteq> {}"
proof -
  have col: "(case cd of Simple c \<Rightarrow> cell_is_live c now \<and> row_timestamp_survives (cd_timestamp c) a
      | Complex cc \<Rightarrow> \<not> is_empty_after now a cc) \<longleftrightarrow> column_visible now a cd \<noteq> {}" for cd a
    by (cases cd) (auto simp: is_empty_after_def live_cells_empty simp del: column_visible.simps(2))
  have "(\<exists>cd \<in> set (bt_values (columns r)). column_visible now a cd \<noteq> {}) \<longleftrightarrow>
      {(n, c). \<exists>cd. map_of (columns r) n = Some cd \<and> c \<in> column_visible now a cd} \<noteq> {}" for a
    by (simp only: map_of_values [OF bt_ok_distinct [OF assms]] Bex_def) auto
  note spec = this
  show ?thesis
    unfolding has_live_data_after_def Let_def supersedes_max col list_ex_iff visible_cells_def
      visible_liveness_def spec by (simp only: split: if_split) blast
qed

lemma map_of_map_filter:
  "distinct (bt_keys m) \<Longrightarrow>
   map_of (List.map_filter (\<lambda>(n, v). map_option (Pair n) (f v)) m) k = Option.bind (map_of m k) f"
proof (induction m)
  case (Cons e m)
  have "map_of (List.map_filter (\<lambda>(n, v). map_option (Pair n) (f v)) m) (fst e) = None"
    using Cons.prems
    by (auto simp: map_of_eq_None_iff List.map_filter_def split: option.splits)
      (metis fst_conv image_eqI)
  with Cons show ?case
    by (cases e) (auto simp: List.map_filter_simps split: option.splits)
qed (simp add: List.map_filter_simps)

lemma bt_ok_map_filter:
  "bt_ok m \<Longrightarrow> bt_ok (List.map_filter (\<lambda>(n, v). map_option (Pair n) (f v)) m)"
proof (induction m)
  case (Cons e m)
  have "set (bt_keys (List.map_filter (\<lambda>(n, v). map_option (Pair n) (f v)) m)) \<subseteq> set (bt_keys m)"
    by (auto simp: List.map_filter_def image_iff split: option.splits) force
  with Cons show ?case
    by (cases e) (fastforce simp: List.map_filter_simps bt_ok_Cons split: option.splits)
qed (simp add: List.map_filter_simps)

lemma retain_column_cells:
  "retain_column now d cd = None \<longleftrightarrow> column_visible now d cd = {}"
  "retain_column now d cd = Some cd' \<Longrightarrow> column_cells cd' = column_visible now d cd"
  "retain_column now d cd = Some cd' \<Longrightarrow> column_visible now d cd' = column_visible now d cd"
proof -
  have same: "complex_deletion (retain_live_cells_after now d cc) = complex_deletion cc" for cc
    by (simp add: retain_live_cells_after_def)
  show "retain_column now d cd = None \<longleftrightarrow> column_visible now d cd = {}"
    by (cases cd) (auto simp: Let_def live_cells_empty simp del: column_visible.simps(2))
  show "column_cells cd' = column_visible now d cd" if "retain_column now d cd = Some cd'"
    using that retain_live_cells_visible [of now d]
    by (cases cd) (auto simp: Let_def simp del: column_visible.simps(2) split: if_splits)
  show "column_visible now d cd' = column_visible now d cd" if "retain_column now d cd = Some cd'"
    using that retain_live_cells_visible [of now d]
    by (cases cd) (auto simp: Let_def same split: if_splits, force)
qed

lemma retain_bind:
  "(\<exists>cd'. Option.bind x (retain_column now d) = Some cd' \<and> c \<in> column_cells cd') \<longleftrightarrow>
     (\<exists>cd. x = Some cd \<and> c \<in> column_visible now d cd)"
  "(\<exists>cd'. Option.bind x (retain_column now d) = Some cd' \<and> c \<in> column_visible now d cd') \<longleftrightarrow>
     (\<exists>cd. x = Some cd \<and> c \<in> column_visible now d cd)"
proof -
  have "(\<exists>cd'. retain_column now d cd = Some cd' \<and> c \<in> column_cells cd') \<longleftrightarrow> c \<in> column_visible now d cd"
    "(\<exists>cd'. retain_column now d cd = Some cd' \<and> c \<in> column_visible now d cd')
      \<longleftrightarrow> c \<in> column_visible now d cd" for cd
    using retain_column_cells [of now d cd] by (cases "retain_column now d cd"; simp)+
  then show "(\<exists>cd'. Option.bind x (retain_column now d) = Some cd' \<and> c \<in> column_cells cd') \<longleftrightarrow>
     (\<exists>cd. x = Some cd \<and> c \<in> column_visible now d cd)"
    "(\<exists>cd'. Option.bind x (retain_column now d) = Some cd' \<and> c \<in> column_visible now d cd') \<longleftrightarrow>
     (\<exists>cd. x = Some cd \<and> c \<in> column_visible now d cd)"
    by (cases x; simp)+
qed

lemma live_data_after_unfold:
  "live_data_after now d r =
     (let a = max (row_deletion r) d;
          row = r\<lparr>row_liveness := (if row_timestamp_survives (li_timestamp (row_liveness r)) a
                                 then row_liveness r else LIVENESS_EMPTY),
                  columns := List.map_filter
                    (\<lambda>(name, cd). map_option (Pair name) (retain_column now a cd)) (columns r)\<rparr>
      in if has_live_data_after now a row then Some row else None)"
  unfolding live_data_after_def Let_def supersedes_max by simp

lemma liveness_empty_not_live [simp]: "\<not> liveness_is_live LIVENESS_EMPTY now"
  by (simp add: liveness_is_live_def liveness_is_empty_def LIVENESS_EMPTY_def)

text \<open>
  C30. What a read keeps of a row: \<open>live_data_after\<close> returns nothing exactly when the row
  has no live data under the enclosing deletion (which is when it has neither a visible
  primary-key liveness nor a visible cell), and otherwise returns a row whose cells are
  exactly the visible cells of the original, with the same clustering key and deletion, and
  a primary-key liveness that is visible exactly when the original's was.
\<close>

theorem live_data_after_exact:
  assumes "bt_ok (columns r)"
  shows "case live_data_after now d r of
      None \<Rightarrow> \<not> has_live_data_after now d r \<and> \<not> visible_liveness now d r \<and> visible_cells now d r = {}
    | Some r' \<Rightarrow> has_live_data_after now d r \<and> row_cells r' = visible_cells now d r \<and>
        bt_ok (columns r') \<and>
        clustering_key r' = clustering_key r \<and> row_deletion r' = row_deletion r \<and>
        (visible_liveness now d r' \<longleftrightarrow> visible_liveness now d r)"
proof -
  define a where "a = max (row_deletion r) d"
  define row where "row = r\<lparr>row_liveness :=
        (if row_timestamp_survives (li_timestamp (row_liveness r)) a then row_liveness r
         else LIVENESS_EMPTY),
      columns := List.map_filter
        (\<lambda>(name, cd). map_option (Pair name) (retain_column now a cd)) (columns r)\<rparr>"
  have cols: "map_of (columns row) n = Option.bind (map_of (columns r) n) (retain_column now a)" for n
    unfolding row_def by (simp add: map_of_map_filter bt_ok_distinct [OF assms])
  have ok: "bt_ok (columns row)"
    unfolding row_def using bt_ok_map_filter [OF assms] by simp
  have same: "clustering_key row = clustering_key r" "row_deletion row = row_deletion r"
    "max (row_deletion row) a = a" "max (row_deletion row) d = a"
    by (simp_all add: row_def a_def)
  have cells: "row_cells row = visible_cells now d r"
    unfolding row_cells_def visible_cells_def cols a_def [symmetric] retain_bind ..
  have vis: "visible_cells now a row = visible_cells now d r"
    unfolding visible_cells_def cols same(3) a_def [symmetric] retain_bind ..
  have live: "visible_liveness now a row \<longleftrightarrow> visible_liveness now d r"
    "visible_liveness now d row \<longleftrightarrow> visible_liveness now d r"
    unfolding visible_liveness_def same(3,4) a_def [symmetric] by (auto simp: row_def)
  have "live_data_after now d r = (if has_live_data_after now a row then Some row else None)"
    unfolding live_data_after_unfold Let_def a_def row_def ..
  then show ?thesis
    using has_live_data_spec [OF ok, of now a] has_live_data_spec [OF assms, of now d]
      ok same cells vis live by auto
qed

definition sample_cell :: "i64 \<Rightarrow> bool \<Rightarrow> cell_data" where
  "sample_cell ts dead = \<lparr>cd_column = ''v'', cd_value = (if dead then None else Some [1, 2]),
     cd_timestamp = ts, cd_ttl = 0, cd_local_deletion_time = (if dead then 100 else i32_max),
     cd_path = None\<rparr>"

definition sample_row :: "i64 \<Rightarrow> bool \<Rightarrow> deletion_time \<Rightarrow> row_data" where
  "sample_row ts dead d = \<lparr>clustering_key = [7], row_liveness = LIVENESS_EMPTY, row_deletion = d,
     columns = [(''v'', Simple (sample_cell ts dead))], is_static = False\<rparr>"

lemmas sample_defs = sample_cell_def sample_row_def cell_is_tombstone_def cell_is_expiring_def
  cell_is_live_def row_timestamp_survives_def deletion_is_live_def DELETION_LIVE_def
  sentinel_defs

theorem live_data_after_exact_witness:
  "\<exists>r'. live_data_after 50 (DeletionTime 5 3) (sample_row 9 False DELETION_LIVE) = Some r' \<and>
     row_cells r' = {(''v'', sample_cell 9 False)}"
proof -
  let ?r = "sample_row 9 False DELETION_LIVE"
  have ok: "bt_ok (columns ?r)" by (simp add: sample_row_def bt_ok_def)
  have vis: "visible_cells 50 (DeletionTime 5 3) ?r = {(''v'', sample_cell 9 False)}"
    by (auto simp: visible_cells_def sample_defs max_def less_eq_deletion_time_def split: if_splits)
  show ?thesis
    using live_data_after_exact [OF ok, of 50 "DeletionTime 5 3"] vis
    by (auto split: option.splits)
qed

section \<open>Deleted data stays deleted\<close>

lemma survives_antimono:
  assumes "DELETION_LIVE \<le> d" "d \<le> e" "row_timestamp_survives ts e"
  shows "row_timestamp_survives ts d"
  using assms marked_mono [OF assms(2)]
  by (auto simp: row_timestamp_survives_def deletion_is_live_iff)

lemma cell_merge_choice: "cell_merge_with a b = a \<or> cell_merge_with a b = b"
  by (simp add: cell_merge_with_def)

lemma bt_merge_values:
  assumes "bt_ok a" "bt_ok b" "\<And>x y. f x y = x \<or> f x y = y" "v \<in> set (bt_values (bt_merge f a b))"
  shows "v \<in> set (bt_values a) \<union> set (bt_values b)"
proof -
  obtain k where "map_of (bt_merge f a b) k = Some v"
    using assms(4) map_of_values [OF bt_ok_distinct [OF bt_ok_merge [OF assms(1)]]] by auto
  then have "map_of a k = Some v \<or> map_of b k = Some v"
    unfolding get_bt_merge [OF bt_ok_distinct [OF assms(2)]]
    using assms(3) by (auto split: option.splits) metis
  then show ?thesis
    using map_of_values [OF bt_ok_distinct [OF assms(1)]] map_of_values [OF bt_ok_distinct [OF assms(2)]]
    by blast
qed

lemma column_merge_visible:
  assumes "column_wf e" "column_wf f" "c \<in> column_visible now d (merge_column e f)"
  shows "c \<in> column_visible now d e \<union> column_visible now d f"
  using assms
proof (induction e f rule: merge_column.induct)
  case (1 e c)
  then show ?case using cell_merge_choice [of e c] by auto
next
  case (3 e cc)
  then have "c \<in> set (bt_values (cc_cells e)) \<union> set (bt_values (cc_cells cc))"
    by (intro bt_merge_values [where f = cell_merge_with] cell_merge_choice) auto
  moreover have "row_timestamp_survives (cd_timestamp c) (complex_deletion e)"
    "row_timestamp_survives (cd_timestamp c) (complex_deletion cc)"
    using 3 survives_antimono [OF _ max.cobounded1] survives_antimono [OF _ max.cobounded2] by auto
  ultimately show ?case using 3 by auto
qed auto

lemma merge_visible:
  assumes "row_wf a" "row_wf b" "(n, c) \<in> visible_cells now d (row_merge_with a b)"
  shows "(n, c) \<in> visible_cells now (max d (row_deletion b)) a \<or>
         (n, c) \<in> visible_cells now (max d (row_deletion a)) b"
proof -
  let ?m = "max (max (row_deletion a) (row_deletion b)) d"
  have ok: "bt_ok (columns a)" "bt_ok (columns b)"
    and wf: "\<And>cd. map_of (columns a) n = Some cd \<Longrightarrow> column_wf cd"
      "\<And>cd. map_of (columns b) n = Some cd \<Longrightarrow> column_wf cd"
    using assms(1,2) by (auto simp: row_wf_def dest: bt_all_get)
  from assms(3) obtain cd where cd: "map_of (bt_merge merge_column (columns a) (columns b)) n = Some cd"
    and c: "c \<in> column_visible now ?m cd"
    by (auto simp: visible_cells_def)
  consider e where "map_of (columns a) n = Some e" "c \<in> column_visible now ?m e"
    | f where "map_of (columns b) n = Some f" "c \<in> column_visible now ?m f"
    using cd c wf column_merge_visible [of _ _ c now ?m]
    unfolding get_bt_merge [OF bt_ok_distinct [OF ok(2)]] by (auto split: option.splits)
  then show ?thesis
    by cases (auto simp: visible_cells_def ac_simps)
qed

text \<open>
  C10. Deleted data stays deleted: a cell visible in a merged row, under any enclosing
  deletion, comes from one of the two rows and was visible there already, and it also
  survives the other row's deletion.  Merging a row that misses a tombstone therefore never
  brings a deleted cell back.
\<close>

theorem merge_no_resurrection:
  assumes "row_wf a" "row_wf b" "(n, c) \<in> visible_cells now d (row_merge_with a b)"
  shows "(n, c) \<in> visible_cells now (max d (row_deletion b)) a \<or>
         (n, c) \<in> visible_cells now (max d (row_deletion a)) b"
  by (rule merge_visible [OF assms])

theorem merge_no_resurrection_witness:
  "(''v'', sample_cell 9 False) \<in>
     visible_cells 50 (max (DeletionTime 1 1) (row_deletion (sample_row 4 False (DeletionTime 5 3))))
       (sample_row 9 False DELETION_LIVE) \<or>
   (''v'', sample_cell 9 False) \<in>
     visible_cells 50 (max (DeletionTime 1 1) (row_deletion (sample_row 9 False DELETION_LIVE)))
       (sample_row 4 False (DeletionTime 5 3))"
  by (rule merge_no_resurrection)
    (auto simp: row_wf_def bt_ok_def visible_cells_def get_bt_merge sample_defs cell_merge_with_def
      less_eq_deletion_time_def max_def)

text \<open>
  C3. Replicas converge: folding any list of versions of a row with \<open>merge_with\<close> gives the
  same row for every order and every repetition of the versions, provided the versions come
  from one history of writes.
\<close>

theorem rows_converge:
  assumes "\<forall>r \<in> set (a # as). row_written k st W r" "set (a # as) = set (b # bs)"
  shows "foldl row_merge_with a as = foldl row_merge_with b bs"
  by (rule rows.any_order [OF assms])

theorem rows_converge_witness:
  "foldl row_merge_with (sample_row 9 False DELETION_LIVE)
      [sample_row 9 True (DeletionTime 5 3), sample_row 3 False DELETION_LIVE] =
   foldl row_merge_with (sample_row 3 False DELETION_LIVE)
      [sample_row 9 True (DeletionTime 5 3), sample_row 9 False DELETION_LIVE, sample_row 3 False DELETION_LIVE]"
  by (rule rows_converge [where k = "[7]" and st = False and W = "\<lambda>_. SimpleHistory sample_cell"])
    (auto simp: row_written_def columns_written_def cell_written_def bt_ok_def sample_defs
      liveness_ok_def split: if_splits)

text \<open>
  Without the hypothesis on the history the replicas can differ for ever: two live values
  written with one timestamp are each kept by the replica that saw it first.
\<close>

theorem cell_merge_tie_diverges:
  "\<exists>a b. cell_is_live a 0 \<and> cell_is_live b 0 \<and> cd_column a = cd_column b \<and>
     cd_timestamp a = cd_timestamp b \<and> cell_merge_with a b = a \<and> cell_merge_with b a = b \<and> a \<noteq> b"
  by (rule exI [of _ "sample_cell 5 False"], rule exI [of _ "(sample_cell 5 False)\<lparr>cd_value := Some []\<rparr>"])
    (simp add: sample_defs cell_merge_with_def)

end
