(* ===== verification/Murmur3.thy ===== *)
theory Murmur3
  imports Prelude
begin

text \<open>
  The 128-bit Murmur3 hash of \<open>cassandra-common/src/murmur3.rs\<close>, which places partition
  keys on the ring.  Arithmetic is on 64-bit words, so every \<open>wrapping_mul\<close> and
  \<open>wrapping_add\<close> is the word operation.  The code reads blocks with \<open>LittleEndian::read_u64\<close>
  of the \<open>byteorder\<close> crate, which is the argument \<open>read_u64\<close> here; that it returns the
  little-endian value of eight bytes is the hypothesis \<open>reads_little_endian\<close>.  The main
  property relates the index loop and the fifteen unrolled tail cases to a definition by
  recursion over sixteen-byte chunks with one zero-padded tail.
\<close>

definition C1 :: u64 where "C1 = 0x87c37b91114253d5"
definition C2 :: u64 where "C2 = 0x4cf5ad432745937f"

definition get_block :: "(bytes \<Rightarrow> u64) \<Rightarrow> bytes \<Rightarrow> nat \<Rightarrow> u64" where
  "get_block read_u64 data offset = read_u64 (take 8 (drop offset data))"

definition fmix64 :: "u64 \<Rightarrow> u64" where
  "fmix64 k =
     (let k = k XOR drop_bit 33 k;
          k = k * 0xff51afd7ed558ccd;
          k = k XOR drop_bit 33 k;
          k = k * 0xc4ceb9fe1a85ec53
      in k XOR drop_bit 33 k)"

text \<open>The mixing of a block half, which the code repeats in the loop and in every tail case.\<close>

definition mix_k1 :: "u64 \<Rightarrow> u64" where
  "mix_k1 k1 = word_rotl 31 (k1 * C1) * C2"

definition mix_k2 :: "u64 \<Rightarrow> u64" where
  "mix_k2 k2 = word_rotl 33 (k2 * C2) * C1"

definition murmur3_body :: "(bytes \<Rightarrow> u64) \<Rightarrow> bytes \<Rightarrow> nat \<Rightarrow> u64 \<times> u64 \<Rightarrow> u64 \<times> u64" where
  "murmur3_body read_u64 data i = (\<lambda>(h1, h2).
     let offset = i * 16;
         k1 = get_block read_u64 data offset;
         k2 = get_block read_u64 data (offset + 8);
         h1 = h1 XOR mix_k1 k1;
         h1 = word_rotl 27 h1;
         h1 = h1 + h2;
         h1 = h1 * 5 + 0x52dce729;
         h2 = h2 XOR mix_k2 k2;
         h2 = word_rotl 31 h2;
         h2 = h2 + h1;
         h2 = h2 * 5 + 0x38495ab5
     in (h1, h2))"

text \<open>
  The tail cases.  \<open>xor_bytes tail [(i, s), ...]\<close> is the sequence of statements
  \<open>k ^= (tail[i] as u64) << s\<close> starting from zero.
\<close>

definition xor_bytes :: "bytes \<Rightarrow> (nat \<times> nat) list \<Rightarrow> u64" where
  "xor_bytes tail ops = foldl (\<lambda>k (i, s). k XOR push_bit s (ucast (tail ! i))) 0 ops"

definition k1_ops :: "(nat \<times> nat) list" where
  "k1_ops = [(7, 56), (6, 48), (5, 40), (4, 32), (3, 24), (2, 16), (1, 8), (0, 0)]"

definition murmur3_tail :: "bytes \<Rightarrow> u64 \<times> u64 \<Rightarrow> u64 \<times> u64" where
  "murmur3_tail tail = (\<lambda>(h1, h2).
     if length tail = 15 then
       (h1 XOR mix_k1 (xor_bytes tail k1_ops),
        h2 XOR mix_k2 (xor_bytes tail [(14, 48), (13, 40), (12, 32), (11, 24), (10, 16), (9, 8), (8, 0)]))
     else if length tail = 14 then
       (h1 XOR mix_k1 (xor_bytes tail k1_ops),
        h2 XOR mix_k2 (xor_bytes tail [(13, 40), (12, 32), (11, 24), (10, 16), (9, 8), (8, 0)]))
     else if length tail = 13 then
       (h1 XOR mix_k1 (xor_bytes tail k1_ops),
        h2 XOR mix_k2 (xor_bytes tail [(12, 32), (11, 24), (10, 16), (9, 8), (8, 0)]))
     else if length tail = 12 then
       (h1 XOR mix_k1 (xor_bytes tail k1_ops),
        h2 XOR mix_k2 (xor_bytes tail [(11, 24), (10, 16), (9, 8), (8, 0)]))
     else if length tail = 11 then
       (h1 XOR mix_k1 (xor_bytes tail k1_ops),
        h2 XOR mix_k2 (xor_bytes tail [(10, 16), (9, 8), (8, 0)]))
     else if length tail = 10 then
       (h1 XOR mix_k1 (xor_bytes tail k1_ops),
        h2 XOR mix_k2 (xor_bytes tail [(9, 8), (8, 0)]))
     else if length tail = 9 then
       (h1 XOR mix_k1 (xor_bytes tail k1_ops),
        h2 XOR mix_k2 (xor_bytes tail [(8, 0)]))
     else if length tail = 8 then
       (h1 XOR mix_k1 (xor_bytes tail k1_ops), h2)
     else if length tail = 7 then
       (h1 XOR mix_k1 (xor_bytes tail [(6, 48), (5, 40), (4, 32), (3, 24), (2, 16), (1, 8), (0, 0)]), h2)
     else if length tail = 6 then
       (h1 XOR mix_k1 (xor_bytes tail [(5, 40), (4, 32), (3, 24), (2, 16), (1, 8), (0, 0)]), h2)
     else if length tail = 5 then
       (h1 XOR mix_k1 (xor_bytes tail [(4, 32), (3, 24), (2, 16), (1, 8), (0, 0)]), h2)
     else if length tail = 4 then
       (h1 XOR mix_k1 (xor_bytes tail [(3, 24), (2, 16), (1, 8), (0, 0)]), h2)
     else if length tail = 3 then
       (h1 XOR mix_k1 (xor_bytes tail [(2, 16), (1, 8), (0, 0)]), h2)
     else if length tail = 2 then
       (h1 XOR mix_k1 (xor_bytes tail [(1, 8), (0, 0)]), h2)
     else if length tail = 1 then
       (h1 XOR mix_k1 (xor_bytes tail [(0, 0)]), h2)
     else (h1, h2))"

definition murmur3_final :: "nat \<Rightarrow> u64 \<times> u64 \<Rightarrow> i64 \<times> i64" where
  "murmur3_final len = (\<lambda>(h1, h2).
     let h1 = h1 XOR word_of_nat len;
         h2 = h2 XOR word_of_nat len;
         h1 = h1 + h2;
         h2 = h2 + h1;
         h1 = fmix64 h1;
         h2 = fmix64 h2;
         h1 = h1 + h2;
         h2 = h2 + h1
     in (sint h1, sint h2))"

definition murmur3_128 :: "(bytes \<Rightarrow> u64) \<Rightarrow> bytes \<Rightarrow> u64 \<Rightarrow> i64 \<times> i64" where
  "murmur3_128 read_u64 data seed =
     (let len = length data;
          nblocks = len div 16;
          h = fold (murmur3_body read_u64 data) [0..<nblocks] (seed, seed);
          tail = drop (nblocks * 16) data
      in murmur3_final len (murmur3_tail tail h))"

definition murmur3_token :: "(bytes \<Rightarrow> u64) \<Rightarrow> bytes \<Rightarrow> i64" where
  "murmur3_token read_u64 data = fst (murmur3_128 read_u64 data 0)"

section \<open>The reference definition\<close>

text \<open>The little-endian value of a sequence of bytes.\<close>

primrec le_value :: "bytes \<Rightarrow> u64" where
  "le_value [] = 0"
| "le_value (b # bs) = ucast b XOR push_bit 8 (le_value bs)"

definition reads_little_endian :: "(bytes \<Rightarrow> u64) \<Rightarrow> bool" where
  "reads_little_endian read_u64 \<longleftrightarrow> (\<forall>bs. length bs = 8 \<longrightarrow> read_u64 bs = le_value bs)"

definition mix_block :: "bytes \<Rightarrow> u64 \<times> u64 \<Rightarrow> u64 \<times> u64" where
  "mix_block chunk = (\<lambda>(h1, h2).
     let h1 = (word_rotl 27 (h1 XOR mix_k1 (le_value (take 8 chunk))) + h2) * 5 + 0x52dce729;
         h2 = (word_rotl 31 (h2 XOR mix_k2 (le_value (drop 8 chunk))) + h1) * 5 + 0x38495ab5
     in (h1, h2))"

definition mix_tail :: "bytes \<Rightarrow> u64 \<times> u64 \<Rightarrow> u64 \<times> u64" where
  "mix_tail chunk = (\<lambda>(h1, h2).
     (h1 XOR mix_k1 (le_value (take 8 chunk)), h2 XOR mix_k2 (le_value (drop 8 chunk))))"

function murmur3_chunks :: "bytes \<Rightarrow> u64 \<times> u64 \<Rightarrow> u64 \<times> u64" where
  "murmur3_chunks data h =
     (if length data < 16 then mix_tail (data @ replicate (16 - length data) 0) h
      else murmur3_chunks (drop 16 data) (mix_block (take 16 data) h))"
  by pat_completeness auto
termination by (relation "measure (length \<circ> fst)") auto

declare murmur3_chunks.simps [simp del]

lemma mix_zero [simp]: "mix_k1 0 = 0" "mix_k2 0 = 0"
  by (simp_all add: mix_k1_def mix_k2_def)

lemma le_value_zeros [simp]: "le_value (replicate n 0) = 0"
  by (induction n) auto

lemma le_value_append_zeros [simp]: "le_value (bs @ replicate n 0) = le_value bs"
  by (induction bs) auto

lemma le_value_snoc: "le_value (bs @ [b]) = le_value bs XOR push_bit (8 * length bs) (ucast b)"
  by (induction bs) (simp_all add: push_bit_xor push_bit_push_bit xor.assoc)

lemma xor_bytes_Cons: "xor_bytes t ((i, s) # ops) = push_bit s (ucast (t ! i)) XOR xor_bytes t ops"
proof -
  have "foldl (\<lambda>k (i, s). k XOR push_bit s (ucast (t ! i))) (a XOR b) ops =
      a XOR foldl (\<lambda>k (i, s). k XOR push_bit s (ucast (t ! i))) b ops" for a b :: u64
    by (induction ops arbitrary: b) (auto simp: xor.assoc)
  from this [of "push_bit s (ucast (t ! i))" 0] show ?thesis
    by (simp add: xor_bytes_def)
qed

lemma xor_bytes_Nil [simp]: "xor_bytes t [] = 0"
  by (simp add: xor_bytes_def)

lemma xor_bytes_le_value:
  assumes "off + n \<le> length t"
  shows "xor_bytes t (rev (map (\<lambda>i. (off + i, 8 * i)) [0..<n])) = le_value (take n (drop off t))"
  using assms
proof (induction n)
  case (Suc n)
  then have "take (Suc n) (drop off t) = take n (drop off t) @ [t ! (off + n)]"
    by (simp add: take_Suc_conv_app_nth)
  with Suc show ?case
    by (simp add: le_value_snoc xor_bytes_Cons xor.commute)
qed simp

lemma upt_eval:
  "[0..<2::nat] = [0, 1]"
  "[0..<3::nat] = [0, 1, 2]"
  "[0..<4::nat] = [0, 1, 2, 3]"
  "[0..<5::nat] = [0, 1, 2, 3, 4]"
  "[0..<6::nat] = [0, 1, 2, 3, 4, 5]"
  "[0..<7::nat] = [0, 1, 2, 3, 4, 5, 6]"
  "[0..<8::nat] = [0, 1, 2, 3, 4, 5, 6, 7]"
  by code_simp+

lemma k1_tail: "8 \<le> length t \<Longrightarrow> xor_bytes t k1_ops = le_value (take 8 t)"
  using xor_bytes_le_value [of 0 8 t] by (simp add: k1_ops_def upt_eval)

lemma k2_tail:
  "length t = 15 \<Longrightarrow> xor_bytes t [(14, 48), (13, 40), (12, 32), (11, 24), (10, 16), (9, 8), (8, 0)] = le_value (drop 8 t)"
  "length t = 14 \<Longrightarrow> xor_bytes t [(13, 40), (12, 32), (11, 24), (10, 16), (9, 8), (8, 0)] = le_value (drop 8 t)"
  "length t = 13 \<Longrightarrow> xor_bytes t [(12, 32), (11, 24), (10, 16), (9, 8), (8, 0)] = le_value (drop 8 t)"
  "length t = 12 \<Longrightarrow> xor_bytes t [(11, 24), (10, 16), (9, 8), (8, 0)] = le_value (drop 8 t)"
  "length t = 11 \<Longrightarrow> xor_bytes t [(10, 16), (9, 8), (8, 0)] = le_value (drop 8 t)"
  "length t = 10 \<Longrightarrow> xor_bytes t [(9, 8), (8, 0)] = le_value (drop 8 t)"
  "length t = 9 \<Longrightarrow> xor_bytes t [(8, 0)] = le_value (drop 8 t)"
  using xor_bytes_le_value [of 8 7 t] xor_bytes_le_value [of 8 6 t] xor_bytes_le_value [of 8 5 t]
    xor_bytes_le_value [of 8 4 t] xor_bytes_le_value [of 8 3 t] xor_bytes_le_value [of 8 2 t]
    xor_bytes_le_value [of 8 1 t]
  by (simp_all add: upt_eval)

lemma k1_short_tail:
  "length t = 7 \<Longrightarrow> xor_bytes t [(6, 48), (5, 40), (4, 32), (3, 24), (2, 16), (1, 8), (0, 0)] = le_value t"
  "length t = 6 \<Longrightarrow> xor_bytes t [(5, 40), (4, 32), (3, 24), (2, 16), (1, 8), (0, 0)] = le_value t"
  "length t = 5 \<Longrightarrow> xor_bytes t [(4, 32), (3, 24), (2, 16), (1, 8), (0, 0)] = le_value t"
  "length t = 4 \<Longrightarrow> xor_bytes t [(3, 24), (2, 16), (1, 8), (0, 0)] = le_value t"
  "length t = 3 \<Longrightarrow> xor_bytes t [(2, 16), (1, 8), (0, 0)] = le_value t"
  "length t = 2 \<Longrightarrow> xor_bytes t [(1, 8), (0, 0)] = le_value t"
  "length t = 1 \<Longrightarrow> xor_bytes t [(0, 0)] = le_value t"
  using xor_bytes_le_value [of 0 7 t] xor_bytes_le_value [of 0 6 t] xor_bytes_le_value [of 0 5 t]
    xor_bytes_le_value [of 0 4 t] xor_bytes_le_value [of 0 3 t] xor_bytes_le_value [of 0 2 t]
    xor_bytes_le_value [of 0 1 t]
  by (simp_all add: upt_eval)

lemma murmur3_tail_padded:
  assumes "length t < 16"
  shows "murmur3_tail t h = mix_tail (t @ replicate (16 - length t) 0) h"
proof (cases "8 \<le> length t")
  case True
  then consider "length t = 8" | "length t = 9" | "length t = 10" | "length t = 11"
    | "length t = 12" | "length t = 13" | "length t = 14" | "length t = 15"
    using assms by linarith
  then show ?thesis
    by cases (simp_all add: murmur3_tail_def mix_tail_def k1_tail k2_tail le_value_snoc split: prod.split)
next
  case False
  then consider "length t = 0" | "length t = 1" | "length t = 2" | "length t = 3" | "length t = 4"
    | "length t = 5" | "length t = 6" | "length t = 7"
    by linarith
  then show ?thesis
    by cases (simp_all add: murmur3_tail_def mix_tail_def k1_short_tail le_value_snoc
        split: prod.split del: One_nat_def)
qed

lemma murmur3_body_shift: "murmur3_body rd data (Suc i) = murmur3_body rd (drop 16 data) i"
proof -
  have "get_block rd data (Suc i * 16) = get_block rd (drop 16 data) (i * 16)"
    "get_block rd data (Suc i * 16 + 8) = get_block rd (drop 16 data) (i * 16 + 8)"
    by (simp_all add: get_block_def ac_simps)
  then show ?thesis
    by (simp only: murmur3_body_def Let_def)
qed

lemma murmur3_body_block:
  assumes "reads_little_endian rd" "16 \<le> length data"
  shows "murmur3_body rd data 0 h = mix_block (take 16 data) h"
proof -
  have "rd (take 8 data) = le_value (take 8 (take 16 data))"
    "rd (take 8 (drop 8 data)) = le_value (drop 8 (take 16 data))"
    using assms by (auto simp: reads_little_endian_def drop_take)
  then show ?thesis
    by (simp add: murmur3_body_def get_block_def mix_block_def Let_def split: prod.split)
qed

lemma murmur3_loop:
  assumes "reads_little_endian rd"
  shows "murmur3_tail (drop (length data div 16 * 16) data)
      (fold (murmur3_body rd data) [0..<length data div 16] h) = murmur3_chunks data h"
proof (induction data h rule: murmur3_chunks.induct)
  case (1 data h)
  show ?case
  proof (cases "length data < 16")
    case True
    then show ?thesis
      by (simp add: murmur3_tail_padded murmur3_chunks.simps [of data])
  next
    case False
    define n where "n = (length data - 16) div 16"
    have n: "length data div 16 = Suc n" using False by (simp add: n_def le_div_geq)
    have "fold (murmur3_body rd data) [0..<Suc n] h =
        fold (murmur3_body rd (drop 16 data)) [0..<n] (murmur3_body rd data 0 h)"
      by (simp add: upt_conv_Cons map_Suc_upt [symmetric] fold_map comp_def murmur3_body_shift
          del: upt_Suc)
    with 1 [OF False] False n show ?thesis
      by (simp add: murmur3_body_block [OF assms] murmur3_chunks.simps [of data] n_def [symmetric]
          add.commute del: upt_Suc)
  qed
qed

text \<open>
  C34. \<open>murmur3_128\<close> equals the reference definition by recursion over sixteen-byte chunks,
  for every input length and seed: the index loop reads each block once and in order, and
  each of the fifteen unrolled tail cases mixes the tail as a chunk padded with zeros.
\<close>

theorem murmur3_128_reference:
  assumes "reads_little_endian read_u64"
  shows "murmur3_128 read_u64 data seed = murmur3_final (length data) (murmur3_chunks data (seed, seed))"
  using murmur3_loop [OF assms] by (simp add: murmur3_128_def Let_def)

text \<open>
  The witness instantiates the block reader with the little-endian value itself and
  evaluates the code on a seventeen-byte key (one block and a tail), whose token the
  repository's tests fix.
\<close>

definition sample_key :: bytes where
  "sample_key = [0, 1, 2, 3, 4, 5, 6, 7, 8, 9, 10, 11, 12, 13, 14, 15, 16]"

theorem murmur3_128_reference_witness:
  "murmur3_token le_value sample_key = 6662781046685680142 \<and>
   murmur3_128 le_value sample_key 0 =
     murmur3_final (length sample_key) (murmur3_chunks sample_key (0, 0))"
proof
  show "murmur3_token le_value sample_key = 6662781046685680142" by code_simp
  show "murmur3_128 le_value sample_key 0 =
     murmur3_final (length sample_key) (murmur3_chunks sample_key (0, 0))"
    by (rule murmur3_128_reference) (simp add: reads_little_endian_def)
qed

end
