(* ===== verification/Tokens.thy ===== *)
theory Tokens
  imports Murmur3 "HOL-Library.Signed_Division"
begin

text \<open>
  Ring tokens and ranges of \<open>cassandra-common\<close>: \<open>token.rs\<close> (\<open>Token\<close>, \<open>TokenRange\<close>),
  \<open>bounds.rs\<close> (\<open>AbstractBounds\<close> with its four kinds) and
  \<open>cassandra-storage/src/partitions/decorated_key.rs\<close>.  A token is its \<open>i64\<close> value, an
  integer within the bounds of the type; \<open>AbstractBounds\<close> is generic over any linear
  order, as in the code.  The lemmas relate \<open>contains\<close>, \<open>intersects\<close>, \<open>unwrap\<close> and
  \<open>subtract\<close> to the sets of points, and record the degenerate bounds on which the code
  departs from them.
\<close>

section \<open>Tokens\<close>

type_synonym token = i64

abbreviation (input) TOKEN_MINIMUM :: token where "TOKEN_MINIMUM \<equiv> i64_min"
abbreviation (input) TOKEN_MAXIMUM :: token where "TOKEN_MAXIMUM \<equiv> i64_max"

definition from_partition_key :: "(bytes \<Rightarrow> u64) \<Rightarrow> bytes \<Rightarrow> token" where
  "from_partition_key read_u64 key = murmur3_token read_u64 key"

definition is_minimum :: "token \<Rightarrow> bool" where
  "is_minimum t \<longleftrightarrow> t = i64_min"

text \<open>The sum is taken in \<open>i128\<close>, the division truncates, and the result is cast to \<open>i64\<close>.\<close>

definition midpoint :: "token \<Rightarrow> token \<Rightarrow> token" where
  "midpoint left right = wrap_i64 ((left + right) sdiv 2)"

record token_range =
  tr_start :: token
  tr_end :: token

definition FULL_RING :: token_range where
  "FULL_RING = \<lparr>tr_start = i64_min, tr_end = i64_min\<rparr>"

definition token_range_new :: "token \<Rightarrow> token \<Rightarrow> token_range" where
  "token_range_new s e = \<lparr>tr_start = s, tr_end = e\<rparr>"

definition wraps_around :: "token_range \<Rightarrow> bool" where
  "wraps_around r \<longleftrightarrow> tr_start r \<ge> tr_end r \<and> r \<noteq> FULL_RING"

definition range_contains :: "token_range \<Rightarrow> token \<Rightarrow> bool" where
  "range_contains r t =
     (if wraps_around r then t > tr_start r \<or> t \<le> tr_end r
      else if r = FULL_RING then True
      else t > tr_start r \<and> t \<le> tr_end r)"

lemma token_in_i64: "in_i64 (from_partition_key read_u64 key)"
  by (simp add: from_partition_key_def murmur3_token_def murmur3_128_def murmur3_final_def Let_def
      split: prod.split)

lemma range_contains_alt:
  "range_contains (token_range_new s e) t \<longleftrightarrow>
     (if s < e then s < t \<and> t \<le> e else s = e \<or> s < t \<or> t \<le> e)"
  by (auto simp: range_contains_def wraps_around_def token_range_new_def FULL_RING_def)

text \<open>
  The ranges of the ring: two different tokens cut it into two arcs, and every token is
  in exactly one of \<open>(s, e]\<close> and \<open>(e, s]\<close>; a range split at a token \<open>m\<close> inside it is the
  disjoint union of \<open>(s, m]\<close> and \<open>(m, e]\<close>, whether or not it wraps around.
\<close>

theorem token_range_partition:
  assumes "s \<noteq> e"
  shows "(range_contains (token_range_new s e) t \<longleftrightarrow> \<not> range_contains (token_range_new e s) t) \<and>
    (range_contains (token_range_new s e) m \<and> m \<noteq> e \<longrightarrow>
      (range_contains (token_range_new s e) t \<longleftrightarrow>
         range_contains (token_range_new s m) t \<noteq> range_contains (token_range_new m e) t))"
  using assms by (auto simp: range_contains_alt)

theorem token_range_partition_witness:
  "range_contains (token_range_new 10 (- 10)) 50 \<and>
   range_contains (token_range_new 10 20) 50 \<noteq> range_contains (token_range_new 20 (- 10)) 50 \<and>
   \<not> range_contains (token_range_new (- 10) 10) 50"
  using token_range_partition [of 10 "- 10" 50 20]
  by (simp add: range_contains_alt)

text \<open>
  The midpoint of a range that does not wrap lies between its bounds and is never
  changed by the cast to \<open>i64\<close>, whatever the magnitudes of the two tokens.
\<close>

theorem midpoint_between:
  assumes "in_i64 l" "in_i64 r" "l \<le> r"
  shows "midpoint l r = (l + r) sdiv 2 \<and> l \<le> midpoint l r \<and> midpoint l r \<le> r"
proof -
  have "l \<le> (l + r) sdiv 2 \<and> (l + r) sdiv 2 \<le> r"
    using assms(3) by (auto simp: signed_divide_int_def sgn_if)
  with assms show ?thesis
    by (simp add: midpoint_def in_i64_def)
qed

theorem midpoint_between_witness:
  "midpoint (i64_max - 4) i64_max = i64_max - 2 \<and> i64_max - 4 \<le> midpoint (i64_max - 4) i64_max"
  using midpoint_between [of "i64_max - 4" "i64_max"]
  by (simp add: in_i64_def signed_divide_int_def)

text \<open>For a range that wraps around, the computed midpoint is on the other arc.\<close>

theorem midpoint_wrapping_outside:
  "\<exists>l r. in_i64 l \<and> in_i64 r \<and> \<not> range_contains (token_range_new l r) (midpoint l r)"
  by (rule exI [of _ 10], rule exI [of _ "- 10"])
    (simp add: in_i64_def midpoint_def signed_divide_int_def range_contains_alt wrap_i64_id)

section \<open>Abstract bounds\<close>

datatype 'a abstract_bounds =
  Range (bleft: 'a) (bright: 'a)
| Bounds (bleft: 'a) (bright: 'a)
| IncludingExcluding (bleft: 'a) (bright: 'a)
| Excluding (bleft: 'a) (bright: 'a)

fun includes_left :: "'a abstract_bounds \<Rightarrow> bool" where
  "includes_left (Bounds _ _) = True"
| "includes_left (IncludingExcluding _ _) = True"
| "includes_left _ = False"

fun includes_right :: "'a abstract_bounds \<Rightarrow> bool" where
  "includes_right (Range _ _) = True"
| "includes_right (Bounds _ _) = True"
| "includes_right _ = False"

definition bounds_contains :: "'a::linorder abstract_bounds \<Rightarrow> 'a \<Rightarrow> bool" where
  "bounds_contains b point =
     (let left_ok = (if includes_left b then point \<ge> bleft b else point > bleft b);
          right_ok = (if includes_right b then point \<le> bright b else point < bright b)
      in if bleft b < bright b then left_ok \<and> right_ok
         else if bleft b = bright b then includes_left b \<or> includes_right b \<or> point \<noteq> bleft b
         else left_ok \<or> right_ok)"

definition intersects :: "'a::linorder abstract_bounds \<Rightarrow> 'a abstract_bounds \<Rightarrow> bool" where
  "intersects b other =
     (if bleft b < bright b \<and> bleft other < bright other then
        (let self_before_other =
               (if includes_right b \<and> includes_left other then bright b < bleft other
                else bright b \<le> bleft other);
             other_before_self =
               (if includes_right other \<and> includes_left b then bright other < bleft b
                else bright other \<le> bleft b)
         in \<not> self_before_other \<and> \<not> other_before_self)
      else bounds_contains b (bleft other) \<or> bounds_contains b (bright other) \<or>
           bounds_contains other (bleft b) \<or> bounds_contains other (bright b))"

definition bounds_unwrap :: "'a::linorder abstract_bounds \<Rightarrow> 'a \<Rightarrow> 'a \<Rightarrow> 'a abstract_bounds list" where
  "bounds_unwrap b min_val max_val =
     (if bleft b < bright b then [b]
      else case b of
        Range left right \<Rightarrow> [Range left max_val, Range min_val right]
      | Bounds left right \<Rightarrow> [Bounds left max_val, Bounds min_val right]
      | IncludingExcluding left right \<Rightarrow>
          [IncludingExcluding left max_val, IncludingExcluding min_val right]
      | Excluding left right \<Rightarrow> [Excluding left max_val, Excluding min_val right])"

text \<open>The left and the right remainder, each pushed when it is not empty.\<close>

definition subtract_left ::
  "'a::linorder abstract_bounds \<Rightarrow> 'a abstract_bounds \<Rightarrow> 'a abstract_bounds list" where
  "subtract_left b other =
     (if bleft b < bleft other \<or>
         (bleft b = bleft other \<and> includes_left b \<and> \<not> includes_left other)
      then let new_right = bleft other; includes_new_right = (\<not> includes_left other) in
        [if includes_left b \<and> includes_new_right then Bounds (bleft b) new_right
         else if includes_left b then IncludingExcluding (bleft b) new_right
         else if includes_new_right then Range (bleft b) new_right
         else Excluding (bleft b) new_right]
      else [])"

definition subtract_right ::
  "'a::linorder abstract_bounds \<Rightarrow> 'a abstract_bounds \<Rightarrow> 'a abstract_bounds list" where
  "subtract_right b other =
     (if bright b > bright other \<or>
         (bright b = bright other \<and> includes_right b \<and> \<not> includes_right other)
      then let new_left = bright other; includes_new_left = (\<not> includes_right other) in
        [if includes_new_left \<and> includes_right b then Bounds new_left (bright b)
         else if includes_new_left then IncludingExcluding new_left (bright b)
         else if includes_right b then Range new_left (bright b)
         else Excluding new_left (bright b)]
      else [])"

definition bounds_subtract ::
  "'a::linorder abstract_bounds \<Rightarrow> 'a abstract_bounds \<Rightarrow> 'a abstract_bounds list" where
  "bounds_subtract b other =
     (if \<not> intersects b other then [b] else subtract_left b other @ subtract_right b other)"

text \<open>The two sides of a point test, for bounds that do not wrap.\<close>

definition after_left :: "'a::linorder abstract_bounds \<Rightarrow> 'a \<Rightarrow> bool" where
  "after_left b p = (if includes_left b then bleft b \<le> p else bleft b < p)"

definition before_right :: "'a::linorder abstract_bounds \<Rightarrow> 'a \<Rightarrow> bool" where
  "before_right b p = (if includes_right b then p \<le> bright b else p < bright b)"

lemma bounds_contains_sides:
  "bleft b < bright b \<Longrightarrow> bounds_contains b p \<longleftrightarrow> after_left b p \<and> before_right b p"
  by (simp add: bounds_contains_def after_left_def before_right_def Let_def)

lemma subtract_left_contains:
  assumes "\<not> (bleft a = bleft b \<and> includes_left a \<and> \<not> includes_left b)"
  shows "(\<exists>r \<in> set (subtract_left a b). bounds_contains r p) \<longleftrightarrow> after_left a p \<and> \<not> after_left b p"
  using assms
  by (auto simp: subtract_left_def bounds_contains_sides Let_def after_left_def before_right_def)

lemma subtract_right_contains:
  assumes "\<not> (bright a = bright b \<and> includes_right a \<and> \<not> includes_right b)"
  shows "(\<exists>r \<in> set (subtract_right a b). bounds_contains r p) \<longleftrightarrow> before_right a p \<and> \<not> before_right b p"
  using assms
  by (auto simp: subtract_right_def bounds_contains_sides Let_def after_left_def before_right_def)

lemma intersects_sides:
  assumes "bleft a < bright a" "bleft b < bright b"
  shows "intersects a b \<Longrightarrow> \<not> after_left b p \<Longrightarrow> before_right a p"
    and "intersects a b \<Longrightarrow> \<not> before_right b p \<Longrightarrow> after_left a p"
    and "\<not> intersects a b \<Longrightarrow> bounds_contains a p \<Longrightarrow> \<not> bounds_contains b p"
  using assms
  by (auto simp: intersects_def bounds_contains_sides after_left_def before_right_def Let_def
      split: if_splits)

text \<open>
  C36. \<open>intersects\<close> misses no common point: bounds that share a point are reported to
  intersect, for every combination of kinds and of wrapping, except an \<open>Excluding\<close> range
  with \<open>left >= right\<close> compared with itself.
\<close>

theorem intersects_complete:
  assumes "bounds_contains a p" "bounds_contains b p"
    and "\<not> (a = b \<and> bright a \<le> bleft a \<and> \<not> includes_left a \<and> \<not> includes_right a)"
  shows "intersects a b"
  using assms
  by (cases a; cases b)
    (auto simp: intersects_def bounds_contains_def Let_def split: if_splits)

theorem intersects_complete_witness:
  "intersects (Range (10::int) (- 10)) (IncludingExcluding 40 50)"
  by (rule intersects_complete [where p = 45]) (simp_all add: bounds_contains_def)

theorem excluding_misses_itself:
  "bounds_contains (Excluding (5::int) 3) 9 \<and> \<not> intersects (Excluding (5::int) 3) (Excluding 5 3)"
  by (simp add: bounds_contains_def intersects_def)

text \<open>
  C35. \<open>subtract\<close> is set difference: for bounds that do not wrap, a point is in one of the
  remaining parts exactly when it is in the first bounds and not in the second, unless a
  common end point is included in the first and excluded from the second.
\<close>

theorem subtract_exact:
  assumes "bleft a < bright a" "bleft b < bright b"
    and "\<not> (bleft a = bleft b \<and> includes_left a \<and> \<not> includes_left b)"
    and "\<not> (bright a = bright b \<and> includes_right a \<and> \<not> includes_right b)"
  shows "(\<exists>r \<in> set (bounds_subtract a b). bounds_contains r p) \<longleftrightarrow>
    bounds_contains a p \<and> \<not> bounds_contains b p"
proof (cases "intersects a b")
  case True
  have "(\<exists>r \<in> set (bounds_subtract a b). bounds_contains r p) \<longleftrightarrow>
      (after_left a p \<and> \<not> after_left b p) \<or> (before_right a p \<and> \<not> before_right b p)"
    using True by (simp add: bounds_subtract_def bex_Un subtract_left_contains [OF assms(3)]
        subtract_right_contains [OF assms(4)])
  with intersects_sides(1,2) [OF assms(1,2) True] show ?thesis
    unfolding bounds_contains_sides [OF assms(1)] bounds_contains_sides [OF assms(2)] by blast
next
  case False
  with intersects_sides(3) [OF assms(1,2)] show ?thesis by (auto simp: bounds_subtract_def)
qed

theorem subtract_exact_witness:
  "bounds_subtract (Range (0::int) 10) (Range 3 5) = [Range 0 3, Range 5 10] \<and>
   (\<exists>r \<in> set (bounds_subtract (Range (0::int) 10) (Range 3 5)). bounds_contains r 7)"
  using subtract_exact [of "Range (0::int) 10" "Range 3 5" 7]
  by (simp add: bounds_subtract_def subtract_left_def subtract_right_def intersects_def bounds_contains_def)

text \<open>In the excluded case the code builds bounds with equal ends, which contain every point.\<close>

theorem subtract_end_point_covers_all:
  "\<exists>a b. bleft a < bright a \<and> bleft b < bright b \<and>
     (\<forall>p :: int. \<exists>r \<in> set (bounds_subtract a b). bounds_contains r p)"
  by (rule exI [of _ "Bounds 0 10"], rule exI [of _ "Range 0 10"])
    (auto simp: bounds_subtract_def subtract_left_def subtract_right_def intersects_def bounds_contains_def)

text \<open>
  C37. \<open>unwrap\<close> keeps the points strictly between the ends of the token space: a point is in
  one of the parts exactly when it is in the original, if the range neither starts at the
  greatest nor ends at the least value.
\<close>

theorem unwrap_exact:
  assumes "min_val < p" "p < max_val" "min_val < bright b" "bleft b < max_val"
  shows "(\<exists>r \<in> set (bounds_unwrap b min_val max_val). bounds_contains r p) \<longleftrightarrow> bounds_contains b p"
  using assms
  by (cases b) (auto simp: bounds_unwrap_def bounds_contains_def Let_def)

theorem unwrap_exact_witness:
  "\<exists>r \<in> set (bounds_unwrap (Range (10::int) (- 10)) i64_min i64_max). bounds_contains r 50"
  using unwrap_exact [of i64_min 50 i64_max "Range 10 (- 10)"]
  by (simp add: bounds_contains_def)

text \<open>A wrapping range that ends at the least value is unwrapped into the whole ring.\<close>

theorem unwrap_at_minimum_covers_all:
  "\<not> bounds_contains (Range 10 i64_min) 7 \<and>
   (\<exists>r \<in> set (bounds_unwrap (Range 10 i64_min) i64_min i64_max). bounds_contains r 7)"
  by (simp add: bounds_contains_def bounds_unwrap_def)

section \<open>Decorated keys\<close>

datatype decorated_key = DecoratedKey (dk_key: bytes) (dk_token: token)

definition decorated_key_new :: "(bytes \<Rightarrow> u64) \<Rightarrow> bytes \<Rightarrow> decorated_key" where
  "decorated_key_new read_u64 key = DecoratedKey key (from_partition_key read_u64 key)"

text \<open>\<open>Ord for DecoratedKey\<close>: by token, ties broken by the key bytes.\<close>

instantiation decorated_key :: linorder
begin

definition less_eq_decorated_key :: "decorated_key \<Rightarrow> decorated_key \<Rightarrow> bool" where
  "a \<le> b \<longleftrightarrow> dk_token a < dk_token b \<or> (dk_token a = dk_token b \<and> dk_key a \<le> dk_key b)"

definition less_decorated_key :: "decorated_key \<Rightarrow> decorated_key \<Rightarrow> bool" where
  "a < b \<longleftrightarrow> dk_token a < dk_token b \<or> (dk_token a = dk_token b \<and> dk_key a < dk_key b)"

instance
  by standard (auto simp: less_eq_decorated_key_def less_decorated_key_def decorated_key.expand)

end

end
