(* ===== verification/Partitions.thy ===== *)
theory Partitions
  imports Rows Tokens "HOL-Library.Product_Lexorder" "HOL-Library.Multiset"
begin

text \<open>
  Partitions of \<open>cassandra-storage\<close>: \<open>memtable/partition.rs\<close> (the memtable's \<open>Cell\<close>,
  \<open>Row\<close> and \<open>PartitionData\<close>), the conversions between both row models, and
  \<open>partitions/partition_update.rs\<close> (\<open>PartitionUpdate\<close>).  The lemmas: the invariant of a
  partition update and that every operation keeps it, what an update holds after any
  sequence of operations, that a merge brings no deleted row back, and the round trip of
  cells through the memtable with the case in which a tombstone is lost.
\<close>

section \<open>The memtable's partitions\<close>

record cell =
  mc_column :: string
  mc_value :: "bytes option"
  mc_timestamp :: i64
  mc_ttl :: i32
  mc_local_deletion_time :: "i32 option"
  mc_is_tombstone :: bool

definition is_live_at :: "cell \<Rightarrow> i32 \<Rightarrow> bool" where
  "is_live_at c now =
     (if mc_is_tombstone c then False
      else if mc_ttl c > 0 then
        (case mc_local_deletion_time c of Some ldt \<Rightarrow> now < ldt | None \<Rightarrow> True)
      else True)"

definition mcell_merge_with :: "cell \<Rightarrow> cell \<Rightarrow> cell" where
  "mcell_merge_with c other =
     (if mc_timestamp other > mc_timestamp c then other
      else if mc_timestamp other = mc_timestamp c \<and> mc_is_tombstone other \<and> \<not> mc_is_tombstone c
      then other else c)"

record row =
  mr_clustering_key :: bytes
  mr_cells :: "cell list"
  mr_is_tombstone :: bool
  mr_local_deletion_time :: "i32 option"

text \<open>The body of the loop of \<open>Row::merge_with\<close>: \<open>iter_mut().find\<close> gives the first match.\<close>

fun merge_cell_into :: "cell \<Rightarrow> cell list \<Rightarrow> cell list" where
  "merge_cell_into other [] = [other]"
| "merge_cell_into other (c # cs) =
     (if mc_column c = mc_column other then mcell_merge_with c other # cs
      else c # merge_cell_into other cs)"

definition mrow_merge_with :: "row \<Rightarrow> row \<Rightarrow> row" where
  "mrow_merge_with r other =
     (let r = (if mr_is_tombstone other \<and> \<not> mr_is_tombstone r
               then r\<lparr>mr_is_tombstone := True,
                      mr_local_deletion_time := mr_local_deletion_time other\<rparr>
               else r)
      in r\<lparr>mr_cells := fold merge_cell_into (mr_cells other) (mr_cells r)\<rparr>)"

record partition_data =
  pd_rows :: "(bytes, row) btree_map"
  tombstone_timestamp :: "i64 option"
  tombstone_local_deletion_time :: "i32 option"

definition partition_data_new :: partition_data where
  "partition_data_new = \<lparr>pd_rows = [], tombstone_timestamp = None,
     tombstone_local_deletion_time = None\<rparr>"

definition apply_row :: "row \<Rightarrow> partition_data \<Rightarrow> partition_data" where
  "apply_row r pd =
     pd\<lparr>pd_rows := bt_upsert mrow_merge_with (mr_clustering_key r) r (pd_rows pd)\<rparr>"

definition set_tombstone :: "i64 \<Rightarrow> i32 \<Rightarrow> partition_data \<Rightarrow> partition_data" where
  "set_tombstone ts ldt pd =
     (if (case tombstone_timestamp pd of Some existing_ts \<Rightarrow> existing_ts \<ge> ts | None \<Rightarrow> False)
      then pd
      else pd\<lparr>tombstone_timestamp := Some ts, tombstone_local_deletion_time := Some ldt\<rparr>)"

definition pd_live_rows :: "i32 \<Rightarrow> partition_data \<Rightarrow> row list" where
  "pd_live_rows now pd =
     filter (\<lambda>r.
       if mr_is_tombstone r then False
       else case tombstone_timestamp pd of
          Some pt_ts \<Rightarrow>
            (case tombstone_local_deletion_time pd of
               Some pt_ldt \<Rightarrow>
                 if now \<ge> pt_ldt then list_ex (\<lambda>c. mc_timestamp c > pt_ts) (mr_cells r) else True
             | None \<Rightarrow> True)
        | None \<Rightarrow> True) (bt_values (pd_rows pd))"

section \<open>Conversions\<close>

definition cell_data_of_cell :: "cell \<Rightarrow> cell_data" where
  "cell_data_of_cell c =
     \<lparr>cd_column = mc_column c, cd_value = mc_value c, cd_timestamp = mc_timestamp c,
      cd_ttl = mc_ttl c,
      cd_local_deletion_time =
        (case mc_local_deletion_time c of Some ldt \<Rightarrow> ldt | None \<Rightarrow> i32_max),
      cd_path = None\<rparr>"

definition cell_of_cell_data :: "cell_data \<Rightarrow> cell" where
  "cell_of_cell_data c =
     \<lparr>mc_column = cd_column c, mc_value = cd_value c, mc_timestamp = cd_timestamp c,
      mc_ttl = cd_ttl c,
      mc_local_deletion_time =
        (if cd_local_deletion_time c = i32_max then None else Some (cd_local_deletion_time c)),
      mc_is_tombstone = cell_is_tombstone c\<rparr>"

definition row_data_of_row :: "row \<Rightarrow> row_data" where
  "row_data_of_row r =
     (let data = row_new (mr_clustering_key r);
          data = (if mr_is_tombstone r then
                    let ldt = (case mr_local_deletion_time r of Some x \<Rightarrow> x | None \<Rightarrow> i32_max);
                        max_ts = (case mr_cells r of [] \<Rightarrow> 0
                                  | _ \<Rightarrow> Max (mc_timestamp ` set (mr_cells r)))
                    in data\<lparr>row_deletion := DeletionTime max_ts ldt\<rparr>
                  else data)
      in fold (\<lambda>c. add_cell (cell_data_of_cell c)) (mr_cells r) data)"

section \<open>Partition updates\<close>

record partition_update =
  pu_key :: decorated_key
  pu_deletion_info :: deletion_info
  pu_rows :: "(bytes, row_data) btree_map"
  pu_static_row :: "row_data option"

definition partition_update_new :: "decorated_key \<Rightarrow> partition_update" where
  "partition_update_new key = \<lparr>pu_key = key, pu_deletion_info = deletion_info_live,
     pu_rows = [], pu_static_row = None\<rparr>"

definition add_row :: "row_data \<Rightarrow> partition_update \<Rightarrow> partition_update" where
  "add_row r pu =
     (if is_static r then
        pu\<lparr>pu_static_row := (case pu_static_row pu of
             Some existing \<Rightarrow> Some (row_merge_with existing r)
           | None \<Rightarrow> Some r)\<rparr>
      else pu\<lparr>pu_rows := bt_upsert row_merge_with (clustering_key r) r (pu_rows pu)\<rparr>)"

definition pu_add_range_tombstone :: "range_tombstone \<Rightarrow> partition_update \<Rightarrow> partition_update" where
  "pu_add_range_tombstone rt pu =
     pu\<lparr>pu_deletion_info := add_range_tombstone rt (pu_deletion_info pu)\<rparr>"

definition pu_set_partition_deletion :: "deletion_time \<Rightarrow> partition_update \<Rightarrow> partition_update" where
  "pu_set_partition_deletion d pu =
     pu\<lparr>pu_deletion_info := set_partition_deletion d (pu_deletion_info pu)\<rparr>"

definition pu_merge :: "partition_update \<Rightarrow> partition_update \<Rightarrow> partition_update" where
  "pu_merge pu other =
     (let pu = pu\<lparr>pu_deletion_info :=
                 deletion_info_merge (pu_deletion_info pu) (pu_deletion_info other)\<rparr>;
          pu = fold add_row (bt_values (pu_rows other)) pu
      in case pu_static_row other of Some sr \<Rightarrow> add_row sr pu | None \<Rightarrow> pu)"

definition row_count :: "partition_update \<Rightarrow> nat" where
  "row_count pu = length (pu_rows pu)"

definition pu_is_empty :: "partition_update \<Rightarrow> bool" where
  "pu_is_empty pu \<longleftrightarrow>
     pu_rows pu = [] \<and> pu_static_row pu = None \<and> deletion_info_is_live (pu_deletion_info pu)"

definition pu_live_rows :: "i32 \<Rightarrow> partition_update \<Rightarrow> row_data list" where
  "pu_live_rows now pu =
     filter (\<lambda>r.
       has_live_data_after now (active_deletion_for (pu_deletion_info pu) (clustering_key r)) r)
       (bt_values (pu_rows pu))"

definition live_static_row :: "i32 \<Rightarrow> partition_update \<Rightarrow> row_data option" where
  "live_static_row now pu =
     (case pu_static_row pu of
        None \<Rightarrow> None
      | Some r \<Rightarrow>
          if has_live_data_after now (partition_deletion (pu_deletion_info pu)) r then Some r else None)"

definition from_partition_data ::
  "(bytes \<Rightarrow> u64) \<Rightarrow> bytes \<Rightarrow> partition_data \<Rightarrow> partition_update" where
  "from_partition_data read_u64 partition_key pd =
     (let pu = partition_update_new (decorated_key_new read_u64 partition_key);
          pu = (case (tombstone_timestamp pd, tombstone_local_deletion_time pd) of
                  (Some ts, Some ldt) \<Rightarrow> pu_set_partition_deletion (DeletionTime ts ldt) pu
                | _ \<Rightarrow> pu)
      in fold (\<lambda>r. add_row (row_data_of_row r)) (bt_values (pd_rows pd)) pu)"

fun column_to_cells :: "column_data \<Rightarrow> cell list" where
  "column_to_cells (Simple c) = [cell_of_cell_data c]"
| "column_to_cells (Complex cc) = map cell_of_cell_data (bt_values (cc_cells cc))"

definition partition_data_of_update :: "partition_update \<Rightarrow> partition_data" where
  "partition_data_of_update pu =
     (let pd = partition_data_new;
          d = partition_deletion (pu_deletion_info pu);
          pd = (if \<not> deletion_is_live d
                then set_tombstone (marked_for_delete_at d) (local_deletion_time d) pd else pd)
      in fold (\<lambda>(ck, r). apply_row
            \<lparr>mr_clustering_key = ck,
             mr_cells = concat (map column_to_cells (bt_values (columns r))),
             mr_is_tombstone = (\<not> deletion_is_live (row_deletion r)),
             mr_local_deletion_time =
               (if deletion_is_live (row_deletion r) then None
                else Some (local_deletion_time (row_deletion r)))\<rparr>) (pu_rows pu) pd)"

section \<open>The invariant of a partition update\<close>

definition keyed_row :: "bytes \<Rightarrow> row_data \<Rightarrow> bool" where
  "keyed_row k r \<longleftrightarrow> row_wf r \<and> clustering_key r = k \<and> \<not> is_static r"

definition pu_wf :: "partition_update \<Rightarrow> bool" where
  "pu_wf pu \<longleftrightarrow> bt_ok (pu_rows pu) \<and>
     bt_all keyed_row (pu_rows pu) \<and>
     (\<forall>r. pu_static_row pu = Some r \<longrightarrow> row_wf r \<and> is_static r) \<and>
     DELETION_LIVE \<le> partition_deletion (pu_deletion_info pu)"

named_theorems wf_intro \<open>operations keep the invariants of rows and partition updates\<close>

lemma column_wf_merge: "column_wf e \<Longrightarrow> column_wf f \<Longrightarrow> column_wf (merge_column e f)"
  by (induction e f rule: merge_column.induct) (auto simp: le_max_iff_disj intro: bt_ok_merge)

lemma row_wf_merge [wf_intro]: "row_wf a \<Longrightarrow> row_wf b \<Longrightarrow> row_wf (row_merge_with a b)"
  by (auto simp: row_wf_def le_max_iff_disj intro!: bt_intro intro: column_wf_merge)

lemma row_wf_new [wf_intro, simp]: "row_wf (row_new ck)" "row_wf row_new_static"
  by (auto simp: row_wf_def row_new_def row_new_static_def)

lemma row_wf_add_cell [wf_intro]: "row_wf r \<Longrightarrow> row_wf (add_cell c r)"
  by (auto simp: row_wf_def add_cell_def intro!: bt_intro split: column_data.splits)

lemma row_wf_apply_deletion [wf_intro]: "row_wf r \<Longrightarrow> row_wf (apply_deletion d r)"
  by (auto simp: row_wf_def apply_deletion_def supersedes_iff)

lemma keyed_row_merge [wf_intro]: "keyed_row k a \<Longrightarrow> keyed_row k b \<Longrightarrow> keyed_row k (row_merge_with a b)"
  by (auto simp: keyed_row_def intro: row_wf_merge)

lemma row_wf_add_complex [wf_intro]:
  "row_wf r \<Longrightarrow> column_wf (Complex cc) \<Longrightarrow> row_wf (add_complex_column cc r)"
  by (auto simp: row_wf_def add_complex_column_def le_max_iff_disj intro!: bt_intro
      split: column_data.splits)

lemma pu_wf_new [wf_intro, simp]: "pu_wf (partition_update_new key)"
  by (simp add: pu_wf_def partition_update_new_def deletion_info_live_def)

lemma pu_wf_add_row [wf_intro]:
  assumes "pu_wf pu" "row_wf r"
  shows "pu_wf (add_row r pu)"
proof (cases "is_static r")
  case True
  with assms show ?thesis
    by (auto simp: pu_wf_def add_row_def split: option.splits intro!: wf_intro)
next
  case False
  then have "keyed_row (clustering_key r) r" using assms by (simp add: keyed_row_def)
  with False assms(1) show ?thesis
    by (auto simp: pu_wf_def add_row_def intro!: bt_intro intro: keyed_row_merge)
qed

lemma pu_wf_deletions [wf_intro]:
  "pu_wf pu \<Longrightarrow> pu_wf (pu_add_range_tombstone rt pu)"
  "pu_wf pu \<Longrightarrow> pu_wf (pu_set_partition_deletion d pu)"
  by (auto simp: pu_wf_def pu_add_range_tombstone_def pu_set_partition_deletion_def le_max_iff_disj)

lemma fold_add_row:
  "bt_all keyed_row m \<Longrightarrow>
   fold add_row (bt_values m) pu = pu\<lparr>pu_rows := bt_merge row_merge_with (pu_rows pu) m\<rparr>"
  unfolding bt_merge_def
  by (induction m arbitrary: pu) (auto simp: add_row_def keyed_row_def)

fun merge_static :: "row_data option \<Rightarrow> row_data option \<Rightarrow> row_data option" where
  "merge_static None x = x"
| "merge_static (Some a) None = Some a"
| "merge_static (Some a) (Some b) = Some (row_merge_with a b)"

lemma pu_merge_unfold:
  assumes "pu_wf other"
  shows "pu_merge pu other =
    pu\<lparr>pu_deletion_info := deletion_info_merge (pu_deletion_info pu) (pu_deletion_info other),
       pu_rows := bt_merge row_merge_with (pu_rows pu) (pu_rows other),
       pu_static_row := merge_static (pu_static_row pu) (pu_static_row other)\<rparr>"
  using assms
  by (cases "pu_static_row pu")
    (auto simp: pu_merge_def pu_wf_def Let_def fold_add_row add_row_def split: option.splits)

lemma pu_wf_merge [wf_intro]:
  assumes "pu_wf pu" "pu_wf other"
  shows "pu_wf (pu_merge pu other)"
  unfolding pu_merge_unfold [OF assms(2)] using assms
  by (cases "pu_static_row pu"; cases "pu_static_row other")
    (auto simp: pu_wf_def le_max_iff_disj intro!: bt_intro intro: keyed_row_merge row_wf_merge)

section \<open>What a sequence of operations leaves in an update\<close>

text \<open>
  The operations of a partition update as data, with the rows, range tombstones and
  partition deletions each of them brings.
\<close>

datatype update_op =
    AddRow row_data
  | AddRangeTombstone range_tombstone
  | SetPartitionDeletion deletion_time
  | Merge partition_update

fun apply_op :: "update_op \<Rightarrow> partition_update \<Rightarrow> partition_update" where
  "apply_op (AddRow r) pu = add_row r pu"
| "apply_op (AddRangeTombstone rt) pu = pu_add_range_tombstone rt pu"
| "apply_op (SetPartitionDeletion d) pu = pu_set_partition_deletion d pu"
| "apply_op (Merge other) pu = pu_merge pu other"

fun op_wf :: "update_op \<Rightarrow> bool" where
  "op_wf (AddRow r) = row_wf r"
| "op_wf (Merge other) = pu_wf other"
| "op_wf _ = True"

fun op_rows :: "update_op \<Rightarrow> row_data list" where
  "op_rows (AddRow r) = [r]"
| "op_rows (Merge other) =
     bt_values (pu_rows other) @ (case pu_static_row other of Some r \<Rightarrow> [r] | None \<Rightarrow> [])"
| "op_rows _ = []"

fun op_ranges :: "update_op \<Rightarrow> range_tombstone list" where
  "op_ranges (AddRangeTombstone rt) = [rt]"
| "op_ranges (Merge other) = range_tombstones (pu_deletion_info other)"
| "op_ranges _ = []"

fun op_deletions :: "update_op \<Rightarrow> deletion_time list" where
  "op_deletions (SetPartitionDeletion d) = [d]"
| "op_deletions (Merge other) = [partition_deletion (pu_deletion_info other)]"
| "op_deletions _ = []"

definition merge_rows :: "row_data list \<Rightarrow> row_data option \<Rightarrow> row_data option" where
  "merge_rows rs acc = fold (\<lambda>r acc. merge_static acc (Some r)) rs acc"

definition rows_at :: "bytes \<Rightarrow> row_data list \<Rightarrow> row_data list" where
  "rows_at k rs = filter (\<lambda>r. \<not> is_static r \<and> clustering_key r = k) rs"

lemma merge_rows_append [simp]: "merge_rows (xs @ ys) acc = merge_rows ys (merge_rows xs acc)"
  by (simp add: merge_rows_def)

lemma rows_at_append [simp]: "rows_at k (xs @ ys) = rows_at k xs @ rows_at k ys"
  by (simp add: rows_at_def)

lemma merge_static_Some: "merge_static acc (Some r) =
    Some (case acc of None \<Rightarrow> r | Some e \<Rightarrow> row_merge_with e r)"
  by (cases acc) auto

lemma fold_add_row_contents:
  "map_of (pu_rows (fold add_row rs pu)) k = merge_rows (rows_at k rs) (map_of (pu_rows pu) k)"
  "pu_static_row (fold add_row rs pu) = merge_rows (filter is_static rs) (pu_static_row pu)"
  "pu_deletion_info (fold add_row rs pu) = pu_deletion_info pu"
  "pu_key (fold add_row rs pu) = pu_key pu"
  by (induction rs arbitrary: pu)
    (auto simp: merge_rows_def rows_at_def add_row_def get_bt_upsert merge_static_Some split: option.splits)

lemma pu_merge_as_fold:
  "pu_merge pu other = fold add_row (op_rows (Merge other))
     (pu\<lparr>pu_deletion_info := deletion_info_merge (pu_deletion_info pu) (pu_deletion_info other)\<rparr>)"
  by (simp add: pu_merge_def Let_def split: option.splits)

lemma sort_key_append_sorted:
  "sort_key f (sort_key f xs @ ys) = sort_key f (xs @ ys)"
proof -
  have stable: "filter (\<lambda>x. f k = f x) (sort_key f zs) = filter (\<lambda>x. f k = f x) zs" for k zs
    using sort_key_stable [of f "f k" zs] by (simp add: eq_commute)
  show ?thesis by (rule properties_for_sort_key [symmetric]) (simp_all add: stable)
qed

lemma fold_add_range_sorted:
  assumes "range_tombstones di = sort_key rt_start xs"
  shows "range_tombstones (fold add_range_tombstone rts di) = sort_key rt_start (xs @ rts)"
  using assms
proof (induction rts arbitrary: di xs)
  case (Cons rt rts)
  then have "range_tombstones (add_range_tombstone rt di) = sort_key rt_start (xs @ [rt])"
    by (simp add: add_range_tombstone_def sort_key_append_sorted del: append.simps)
  from Cons.IH [OF this] show ?case by simp
qed simp

lemma apply_op_wf: "op_wf op \<Longrightarrow> pu_wf pu \<Longrightarrow> pu_wf (apply_op op pu)"
  by (cases op) (auto intro: wf_intro)

lemma apply_op_rows:
  "map_of (pu_rows (apply_op op pu)) k = merge_rows (rows_at k (op_rows op)) (map_of (pu_rows pu) k)"
  "pu_static_row (apply_op op pu) = merge_rows (filter is_static (op_rows op)) (pu_static_row pu)"
  "pu_key (apply_op op pu) = pu_key pu"
  using fold_add_row_contents [of "op_rows op"] fold_add_row_contents [of "op_rows op" pu]
  by (cases op; simp add: pu_merge_as_fold pu_add_range_tombstone_def pu_set_partition_deletion_def
      merge_rows_def rows_at_def del: op_rows.simps(2))+

lemma apply_op_deletion:
  "partition_deletion (pu_deletion_info (apply_op op pu)) =
     fold max (op_deletions op) (partition_deletion (pu_deletion_info pu))"
  by (cases op) (simp_all add: pu_merge_as_fold fold_add_row_contents add_row_def
      pu_add_range_tombstone_def pu_set_partition_deletion_def max.commute del: op_rows.simps)

lemma apply_op_ranges:
  assumes "range_tombstones (pu_deletion_info pu) = sort_key rt_start xs"
  shows "range_tombstones (pu_deletion_info (apply_op op pu)) = sort_key rt_start (xs @ op_ranges op)"
  using assms fold_add_range_sorted [OF assms, of "op_ranges op"]
  by (cases op) (simp_all add: pu_merge_as_fold fold_add_row_contents add_row_def
      pu_add_range_tombstone_def pu_set_partition_deletion_def deletion_info_merge_def
      fold_add_range_sorted del: op_rows.simps)

text \<open>
  C31. A partition update holds exactly what was put into it, whatever sequence of
  \<open>add_row\<close>, \<open>add_range_tombstone\<close>, \<open>set_partition_deletion\<close> and \<open>merge\<close> built it.  Under each
  clustering key stands the merge, in order, of all rows added for it, and no row where none
  was added; the static row is the merge of the static ones.  The range tombstones are all
  those added, sorted by start bound and in the order of their addition under equal bounds.
  The partition deletion is the greatest one set.  The rows stay sorted by clustering key, each under
  its own key with sorted columns, when the rows and the merged updates given are so.
\<close>

theorem partition_update_contents:
  fixes ops :: "update_op list" and key :: decorated_key
  defines "pu \<equiv> fold apply_op ops (partition_update_new key)"
    and "rs \<equiv> concat (map op_rows ops)"
  assumes "list_all op_wf ops"
  shows "pu_wf pu \<and> pu_key pu = key \<and>
    (\<forall>k. map_of (pu_rows pu) k = merge_rows (rows_at k rs) None) \<and>
    pu_static_row pu = merge_rows (filter is_static rs) None \<and>
    range_tombstones (pu_deletion_info pu) = sort_key rt_start (concat (map op_ranges ops)) \<and>
    partition_deletion (pu_deletion_info pu) = fold max (concat (map op_deletions ops)) DELETION_LIVE"
  using assms(3) unfolding pu_def rs_def
proof (induction ops rule: rev_induct)
  case Nil
  then show ?case
    by (simp add: partition_update_new_def deletion_info_live_def merge_rows_def rows_at_def
        pu_wf_new [unfolded partition_update_new_def deletion_info_live_def])
next
  case (snoc op ops)
  then show ?case by (simp add: apply_op_wf apply_op_rows apply_op_deletion apply_op_ranges)
qed

definition sample_update :: "i64 \<Rightarrow> partition_update" where
  "sample_update ts = add_row (sample_row ts False DELETION_LIVE)
     (partition_update_new (DecoratedKey [1] 42))"

lemma sample_row_wf: "row_wf (sample_row ts dead DELETION_LIVE)"
  by (simp add: row_wf_def sample_row_def bt_ok_def)

lemma sample_update_wf: "pu_wf (sample_update ts)"
  unfolding sample_update_def by (intro wf_intro sample_row_wf)

definition sample_range :: "8 word \<Rightarrow> range_tombstone" where
  "sample_range b = \<lparr>rt_start = [b], rt_end = [9], rt_deletion = DeletionTime 4 1\<rparr>"

theorem partition_update_contents_witness:
  "map_of (pu_rows (fold apply_op [AddRangeTombstone (sample_range 5), Merge (sample_update 3),
       AddRow (sample_row 5 False DELETION_LIVE), AddRangeTombstone (sample_range 2)]
       (partition_update_new (DecoratedKey [1] 42)))) [7] =
     Some (row_merge_with (sample_row 3 False DELETION_LIVE) (sample_row 5 False DELETION_LIVE)) \<and>
   range_tombstones (pu_deletion_info (fold apply_op [AddRangeTombstone (sample_range 5),
       Merge (sample_update 3), AddRow (sample_row 5 False DELETION_LIVE), AddRangeTombstone (sample_range 2)]
       (partition_update_new (DecoratedKey [1] 42)))) = [sample_range 2, sample_range 5]"
proof -
  let ?ops = "[AddRangeTombstone (sample_range 5), Merge (sample_update 3),
       AddRow (sample_row 5 False DELETION_LIVE), AddRangeTombstone (sample_range 2)]"
  have wf: "list_all op_wf ?ops" by (simp add: sample_update_wf sample_row_wf)
  have rows: "concat (map op_rows ?ops) = [sample_row 3 False DELETION_LIVE, sample_row 5 False DELETION_LIVE]"
    by (simp add: sample_update_def partition_update_new_def add_row_def bt_upsert_def sample_row_def)
  have ranges: "concat (map op_ranges ?ops) = [sample_range 5, sample_range 2]"
    by (simp add: sample_update_def partition_update_new_def add_row_def deletion_info_live_def sample_row_def)
  have order: "sort_key rt_start [sample_range 5, sample_range 2] = [sample_range 2, sample_range 5]"
    by (simp add: sample_range_def)
  show ?thesis
    using partition_update_contents [OF wf, of "DecoratedKey [1] 42", unfolded rows ranges order]
    by (simp add: rows_at_def merge_rows_def sample_row_def)
qed

section \<open>Merging updates\<close>

lemma visible_liveness_merge:
  assumes "row_wf a" "row_wf b" "visible_liveness now d (row_merge_with a b)"
  shows "visible_liveness now (max d (row_deletion b)) a \<or> visible_liveness now (max d (row_deletion a)) b"
proof -
  have "liveness_merge (row_liveness a) (row_liveness b) \<in> {row_liveness a, row_liveness b}"
    by (simp add: liveness_merge_def)
  with assms(3) show ?thesis
    by (auto simp: visible_liveness_def ac_simps)
qed

lemma visible_cells_merge:
  assumes "row_wf a" "row_wf b" "visible_cells now d (row_merge_with a b) \<noteq> {}"
  shows "visible_cells now (max d (row_deletion b)) a \<noteq> {} \<or>
    visible_cells now (max d (row_deletion a)) b \<noteq> {}"
  using assms merge_visible [OF assms(1,2)] by fastforce

lemma live_merge:
  assumes "row_wf a" "row_wf b" "has_live_data_after now d (row_merge_with a b)"
  shows "has_live_data_after now (max d (row_deletion b)) a \<or>
    has_live_data_after now (max d (row_deletion a)) b"
proof -
  have ok: "bt_ok (columns a)" "bt_ok (columns b)" "bt_ok (columns (row_merge_with a b))"
    using assms(1,2) by (auto simp: row_wf_def intro: bt_ok_merge)
  show ?thesis
    using assms(3) visible_liveness_merge [OF assms(1,2)] visible_cells_merge [OF assms(1,2)]
    unfolding has_live_data_spec [OF ok(1)] has_live_data_spec [OF ok(2)] has_live_data_spec [OF ok(3)]
    by blast
qed

lemma visible_antimono:
  assumes "DELETION_LIVE \<le> row_deletion r" "d \<le> e" "bt_ok (columns r)" "has_live_data_after now e r"
  shows "has_live_data_after now d r"
proof -
  have m: "max (row_deletion r) d \<le> max (row_deletion r) e" "DELETION_LIVE \<le> max (row_deletion r) d"
    using assms(1,2) by (auto simp: le_max_iff_disj)
  have col: "column_visible now (max (row_deletion r) e) cd \<subseteq> column_visible now (max (row_deletion r) d) cd" for cd
    using survives_antimono [OF m(2,1)] by (cases cd) auto
  show ?thesis
    using assms(4) col survives_antimono [OF m(2,1)]
    unfolding has_live_data_spec [OF assms(3)] visible_cells_def visible_liveness_def by fast
qed

text \<open>
  C11. Merging partition updates brings no deleted row back: the deletion that applies to a
  clustering key in the merged update is the greatest of those of the two updates, and every
  row that \<open>live_rows\<close> of the merged update returns is stored in one of the updates and has
  live data there even under the merged deletion.
\<close>

theorem partition_merge_no_resurrection:
  assumes "pu_wf a" "pu_wf b"
  shows "active_deletion_for (pu_deletion_info (pu_merge a b)) k =
      max (active_deletion_for (pu_deletion_info a) k) (active_deletion_for (pu_deletion_info b) k) \<and>
    (\<forall>r \<in> set (pu_live_rows now (pu_merge a b)). \<exists>r'.
       (map_of (pu_rows a) (clustering_key r) = Some r' \<or> map_of (pu_rows b) (clustering_key r) = Some r') \<and>
       has_live_data_after now
         (active_deletion_for (pu_deletion_info (pu_merge a b)) (clustering_key r)) r')"
proof (intro conjI ballI)
  show "active_deletion_for (pu_deletion_info (pu_merge a b)) k =
      max (active_deletion_for (pu_deletion_info a) k) (active_deletion_for (pu_deletion_info b) k)"
    by (simp add: pu_merge_unfold [OF assms(2)] active_deletion_merge)
next
  fix r assume r: "r \<in> set (pu_live_rows now (pu_merge a b))"
  define d where "d = active_deletion_for (pu_deletion_info (pu_merge a b)) (clustering_key r)"
  have live: "has_live_data_after now d r" using r by (simp add: pu_live_rows_def d_def)
  have wf: "pu_wf (pu_merge a b)" using assms by (rule pu_wf_merge)
  then have key: "map_of (pu_rows (pu_merge a b)) (clustering_key r) = Some r"
    using r by (auto simp: pu_live_rows_def pu_wf_def bt_all_def keyed_row_def bt_ok_distinct)
  have rows: "row_wf x" if "map_of (pu_rows a) k' = Some x \<or> map_of (pu_rows b) k' = Some x" for k' x
    using that assms bt_all_get by (fastforce simp: pu_wf_def keyed_row_def)
  have antimono: "has_live_data_after now d x" if "row_wf x" "has_live_data_after now (max d y) x" for x y
    using that visible_antimono [of x d "max d y"] by (simp add: row_wf_def)
  have ok: "distinct (bt_keys (pu_rows b))" using assms(2) by (simp add: pu_wf_def bt_ok_distinct)
  from key have "(\<exists>x. map_of (pu_rows a) (clustering_key r) = Some x \<and> has_live_data_after now d x) \<or>
      (\<exists>x. map_of (pu_rows b) (clustering_key r) = Some x \<and> has_live_data_after now d x)"
    unfolding pu_merge_unfold [OF assms(2)] using live live_merge rows antimono
    by (simp add: get_bt_merge [OF ok] split: option.splits) blast
  then show "\<exists>r'. (map_of (pu_rows a) (clustering_key r) = Some r' \<or>
        map_of (pu_rows b) (clustering_key r) = Some r') \<and>
      has_live_data_after now
        (active_deletion_for (pu_deletion_info (pu_merge a b)) (clustering_key r)) r'"
    unfolding d_def by blast
qed

theorem partition_merge_no_resurrection_witness:
  "\<exists>r'. (map_of (pu_rows (sample_update 9)) [7] = Some r' \<or> map_of (pu_rows (sample_update 3)) [7] = Some r') \<and>
     has_live_data_after 50
       (active_deletion_for (pu_deletion_info (pu_merge (sample_update 9) (sample_update 3))) [7]) r'"
proof -
  let ?m = "pu_merge (sample_update 9) (sample_update 3)"
  have merged: "pu_rows ?m = [([7], sample_row 9 False DELETION_LIVE)]"
    "pu_deletion_info ?m = deletion_info_live"
    by (simp_all add: pu_merge_def sample_update_def add_row_def
        partition_update_new_def deletion_info_live_def sample_row_def bt_upsert_def bt_merge_def
        row_merge_with_def liveness_merge_def LIVENESS_EMPTY_def cell_merge_with_def sample_cell_def
        liveness_is_empty_def supersedes_def deletion_info_merge_def set_partition_deletion_def)
  have active: "active_deletion_for deletion_info_live [7] = DELETION_LIVE"
    by (simp add: active_deletion_for_def range_tombstone_covering_def deletion_info_live_def)
  have key: "clustering_key (sample_row 9 False DELETION_LIVE) = [7]"
    by (simp add: sample_row_def)
  have mem: "sample_row 9 False DELETION_LIVE \<in> set (pu_live_rows 50 ?m)"
    unfolding pu_live_rows_def merged
    by (simp add: key active)
      (simp add: has_live_data_after_def sample_defs supersedes_def)
  from bspec [OF conjunct2 [OF partition_merge_no_resurrection
        [OF sample_update_wf sample_update_wf]] mem]
  show ?thesis by (simp only: key)
qed

section \<open>Cells through the memtable\<close>

text \<open>
  A simple cell survives the round trip through the memtable's cell unchanged, and
  liveness is preserved by the conversion for cells with a non-negative TTL.
\<close>

theorem cell_roundtrip:
  assumes "cd_path c = None" "0 \<le> cd_ttl c" "now < i32_max"
  shows "cell_data_of_cell (cell_of_cell_data c) = c \<and>
    is_live_at (cell_of_cell_data c) now = cell_is_live c now"
  using assms
  by (auto simp: cell_data_of_cell_def cell_of_cell_data_def is_live_at_def cell_is_live_def
      cell_is_expiring_def sentinel_defs)

theorem cell_roundtrip_witness:
  "cell_data_of_cell (cell_of_cell_data (sample_cell 5 True)) = sample_cell 5 True \<and>
   is_live_at (cell_of_cell_data (sample_cell 5 True)) 7 = cell_is_live (sample_cell 5 True) 7"
  by (rule cell_roundtrip) (simp_all add: sample_cell_def)

text \<open>
  The other direction loses tombstones: a memtable tombstone without a local deletion time
  becomes a cell that the row model considers live.
\<close>

theorem tombstone_without_time_is_lost:
  "\<exists>c. mc_is_tombstone c \<and> \<not> is_live_at c now \<and> cell_is_live (cell_data_of_cell c) now"
  by (rule exI [of _ "\<lparr>mc_column = ''v'', mc_value = None, mc_timestamp = 5, mc_ttl = 0,
      mc_local_deletion_time = None, mc_is_tombstone = True\<rparr>"])
    (simp add: is_live_at_def cell_is_live_def cell_data_of_cell_def cell_is_tombstone_def
      cell_is_expiring_def sentinel_defs)

text \<open>A row tombstone without cells converts to a deletion with timestamp zero.\<close>

theorem row_tombstone_without_cells:
  "row_deletion (row_data_of_row \<lparr>mr_clustering_key = k, mr_cells = [], mr_is_tombstone = True,
     mr_local_deletion_time = Some ldt\<rparr>) = DeletionTime 0 ldt"
  by (simp add: row_data_of_row_def)

end
