(* ===== verification/Counters.thy ===== *)
theory Counters
  imports Ordered_Map "HOL-Library.Product_Lexorder"
begin

text \<open>
  Distributed counters of \<open>cassandra-storage/src/counter.rs\<close>.  A context maps node
  identifiers to shards \<open>(node_id, clock, count)\<close>.  The clock and the count are \<open>i64\<close>
  values, kept as 64-bit words: addition wraps, and comparisons read the signed value.
  Identifiers come from the \<open>uuid\<close> crate and are any linearly ordered type; the byte order
  conversions of the \<open>uuid\<close> and \<open>byteorder\<close> crates are the fields of \<open>wire\<close>, with their
  documented behaviour as \<open>wire_ok\<close>.

  The lemmas: merging is convergent; clean-up keeps the total; the binary format round
  trips and rejects exactly the malformed lengths; and, over every interleaving of local
  updates and merges of a cluster, combining the replicas yields the sum of all
  increments, each counted once.
\<close>

section \<open>The context\<close>

record 'n counter_shard =
  node_id :: 'n
  clock :: u64
  count :: u64

record 'n counter_context =
  shards :: "('n, 'n counter_shard) btree_map"

definition counter_new :: "'n counter_context" where
  "counter_new = \<lparr>shards = []\<rparr>"

definition from_shards :: "'n::linorder counter_shard list \<Rightarrow> 'n counter_context" where
  "from_shards ss = fold (\<lambda>s ctx. ctx\<lparr>shards := bt_insert (node_id s) s (shards ctx)\<rparr>) ss counter_new"

definition total :: "'n counter_context \<Rightarrow> u64" where
  "total ctx = sum_list (map count (bt_values (shards ctx)))"

definition empty_shard :: "'n \<Rightarrow> 'n counter_shard" where
  "empty_shard n = \<lparr>node_id = n, clock = 0, count = 0\<rparr>"

text \<open>\<open>entry(n).or_insert(..)\<close> followed by an update of the entry through the reference.\<close>

definition update_entry ::
  "'n::linorder \<Rightarrow> ('n counter_shard \<Rightarrow> 'n counter_shard) \<Rightarrow>
   ('n, 'n counter_shard) btree_map \<Rightarrow> ('n, 'n counter_shard) btree_map" where
  "update_entry n f m =
     bt_insert n (f (case map_of m n of Some s \<Rightarrow> s | None \<Rightarrow> empty_shard n)) m"

definition apply_local :: "'n::linorder \<Rightarrow> u64 \<Rightarrow> 'n counter_context \<Rightarrow> 'n counter_context" where
  "apply_local n delta ctx =
     ctx\<lparr>shards := update_entry n (\<lambda>s. s\<lparr>clock := clock s + 1, count := count s + delta\<rparr>) (shards ctx)\<rparr>"

definition merge_shard ::
  "'n::linorder \<times> 'n counter_shard \<Rightarrow> ('n, 'n counter_shard) btree_map \<Rightarrow> ('n, 'n counter_shard) btree_map" where
  "merge_shard = (\<lambda>(n, other) m.
     case map_of m n of
       Some local \<Rightarrow>
         if sint (clock other) > sint (clock local) then bt_insert n other m
         else if clock other = clock local \<and> sint (count other) > sint (count local)
         then bt_insert n other m
         else m
     | None \<Rightarrow> bt_insert n other m)"

definition counter_merge :: "'n::linorder counter_context \<Rightarrow> 'n counter_context \<Rightarrow> 'n counter_context" where
  "counter_merge ctx other = ctx\<lparr>shards := fold merge_shard (shards other) (shards ctx)\<rparr>"

definition shard_count :: "'n counter_context \<Rightarrow> nat" where
  "shard_count ctx = length (shards ctx)"

definition has_remote_shards :: "'n \<Rightarrow> 'n counter_context \<Rightarrow> bool" where
  "has_remote_shards local_node ctx = list_ex (\<lambda>n. n \<noteq> local_node) (bt_keys (shards ctx))"

definition has_local_shard :: "'n \<Rightarrow> 'n counter_context \<Rightarrow> bool" where
  "has_local_shard n ctx \<longleftrightarrow> map_of (shards ctx) n \<noteq> None"

text \<open>\<open>Ord::max\<close> and the maximum of an iterator, on signed values.\<close>

definition smax :: "u64 \<Rightarrow> u64 \<Rightarrow> u64" where
  "smax a b = (if sint a > sint b then a else b)"

definition remote_shards :: "'n \<Rightarrow> 'n counter_context \<Rightarrow> 'n counter_shard list" where
  "remote_shards local_node ctx = map snd (filter (\<lambda>e. fst e \<noteq> local_node) (shards ctx))"

definition cleanup :: "'n::linorder \<Rightarrow> 'n counter_context \<Rightarrow> 'n counter_context" where
  "cleanup local_node ctx =
     (let remote_sum = sum_list (map count (remote_shards local_node ctx));
          remote_max_clock =
            (case map clock (remote_shards local_node ctx) of [] \<Rightarrow> 0 | c # cs \<Rightarrow> fold smax cs c);
          m = bt_retain (\<lambda>n _. n = local_node) (shards ctx)
      in if remote_sum \<noteq> 0 \<or> map_of m local_node = None
         then ctx\<lparr>shards := update_entry local_node
                (\<lambda>s. s\<lparr>count := count s + remote_sum,
                        clock := smax (clock s) remote_max_clock + 1\<rparr>) m\<rparr>
         else ctx\<lparr>shards := m\<rparr>)"

section \<open>The binary format\<close>

definition SHARD_SIZE :: nat where "SHARD_SIZE = 32"
definition HEADER_SIZE :: nat where "HEADER_SIZE = 2"

record 'n wire =
  as_u64_pair :: "'n \<Rightarrow> u64 \<times> u64"
  from_u64_pair :: "u64 \<times> u64 \<Rightarrow> 'n"
  write_u16 :: "16 word \<Rightarrow> bytes"
  write_u64 :: "u64 \<Rightarrow> bytes"
  write_i64 :: "u64 \<Rightarrow> bytes"
  read_u64 :: "bytes \<Rightarrow> u64"
  read_i64 :: "bytes \<Rightarrow> u64"

text \<open>
  The texts of \<open>InvalidFormat\<close> are represented by what they report; \<open>ReadFailed\<close> is the
  end-of-file error of the cursor.
\<close>

datatype format_error = HeaderTooShort | NotDivisible nat nat | ReadFailed
datatype counter_error = InvalidFormat format_error | MutationError string

definition serialize_shard :: "'n wire \<Rightarrow> 'n counter_shard \<Rightarrow> bytes" where
  "serialize_shard w s =
     (let (msb, lsb) = as_u64_pair w (node_id s)
      in write_u64 w msb @ write_u64 w lsb @ write_i64 w (clock s) @ write_i64 w (count s))"

definition counter_serialize :: "'n wire \<Rightarrow> 'n counter_context \<Rightarrow> bytes" where
  "counter_serialize w ctx =
     write_u16 w 0 @ concat (map (serialize_shard w) (bt_values (shards ctx)))"

text \<open>A read of eight bytes through the cursor, which is the remaining input.\<close>

definition cursor_read :: "(bytes \<Rightarrow> 'a) \<Rightarrow> bytes \<Rightarrow> counter_error + ('a \<times> bytes)" where
  "cursor_read get bs =
     (if length bs < 8 then Inl (InvalidFormat ReadFailed) else Inr (get (take 8 bs), drop 8 bs))"

definition read_shard :: "'n wire \<Rightarrow> bytes \<Rightarrow> counter_error + ('n counter_shard \<times> bytes)" where
  "read_shard w bs =
     (case cursor_read (read_u64 w) bs of Inl e \<Rightarrow> Inl e | Inr (msb, bs) \<Rightarrow>
      case cursor_read (read_u64 w) bs of Inl e \<Rightarrow> Inl e | Inr (lsb, bs) \<Rightarrow>
      case cursor_read (read_i64 w) bs of Inl e \<Rightarrow> Inl e | Inr (cl, bs) \<Rightarrow>
      case cursor_read (read_i64 w) bs of Inl e \<Rightarrow> Inl e | Inr (co, bs) \<Rightarrow>
      Inr (\<lparr>node_id = from_u64_pair w (msb, lsb), clock = cl, count = co\<rparr>, bs))"

fun read_shards ::
  "'n::linorder wire \<Rightarrow> nat \<Rightarrow> bytes \<Rightarrow> ('n, 'n counter_shard) btree_map \<Rightarrow>
   counter_error + ('n, 'n counter_shard) btree_map" where
  "read_shards w 0 bs m = Inr m"
| "read_shards w (Suc k) bs m =
     (case read_shard w bs of
        Inl e \<Rightarrow> Inl e
      | Inr (s, bs) \<Rightarrow> read_shards w k bs (bt_insert (node_id s) s m))"

definition counter_deserialize :: "'n::linorder wire \<Rightarrow> bytes \<Rightarrow> counter_error + 'n counter_context" where
  "counter_deserialize w data =
     (if length data < HEADER_SIZE then Inl (InvalidFormat HeaderTooShort)
      else let remaining = length data - HEADER_SIZE in
        if remaining mod SHARD_SIZE \<noteq> 0 then Inl (InvalidFormat (NotDivisible remaining SHARD_SIZE))
        else case read_shards w (remaining div SHARD_SIZE) (drop 2 data) [] of
          Inl e \<Rightarrow> Inl e
        | Inr m \<Rightarrow> Inr \<lparr>shards = m\<rparr>)"

text \<open>The documented behaviour of the crates the format relies on.\<close>

definition wire_ok :: "'n wire \<Rightarrow> bool" where
  "wire_ok w \<longleftrightarrow>
     (\<forall>n. from_u64_pair w (as_u64_pair w n) = n) \<and>
     (\<forall>v. length (write_u16 w v) = 2) \<and>
     (\<forall>v. length (write_u64 w v) = 8) \<and> (\<forall>v. length (write_i64 w v) = 8) \<and>
     (\<forall>v. read_u64 w (write_u64 w v) = v) \<and> (\<forall>v. read_i64 w (write_i64 w v) = v)"

section \<open>Invariant and convergence\<close>

definition shard_ok :: "'n \<Rightarrow> 'n counter_shard \<Rightarrow> bool" where
  "shard_ok n s \<longleftrightarrow> node_id s = n"

definition shards_ok :: "('n::linorder, 'n counter_shard) btree_map \<Rightarrow> bool" where
  "shards_ok m \<longleftrightarrow> bt_ok m \<and> (\<forall>n s. map_of m n = Some s \<longrightarrow> shard_ok n s)"

definition context_ok :: "'n::linorder counter_context \<Rightarrow> bool" where
  "context_ok ctx \<longleftrightarrow> shards_ok (shards ctx)"

definition pick_shard :: "'n counter_shard \<Rightarrow> 'n counter_shard \<Rightarrow> 'n counter_shard" where
  "pick_shard local other =
     (if sint (clock other) > sint (clock local) then other
      else if clock other = clock local \<and> sint (count other) > sint (count local) then other
      else local)"

lemma bt_insert_same: "bt_ok m \<Longrightarrow> map_of m k = Some v \<Longrightarrow> bt_insert k v m = m"
  by (rule bt.put_same)

lemma merge_shard_upsert: "bt_ok m \<Longrightarrow> merge_shard e m = bt_upsert pick_shard (fst e) (snd e) m"
  by (cases e) (auto simp: merge_shard_def bt_upsert_def pick_shard_def bt_insert_same split: option.splits)

lemma counter_merge_bt:
  "bt_ok (shards ctx) \<Longrightarrow> shards (counter_merge ctx other) = bt_merge pick_shard (shards ctx) (shards other)"
proof -
  have "bt_ok m \<Longrightarrow> fold merge_shard es m = bt_merge pick_shard m es" for es and m :: "('a, 'a counter_shard) btree_map"
    unfolding bt_merge_def
    by (induction es arbitrary: m) (auto simp: merge_shard_upsert intro: bt_ok_upsert)
  then show "bt_ok (shards ctx) \<Longrightarrow> ?thesis"
    by (simp add: counter_merge_def)
qed

lemma pick_shard_sint:
  "pick_shard local other =
     (if sint (clock other) > sint (clock local) then other
      else if sint (clock other) = sint (clock local) \<and> sint (count other) > sint (count local)
      then other else local)"
  by (auto simp: pick_shard_def dest: signed_word_eqI)

lemma pick_convergent: "convergent (shard_ok n) pick_shard"
proof
  fix x y z :: "'a counter_shard"
  assume x: "shard_ok n x" and y: "shard_ok n y"
  show "shard_ok n (pick_shard x y)" using x y by (simp add: pick_shard_def)
  show "pick_shard x x = x" by (simp add: pick_shard_def)
  have "x = y" if "sint (clock x) = sint (clock y)" "sint (count x) = sint (count y)"
    using x y that by (auto simp: shard_ok_def intro: counter_shard.equality signed_word_eqI)
  then show "pick_shard x y = pick_shard y x" by (auto simp: pick_shard_sint)
  show "pick_shard (pick_shard x y) z = pick_shard x (pick_shard y z)"
    by (auto simp: pick_shard_sint)
qed

lemma counter_convergent: "convergent context_ok counter_merge"
proof -
  have base: "convergent shards_ok (bt_merge pick_shard)"
    unfolding shards_ok_def by (rule convergent_bt_merge) (rule pick_convergent)
  note laws = convergent.closed [OF base] convergent.idem [OF base]
    convergent.comm [OF base] convergent.assoc [OF base]
  have ok: "shards_ok m \<Longrightarrow> bt_ok m" for m :: "('a, 'a counter_shard) btree_map"
    by (simp add: shards_ok_def)
  show ?thesis
    by unfold_locales
      (auto simp: context_ok_def counter_merge_bt ok laws(1,2,4)
        intro!: counter_context.equality intro: laws(3))
qed

interpretation counter: convergent context_ok counter_merge
  by (rule counter_convergent)

text \<open>
  C28. Counter contexts converge: folding any list of contexts with \<open>merge\<close> gives the same
  context for every order and every repetition.
\<close>

theorem counter_merge_any_order:
  assumes "\<forall>c \<in> set (a # as). context_ok c" "set (a # as) = set (b # bs)"
  shows "foldl counter_merge a as = foldl counter_merge b bs"
  by (rule counter.any_order [OF assms])

definition sample_context :: "nat \<Rightarrow> u64 \<Rightarrow> u64 \<Rightarrow> nat counter_context" where
  "sample_context n cl co = \<lparr>shards = [(n, \<lparr>node_id = n, clock = cl, count = co\<rparr>)]\<rparr>"

lemma sample_context_ok: "context_ok (sample_context n cl co)"
  by (simp add: context_ok_def shards_ok_def sample_context_def shard_ok_def bt_ok_def)

theorem counter_merge_any_order_witness:
  "foldl counter_merge (sample_context 1 4 10) [sample_context 2 1 (- 3), sample_context 1 5 7] =
   foldl counter_merge (sample_context 1 5 7)
     [sample_context 1 4 10, sample_context 1 5 7, sample_context 2 1 (- 3)]"
  by (rule counter_merge_any_order) (auto simp: sample_context_ok)

section \<open>Clean-up\<close>

lemma retain_key:
  "bt_ok m \<Longrightarrow> bt_retain (\<lambda>n _. n = k) m = (case map_of m k of None \<Rightarrow> [] | Some s \<Rightarrow> [(k, s)])"
proof (induction m)
  case (Cons e m)
  have "map_of m k = None" if "fst e = k"
    using Cons.prems that by (force simp: bt_ok_Cons map_of_eq_None_iff)
  with Cons show ?case
    by (cases e) (auto simp: bt_retain_def bt_ok_Cons split: option.splits)
qed (simp add: bt_retain_def)

lemma total_split:
  assumes "bt_ok (shards ctx)"
  shows "total ctx = (case map_of (shards ctx) n of None \<Rightarrow> 0 | Some s \<Rightarrow> count s) +
    sum_list (map count (remote_shards n ctx))"
proof -
  have "sum_list (map count (bt_values m)) =
      sum_list (map count (bt_values (bt_retain (\<lambda>k _. k = n) m))) +
      sum_list (map count (map snd (filter (\<lambda>e. fst e \<noteq> n) m)))" for m :: "('a, 'a counter_shard) btree_map"
    by (induction m) (auto simp: bt_retain_def ac_simps)
  from this [of "shards ctx"] show ?thesis
    by (auto simp: total_def remote_shards_def retain_key [OF assms] split: option.splits)
qed

text \<open>
  C29. Clean-up keeps the counter's value, also when the sums wrap around, and leaves exactly
  one shard, that of the local node.
\<close>

theorem cleanup_keeps_total:
  assumes "bt_ok (shards ctx)"
  shows "total (cleanup n ctx) = total ctx \<and> bt_keys (shards (cleanup n ctx)) = [n]"
  unfolding total_split [OF assms, of n]
  by (auto simp: cleanup_def Let_def retain_key [OF assms] update_entry_def empty_shard_def total_def
      split: option.splits)

theorem cleanup_keeps_total_witness:
  "total (cleanup 1 (counter_merge (sample_context 1 4 10) (sample_context 2 9 (- 3)))) = 7"
  using cleanup_keeps_total [of "counter_merge (sample_context 1 4 10) (sample_context 2 9 (- 3))" 1]
  by (simp add: sample_context_def counter_merge_def merge_shard_def total_def bt_ok_def)

text \<open>
  Clean-up is not stable under further merges, also when every replica holds the same
  context: the folded counts are added again with the next merge.
\<close>

theorem cleanup_then_merge_counts_twice:
  "let c = counter_merge (sample_context 1 4 10) (sample_context 2 9 3)
   in total c = 13 \<and> total (cleanup 1 c) = 13 \<and> total (counter_merge (cleanup 1 c) c) = 16"
  by code_simp

section \<open>Round trip of the binary format\<close>

lemma cursor_read_append:
  "length a = 8 \<Longrightarrow> cursor_read get (a @ rest) = Inr (get a, rest)"
  by (simp add: cursor_read_def)

lemma cursor_read_enough: "8 \<le> length bs \<Longrightarrow> cursor_read get bs = Inr (get (take 8 bs), drop 8 bs)"
  by (simp add: cursor_read_def)

lemma read_shard_serialize:
  "wire_ok w \<Longrightarrow> read_shard w (serialize_shard w s @ rest) = Inr (s, rest)"
proof -
  assume ok: "wire_ok w"
  obtain msb lsb where p: "as_u64_pair w (node_id s) = (msb, lsb)" by fastforce
  with ok have "from_u64_pair w (msb, lsb) = node_id s" by (metis wire_ok_def)
  with ok p show ?thesis
    by (simp add: serialize_shard_def read_shard_def wire_ok_def cursor_read_append)
qed

lemma length_serialize_shard: "wire_ok w \<Longrightarrow> length (serialize_shard w s) = 32"
  by (simp add: serialize_shard_def wire_ok_def split: prod.split)

lemma read_shards_serialize:
  assumes "wire_ok w"
  shows "read_shards w (length ss) (concat (map (serialize_shard w) ss)) m =
    Inr (fold (\<lambda>s. bt_insert (node_id s) s) ss m)"
  by (induction ss arbitrary: m) (simp_all add: read_shard_serialize [OF assms])

lemma read_shards_total:
  "k * 32 \<le> length bs \<Longrightarrow> \<exists>m'. read_shards w k bs m = Inr m'"
proof (induction k arbitrary: bs m)
  case (Suc k)
  then obtain s where "read_shard w bs = Inr (s, drop 32 bs)"
    by (auto simp: read_shard_def cursor_read_enough)
  with Suc show ?case by simp
qed simp

lemma fold_insert_shards:
  fixes m :: "('n::linorder, 'n counter_shard) btree_map"
  assumes "bt_ok m" "\<forall>n s. map_of m n = Some s \<longrightarrow> node_id s = n"
  shows "fold (\<lambda>s. bt_insert (node_id s) s) (bt_values m) [] = m"
proof -
  have fold: "fold (\<lambda>s. bt_insert (node_id s) s) (bt_values es) m0 = bt_merge (\<lambda>_ v. v) m0 es"
    if "\<forall>(n, s) \<in> set es. node_id s = n" for es and m0 :: "('n, 'n counter_shard) btree_map"
    using that unfolding bt_merge_def
    by (induction es arbitrary: m0) (auto simp: bt_upsert_def split: option.splits)
  have "\<forall>(n, s) \<in> set m. node_id s = n"
    using assms bt_ok_distinct [OF assms(1)] by auto
  moreover have "bt_merge (\<lambda>_ v. v) [] m = m"
    by (rule bt_ext)
      (auto simp: get_bt_merge bt_ok_distinct assms(1) fun_eq_iff intro: bt_ok_merge split: option.splits)
  ultimately show ?thesis by (simp only: fold)
qed

text \<open>
  C38. The binary format: \<open>deserialize\<close> reverses \<open>serialize\<close> for every well-formed context; it
  fails exactly on inputs shorter than the header or whose rest is not a whole number of
  shards, and then with the matching error, never inside the loop.
\<close>

theorem counter_format:
  assumes "wire_ok w"
  shows "(context_ok ctx \<longrightarrow> counter_deserialize w (counter_serialize w ctx) = Inr ctx) \<and>
    (case counter_deserialize w data of
       Inl e \<Rightarrow> length data < 2 \<and> e = InvalidFormat HeaderTooShort \<or>
                2 \<le> length data \<and> (length data - 2) mod 32 \<noteq> 0 \<and>
                e = InvalidFormat (NotDivisible (length data - 2) 32)
     | Inr c \<Rightarrow> 2 \<le> length data \<and> (length data - 2) mod 32 = 0)"
proof (intro conjI impI)
  assume ok: "context_ok ctx"
  have len: "length (counter_serialize w ctx) = 2 + 32 * length (shards ctx)"
    using assms
    by (auto simp: counter_serialize_def wire_ok_def length_concat comp_def
        length_serialize_shard [OF assms] sum_list_triv)
  have "drop 2 (counter_serialize w ctx) = concat (map (serialize_shard w) (bt_values (shards ctx)))"
    using assms by (simp add: counter_serialize_def wire_ok_def)
  moreover have "fold (\<lambda>s. bt_insert (node_id s) s) (bt_values (shards ctx)) [] = shards ctx"
    using ok by (intro fold_insert_shards) (auto simp: context_ok_def shards_ok_def shard_ok_def)
  ultimately show "counter_deserialize w (counter_serialize w ctx) = Inr ctx"
    using read_shards_serialize [OF assms, of "bt_values (shards ctx)" "[]"]
    by (simp add: counter_deserialize_def len HEADER_SIZE_def SHARD_SIZE_def)
next
  show "case counter_deserialize w data of
       Inl e \<Rightarrow> length data < 2 \<and> e = InvalidFormat HeaderTooShort \<or>
                2 \<le> length data \<and> (length data - 2) mod 32 \<noteq> 0 \<and>
                e = InvalidFormat (NotDivisible (length data - 2) 32)
     | Inr c \<Rightarrow> 2 \<le> length data \<and> (length data - 2) mod 32 = 0"
    using read_shards_total [of "(length data - 2) div 32" "drop 2 data" w "[]"]
    by (auto simp: counter_deserialize_def Let_def HEADER_SIZE_def SHARD_SIZE_def split: sum.splits)
qed

definition be_wire :: "(64 word \<times> 64 word) wire" where
  "be_wire = \<lparr>as_u64_pair = id, from_u64_pair = id, write_u16 = be_bytes 2, write_u64 = be_bytes 8,
     write_i64 = be_bytes 8, read_u64 = be_fold 0, read_i64 = be_fold 0\<rparr>"

theorem counter_format_witness:
  "counter_deserialize be_wire (counter_serialize be_wire
      \<lparr>shards = [((1, 2), \<lparr>node_id = (1, 2), clock = 4, count = - 7\<rparr>)]\<rparr>) =
   Inr \<lparr>shards = [((1, 2), \<lparr>node_id = (1, 2), clock = 4, count = - 7\<rparr>)]\<rparr>"
proof -
  have "wire_ok be_wire" by (simp add: wire_ok_def be_wire_def)
  from counter_format [OF this]
  show ?thesis by (auto simp: context_ok_def shards_ok_def shard_ok_def bt_ok_def)
qed

section \<open>A cluster of replicas\<close>

text \<open>
  Each node holds its own context of one counter.  It applies increments to its own shard
  and receives the contexts of others, in any interleaving; \<open>history\<close> records the
  increments each node was asked to apply.
\<close>

record 'n cluster =
  replicas :: "'n \<Rightarrow> 'n counter_context"
  history :: "'n \<Rightarrow> u64 list"

inductive cluster_step :: "'n::linorder cluster \<Rightarrow> 'n cluster \<Rightarrow> bool" where
  update: "cluster_step s (s\<lparr>replicas := (replicas s)(n := apply_local n delta (replicas s n)),
     history := (history s)(n := history s n @ [delta])\<rparr>)"
| gossip: "cluster_step s (s\<lparr>replicas := (replicas s)(n := counter_merge (replicas s n) (replicas s m))\<rparr>)"

inductive cluster_reachable :: "'n::linorder cluster \<Rightarrow> bool" where
  start: "cluster_reachable \<lparr>replicas = \<lambda>_. counter_new, history = \<lambda>_. []\<rparr>"
| step: "cluster_reachable s \<Longrightarrow> cluster_step s s' \<Longrightarrow> cluster_reachable s'"

inductive_cases cluster_stepE [elim]: "cluster_step s s'"

text \<open>The shard of a node after its first \<open>j\<close> increments.\<close>

definition prefix_shard :: "'n \<Rightarrow> u64 list \<Rightarrow> nat \<Rightarrow> 'n counter_shard" where
  "prefix_shard n h j = \<lparr>node_id = n, clock = of_nat j, count = sum_list (take j h)\<rparr>"

definition tracks :: "('n::linorder \<Rightarrow> u64 list) \<Rightarrow> 'n counter_context \<Rightarrow> bool" where
  "tracks h ctx \<longleftrightarrow> bt_ok (shards ctx) \<and>
     (\<forall>n s. map_of (shards ctx) n = Some s \<longrightarrow>
        (\<exists>j. 0 < j \<and> j \<le> length (h n) \<and> s = prefix_shard n (h n) j))"

definition has_all :: "('n \<Rightarrow> u64 list) \<Rightarrow> 'n \<Rightarrow> 'n counter_context \<Rightarrow> bool" where
  "has_all h n ctx \<longleftrightarrow>
     (h n \<noteq> [] \<longrightarrow> map_of (shards ctx) n = Some (prefix_shard n (h n) (length (h n))))"

definition clock_bound :: nat where "clock_bound = 2 ^ 63"

definition short_histories :: "('n \<Rightarrow> u64 list) \<Rightarrow> bool" where
  "short_histories h \<longleftrightarrow> (\<forall>n. length (h n) < clock_bound)"

lemma sint_of_nat_u64: "j < clock_bound \<Longrightarrow> sint (of_nat j :: u64) = int j"
  by (simp add: clock_bound_def signed_of_nat signed_take_bit_int_eq_self)

lemma pick_prefix:
  "i < clock_bound \<Longrightarrow> j < clock_bound \<Longrightarrow>
   pick_shard (prefix_shard n h i) (prefix_shard n h j) = prefix_shard n h (max i j)"
  by (auto simp: pick_shard_sint prefix_shard_def sint_of_nat_u64 max_def)

lemma get_counter_merge:
  "tracks h a \<Longrightarrow> tracks h b \<Longrightarrow> map_of (shards (counter_merge a b)) n =
     (case map_of (shards b) n of
        None \<Rightarrow> map_of (shards a) n
      | Some y \<Rightarrow> Some (case map_of (shards a) n of None \<Rightarrow> y | Some x \<Rightarrow> pick_shard x y))"
  by (simp add: tracks_def counter_merge_bt get_bt_merge bt_ok_distinct split: option.splits)

lemma tracksE:
  assumes "tracks h c" "short_histories h" "map_of (shards c) n = Some x"
  obtains j where "0 < j" "j \<le> length (h n)" "j < clock_bound" "x = prefix_shard n (h n) j"
proof -
  obtain j where j: "0 < j" "j \<le> length (h n)" "x = prefix_shard n (h n) j"
    using assms(1,3) by (auto simp: tracks_def)
  moreover have "j < clock_bound"
    using assms(2) j(2) le_less_trans by (auto simp: short_histories_def)
  ultimately show thesis using that by blast
qed

lemma tracks_None:
  assumes "tracks h c" "h n = []"
  shows "map_of (shards c) n = None"
proof (cases "map_of (shards c) n")
  case (Some x)
  then obtain j where "0 < j" "j \<le> length (h n)" using assms(1) by (auto simp: tracks_def)
  with assms(2) show ?thesis by simp
qed

lemma tracks_merge:
  assumes "short_histories h" "tracks h a" "tracks h b"
  shows "tracks h (counter_merge a b)"
  unfolding tracks_def
proof (intro conjI allI impI)
  show "bt_ok (shards (counter_merge a b))"
    using assms by (simp add: tracks_def counter_merge_bt bt_ok_merge)
  fix n s assume s: "map_of (shards (counter_merge a b)) n = Some s"
  consider "map_of (shards a) n = Some s" | "map_of (shards b) n = Some s"
    | x y where "map_of (shards a) n = Some x" "map_of (shards b) n = Some y" "s = pick_shard x y"
    using s unfolding get_counter_merge [OF assms(2,3)] by (auto split: option.splits)
  then show "\<exists>j. 0 < j \<and> j \<le> length (h n) \<and> s = prefix_shard n (h n) j"
  proof cases
    case 3
    obtain i where i: "0 < i" "i \<le> length (h n)" "i < clock_bound" "x = prefix_shard n (h n) i"
      using tracksE [OF assms(2,1) 3(1)] .
    obtain j where j: "0 < j" "j \<le> length (h n)" "j < clock_bound" "y = prefix_shard n (h n) j"
      using tracksE [OF assms(3,1) 3(2)] .
    from i j have "s = prefix_shard n (h n) (max i j)" using 3(3) by (simp add: pick_prefix)
    with i j show ?thesis by (intro exI [of _ "max i j"]) auto
  qed (use assms(2,3) in \<open>auto simp: tracks_def\<close>)
qed

lemma has_all_merge:
  assumes "short_histories h" "tracks h a" "tracks h b" "has_all h n a \<or> has_all h n b"
  shows "has_all h n (counter_merge a b)"
  unfolding has_all_def
proof
  assume ne: "h n \<noteq> []"
  let ?full = "prefix_shard n (h n) (length (h n))"
  have len: "length (h n) < clock_bound" using assms(1) by (simp add: short_histories_def)
  from assms(4) ne consider "map_of (shards a) n = Some ?full" | "map_of (shards b) n = Some ?full"
    by (auto simp: has_all_def)
  then show "map_of (shards (counter_merge a b)) n = Some ?full"
  proof cases
    case 1
    have "pick_shard ?full y = ?full" if "map_of (shards b) n = Some y" for y
      by (rule tracksE [OF assms(3,1) that]) (simp add: pick_prefix len max_absorb1)
    with 1 show ?thesis unfolding get_counter_merge [OF assms(2,3)] by (simp split: option.splits)
  next
    case 2
    have "pick_shard x ?full = ?full" if "map_of (shards a) n = Some x" for x
      by (rule tracksE [OF assms(2,1) that]) (simp add: pick_prefix len max_absorb2)
    with 2 show ?thesis unfolding get_counter_merge [OF assms(2,3)] by (simp split: option.splits)
  qed
qed

definition cluster_inv :: "'n::linorder cluster \<Rightarrow> bool" where
  "cluster_inv s \<longleftrightarrow> (\<forall>n. tracks (history s) (replicas s n) \<and> has_all (history s) n (replicas s n))"

lemma tracks_update:
  assumes "tracks h c"
  shows "tracks (h(n := h n @ [d])) c"
  unfolding tracks_def
proof (intro conjI allI impI)
  show "bt_ok (shards c)" using assms by (simp add: tracks_def)
  fix k s assume "map_of (shards c) k = Some s"
  then obtain j where "0 < j" "j \<le> length (h k)" "s = prefix_shard k (h k) j"
    using assms by (auto simp: tracks_def)
  then show "\<exists>j. 0 < j \<and> j \<le> length ((h(n := h n @ [d])) k) \<and>
      s = prefix_shard k ((h(n := h n @ [d])) k) j"
    by (intro exI [of _ j]) (auto simp: prefix_shard_def)
qed

lemma apply_local_shard:
  assumes "tracks h c" "has_all h n c"
  shows "map_of (shards (apply_local n d c)) =
    (map_of (shards c))(n \<mapsto> prefix_shard n (h n @ [d]) (length (h n @ [d])))"
proof (cases "h n = []")
  case True
  with assms(1) have "map_of (shards c) n = None" by (rule tracks_None)
  with True show ?thesis
    by (simp add: apply_local_def update_entry_def empty_shard_def prefix_shard_def)
next
  case False
  with assms(2) show ?thesis
    by (simp add: has_all_def apply_local_def update_entry_def prefix_shard_def add.commute)
qed

lemma cluster_inv_step:
  assumes "cluster_inv s" "cluster_step s s'" "short_histories (history s)"
  shows "cluster_inv s'"
  using assms(2)
proof cases
  case (update n d)
  let ?h = "(history s)(n := history s n @ [d])"
  let ?c = "apply_local n d (replicas s n)"
  have inv: "tracks (history s) (replicas s k)" "has_all (history s) k (replicas s k)" for k
    using assms(1) by (auto simp: cluster_inv_def)
  have get: "map_of (shards ?c) = (map_of (shards (replicas s n)))(n \<mapsto> prefix_shard n (?h n) (length (?h n)))"
    using apply_local_shard [OF inv] by simp
  have "bt_ok (shards ?c)"
    using inv(1) [of n] by (auto simp: apply_local_def update_entry_def tracks_def intro: bt_ok_insert)
  moreover have "\<exists>j. 0 < j \<and> j \<le> length (?h k) \<and> x = prefix_shard k (?h k) j"
    if "map_of (shards ?c) k = Some x" for k x
  proof (cases "k = n")
    case True
    with that get show ?thesis by (intro exI [of _ "length (?h n)"]) auto
  next
    case False
    with that get have "map_of (shards (replicas s n)) k = Some x" by simp
    with tracks_update [OF inv(1) [of n], of n d] show ?thesis unfolding tracks_def by blast
  qed
  ultimately have "tracks ?h ?c" unfolding tracks_def by blast
  moreover have "has_all ?h n ?c" by (simp add: has_all_def get)
  ultimately show ?thesis
    using update inv tracks_update [OF inv(1)] by (auto simp: cluster_inv_def has_all_def)
next
  case (gossip n m)
  with assms show ?thesis
    by (auto simp: cluster_inv_def intro: tracks_merge has_all_merge)
qed

lemma short_histories_step:
  "cluster_step s s' \<Longrightarrow> short_histories (history s') \<Longrightarrow> short_histories (history s)"
  by (erule cluster_stepE) (auto simp: short_histories_def split: if_splits intro: Suc_lessD)

lemma cluster_inv_reachable:
  "cluster_reachable s \<Longrightarrow> short_histories (history s) \<Longrightarrow> cluster_inv s"
proof (induction rule: cluster_reachable.induct)
  case start
  show ?case by (simp add: cluster_inv_def tracks_def has_all_def counter_new_def)
next
  case (step s s')
  then show ?case using short_histories_step cluster_inv_step by blast
qed

lemma total_nodes:
  assumes "bt_ok (shards c)" "distinct nodes" "set (bt_keys (shards c)) \<subseteq> set nodes"
  shows "total c = sum_list (map (\<lambda>n. case map_of (shards c) n of None \<Rightarrow> 0 | Some s \<Rightarrow> count s) nodes)"
    (is "_ = sum_list (map ?f nodes)")
proof -
  have d: "distinct (bt_keys (shards c))" using assms(1) by (rule bt_ok_distinct)
  have "total c = sum_list (map ?f (bt_keys (shards c)))"
    unfolding total_def using d by (auto intro!: arg_cong [where f = sum_list])
  also have "\<dots> = sum ?f (set (bt_keys (shards c)))"
    using d by (rule sum_list_distinct_conv_sum_set)
  also have "\<dots> = sum ?f (set nodes)"
    by (rule sum.mono_neutral_left) (use assms(3) in \<open>auto simp flip: map_of_eq_None_iff\<close>)
  also have "\<dots> = sum_list (map ?f nodes)"
    using assms(2) by (rule sum_list_distinct_conv_sum_set [symmetric])
  finally show ?thesis .
qed

text \<open>
  C4. No increment is lost or counted twice: in every state that a cluster reaches by local
  updates and merges in any order, merging the contexts of all nodes yields a counter whose
  value is the sum of all increments applied anywhere, as long as no node made \<open>2 ^ 63\<close>
  updates.
\<close>

theorem counter_counts_every_increment_once:
  assumes "cluster_reachable s" "short_histories (history s)"
    and "distinct nodes" "\<forall>n. history s n \<noteq> [] \<longrightarrow> n \<in> set nodes"
  shows "total (foldl counter_merge counter_new (map (replicas s) nodes)) =
    sum_list (map (\<lambda>n. sum_list (history s n)) nodes)"
proof -
  let ?h = "history s"
  have inv: "tracks ?h (replicas s n)" "has_all ?h n (replicas s n)" for n
    using cluster_inv_reachable [OF assms(1,2)] by (auto simp: cluster_inv_def)
  have fold: "tracks ?h (foldl counter_merge c (map (replicas s) ns)) \<and>
      (\<forall>n. has_all ?h n c \<or> n \<in> set ns \<longrightarrow> has_all ?h n (foldl counter_merge c (map (replicas s) ns)))"
    if "tracks ?h c" for ns c
    using that
  proof (induction ns arbitrary: c)
    case (Cons n ns)
    then show ?case
      using tracks_merge [OF assms(2) Cons.prems inv(1)] has_all_merge [OF assms(2) Cons.prems inv(1)] inv(2)
      by auto
  qed simp
  let ?c = "foldl counter_merge counter_new (map (replicas s) nodes)"
  have "tracks ?h counter_new" by (simp add: tracks_def counter_new_def)
  then have c: "tracks ?h ?c" "\<And>n. n \<in> set nodes \<Longrightarrow> has_all ?h n ?c"
    using fold by blast+
  have get: "map_of (shards ?c) n = (if ?h n = [] then None else Some (prefix_shard n (?h n) (length (?h n))))" for n
    using tracks_None [OF c(1), of n] c(2) [of n] assms(4) by (auto simp: has_all_def)
  have "set (bt_keys (shards ?c)) \<subseteq> set nodes"
    using assms(4) get by (auto simp flip: dom_map_of_conv_image_fst split: if_splits)
  then have "total ?c = sum_list (map (\<lambda>n. case map_of (shards ?c) n of None \<Rightarrow> 0 | Some s \<Rightarrow> count s) nodes)"
    using c(1) assms(3) by (intro total_nodes) (auto simp: tracks_def)
  also have "\<dots> = sum_list (map (\<lambda>n. sum_list (?h n)) nodes)"
    by (rule arg_cong [where f = sum_list], rule map_cong) (simp_all add: get prefix_shard_def)
  finally show ?thesis .
qed

theorem counter_counts_every_increment_once_witness:
  "\<exists>s :: nat cluster. cluster_reachable s \<and> history s 1 = [5] \<and> replicas s 2 \<noteq> counter_new \<and>
     total (foldl counter_merge counter_new (map (replicas s) [1, 2])) = 5"
proof -
  define s0 :: "nat cluster" where "s0 = \<lparr>replicas = \<lambda>_. counter_new, history = \<lambda>_. []\<rparr>"
  define s1 where "s1 = s0\<lparr>replicas := (replicas s0)(1 := apply_local 1 5 (replicas s0 1)),
               history := (history s0)(1 := history s0 1 @ [5])\<rparr>"
  define s2 where "s2 = s1\<lparr>replicas := (replicas s1)(2 := counter_merge (replicas s1 2) (replicas s1 1))\<rparr>"
  have "cluster_reachable s0" unfolding s0_def by (rule cluster_reachable.start)
  moreover have "cluster_step s0 s1" unfolding s1_def by (rule cluster_step.update)
  moreover have "cluster_step s1 s2" unfolding s2_def by (rule cluster_step.gossip)
  ultimately have reach: "cluster_reachable s2" by (blast intro: cluster_reachable.step)
  have h: "history s2 = (\<lambda>_. [])(1 := [5])" by (simp add: s2_def s1_def s0_def)
  have two: "replicas s2 2 \<noteq> counter_new"
    by (simp add: s2_def s1_def s0_def counter_merge_def counter_new_def apply_local_def update_entry_def
        merge_shard_def)
  have "total (foldl counter_merge counter_new (map (replicas s2) [1, 2])) =
      sum_list (map (\<lambda>n. sum_list (history s2 n)) [1, 2])"
    by (rule counter_counts_every_increment_once [OF reach])
      (auto simp: short_histories_def clock_bound_def h)
  also have "\<dots> = 5" by (simp add: h)
  finally show ?thesis using reach h two by (intro exI [of _ s2]) (simp del: foldl.simps list.map)
qed

end
