(* ===== verification/Ring.thy ===== *)
theory Ring
  imports Tokens Ordered_Map "HOL-Library.AList"
begin

text \<open>
  The token ring (\<open>cluster-metadata/src/ring.rs\<close>).  \<open>BTreeMap\<close>s are the maps of
  \<open>Ordered_Map\<close>.  A \<open>HashMap\<close> whose keys the code lists is an association list with
  distinct keys, in whatever order the table has; a \<open>HashSet\<close> is a set.  An endpoint
  is a socket address that the ring only compares, so its type is left open.

  The lemmas show that the reverse map is exact after every sequence of operations, that
  the walk for natural endpoints computes the first distinct owners clockwise, that the
  owner of a token is the node whose range contains it, and that a leaving node only
  moves its own replicas.
\<close>

section \<open>The ring and its operations\<close>

record 'e token_ring =
  tr_entries :: "(token, 'e) btree_map"
  endpoint_tokens :: "('e \<times> token set) list"
  pending_ranges :: "(token, 'e list) btree_map"

definition ring_new :: "'e token_ring" where
  "ring_new = \<lparr>tr_entries = [], endpoint_tokens = [], pending_ranges = []\<rparr>"

definition token_count :: "'e token_ring \<Rightarrow> nat" where
  "token_count r = length (tr_entries r)"

definition endpoint_count :: "'e token_ring \<Rightarrow> nat" where
  "endpoint_count r = length (endpoint_tokens r)"

definition ring_is_empty :: "'e token_ring \<Rightarrow> bool" where
  "ring_is_empty r \<longleftrightarrow> tr_entries r = []"

definition disown :: "'e \<Rightarrow> token \<Rightarrow> ('e \<times> token set) list \<Rightarrow> ('e \<times> token set) list" where
  "disown old_ep t m =
     (case map_of m old_ep of
        None \<Rightarrow> m
      | Some ts \<Rightarrow>
          if ts - {t} = {} then AList.delete old_ep m else AList.update old_ep (ts - {t}) m)"

definition add_token :: "token \<Rightarrow> 'e \<Rightarrow> 'e token_ring \<Rightarrow> 'e token_ring" where
  "add_token t ep r =
     (let m = (case map_of (tr_entries r) t of
                 None \<Rightarrow> endpoint_tokens r
               | Some old_ep \<Rightarrow>
                   if old_ep \<noteq> ep then disown old_ep t (endpoint_tokens r)
                   else endpoint_tokens r);
          ts = (case map_of m ep of None \<Rightarrow> {} | Some ts \<Rightarrow> ts)
      in r\<lparr>tr_entries := bt_insert t ep (tr_entries r),
           endpoint_tokens := AList.update ep (insert t ts) m\<rparr>)"

definition add_node :: "'e \<Rightarrow> token list \<Rightarrow> 'e token_ring \<Rightarrow> 'e token_ring" where
  "add_node ep tokens r = fold (\<lambda>t. add_token t ep) tokens r"

definition remove_node :: "'e \<Rightarrow> 'e token_ring \<Rightarrow> 'e token_ring" where
  "remove_node ep r =
     (case map_of (endpoint_tokens r) ep of
        None \<Rightarrow> r
      | Some ts \<Rightarrow>
          r\<lparr>endpoint_tokens := AList.delete ep (endpoint_tokens r),
            tr_entries := fold bt_remove (sorted_list_of_set ts) (tr_entries r)\<rparr>)"

definition primary_endpoint :: "'e token_ring \<Rightarrow> token \<Rightarrow> 'e option" where
  "primary_endpoint r t =
     (if tr_entries r = [] then None
      else case bt_range_from t (tr_entries r) of
             (_, ep) # _ \<Rightarrow> Some ep
           | [] \<Rightarrow> (case bt_values (tr_entries r) of [] \<Rightarrow> None | ep # _ \<Rightarrow> Some ep))"

text \<open>One of the two loops of \<open>natural_endpoints\<close>; \<open>Inl\<close> is the early return.\<close>

fun walk_loop ::
  "nat \<Rightarrow> (token \<times> 'e) list \<Rightarrow> 'e set \<Rightarrow> 'e list \<Rightarrow> 'e list + 'e set \<times> 'e list" where
  "walk_loop count [] seen result = Inr (seen, result)"
| "walk_loop count ((_, ep) # es) seen result =
     (if ep \<notin> seen then
        (if count \<le> length (result @ [ep]) then Inl (result @ [ep])
         else walk_loop count es (insert ep seen) (result @ [ep]))
      else walk_loop count es seen result)"

definition natural_endpoints :: "'e token_ring \<Rightarrow> token \<Rightarrow> nat \<Rightarrow> 'e list" where
  "natural_endpoints r t count =
     (if tr_entries r = [] \<or> count = 0 then []
      else case walk_loop count (bt_range_from t (tr_entries r)) {} [] of
             Inl result \<Rightarrow> result
           | Inr (seen, result) \<Rightarrow>
               (case walk_loop count (tr_entries r) seen result of
                  Inl result \<Rightarrow> result
                | Inr (_, result) \<Rightarrow> result))"

definition all_endpoints :: "'e token_ring \<Rightarrow> 'e list" where
  "all_endpoints r = map fst (endpoint_tokens r)"

definition tokens_for :: "'e token_ring \<Rightarrow> 'e \<Rightarrow> token list" where
  "tokens_for r ep =
     (case map_of (endpoint_tokens r) ep of
        None \<Rightarrow> []
      | Some s \<Rightarrow> sorted_list_of_set s)"

definition previous_token :: "'e token_ring \<Rightarrow> token \<Rightarrow> token option" where
  "previous_token r t =
     (if tr_entries r = [] then None
      else if bt_range_below t (tr_entries r) \<noteq> []
      then Some (fst (last (bt_range_below t (tr_entries r))))
      else Some (last (bt_keys (tr_entries r))))"

definition add_pending_range :: "token \<Rightarrow> 'e \<Rightarrow> 'e token_ring \<Rightarrow> 'e token_ring" where
  "add_pending_range t ep r =
     (let eps = (case map_of (pending_ranges r) t of None \<Rightarrow> [] | Some eps \<Rightarrow> eps)
      in r\<lparr>pending_ranges :=
             bt_insert t (if ep \<in> set eps then eps else eps @ [ep]) (pending_ranges r)\<rparr>)"

definition remove_pending_ranges_for :: "'e \<Rightarrow> 'e token_ring \<Rightarrow> 'e token_ring" where
  "remove_pending_ranges_for ep r =
     r\<lparr>pending_ranges :=
         filter (\<lambda>e. snd e \<noteq> [])
           (map (\<lambda>e. (fst e, filter (\<lambda>x. x \<noteq> ep) (snd e))) (pending_ranges r))\<rparr>"

definition clear_pending_ranges :: "'e token_ring \<Rightarrow> 'e token_ring" where
  "clear_pending_ranges r = r\<lparr>pending_ranges := []\<rparr>"

definition pending_endpoints_for :: "'e token_ring \<Rightarrow> token \<Rightarrow> 'e list" where
  "pending_endpoints_for r t =
     (if pending_ranges r = [] then []
      else case bt_range_from t (pending_ranges r) of
             (_, eps) # _ \<Rightarrow> eps
           | [] \<Rightarrow> (case bt_values (pending_ranges r) of [] \<Rightarrow> [] | eps # _ \<Rightarrow> eps))"

definition has_pending_ranges :: "'e token_ring \<Rightarrow> bool" where
  "has_pending_ranges r \<longleftrightarrow> pending_ranges r \<noteq> []"

definition write_replicas :: "'e token_ring \<Rightarrow> token \<Rightarrow> nat \<Rightarrow> 'e list" where
  "write_replicas r t natural_count =
     fold push_new (pending_endpoints_for r t) (natural_endpoints r t natural_count)"

section \<open>The reverse map is exact\<close>

definition owned :: "('e \<times> token set) list \<Rightarrow> 'e \<Rightarrow> token set" where
  "owned m ep = (case map_of m ep of None \<Rightarrow> {} | Some ts \<Rightarrow> ts)"

definition pending_ok :: "(token, 'e list) btree_map \<Rightarrow> bool" where
  "pending_ok m \<longleftrightarrow> bt_ok m \<and> bt_all (\<lambda>_ eps. eps \<noteq> [] \<and> distinct eps) m"

definition ring_ok :: "'e token_ring \<Rightarrow> bool" where
  "ring_ok r \<longleftrightarrow>
     bt_ok (tr_entries r) \<and> distinct (map fst (endpoint_tokens r)) \<and>
     (\<forall>ep t. map_of (tr_entries r) t = Some ep \<longleftrightarrow> t \<in> owned (endpoint_tokens r) ep) \<and>
     (\<forall>ep. map_of (endpoint_tokens r) ep \<noteq> Some {}) \<and>
     pending_ok (pending_ranges r)"

lemma ring_okD:
  assumes "ring_ok r"
  shows "bt_ok (tr_entries r)" "distinct (map fst (endpoint_tokens r))"
    "map_of (tr_entries r) t = Some ep \<longleftrightarrow> t \<in> owned (endpoint_tokens r) ep"
    "map_of (endpoint_tokens r) ep \<noteq> Some {}"
  using assms by (simp_all add: ring_ok_def)

lemma owned_finite:
  assumes "ring_ok r"
  shows "finite (owned (endpoint_tokens r) ep)"
proof (rule finite_subset)
  show "owned (endpoint_tokens r) ep \<subseteq> dom (map_of (tr_entries r))"
    using ring_okD(3) [OF assms] by blast
qed (simp add: finite_dom_map_of)

lemma owned_update [simp]: "owned (AList.update ep ts m) = (owned m)(ep := ts)"
  by (auto simp: owned_def update_conv' fun_eq_iff)

lemma owned_delete [simp]: "owned (AList.delete ep m) = (owned m)(ep := {})"
  by (auto simp: owned_def delete_conv' fun_eq_iff)

lemma owned_disown [simp]: "owned (disown ep t m) = (owned m)(ep := owned m ep - {t})"
  by (auto simp: disown_def fun_eq_iff split: option.splits) (auto simp: owned_def)

lemma disown_keeps:
  assumes "distinct (map fst m)" "\<And>ep. map_of m ep \<noteq> Some {}"
  shows "distinct (map fst (disown old t m))" "map_of (disown old t m) ep \<noteq> Some {}"
  using assms
  by (simp_all add: disown_def update_conv' delete_conv' distinct_update distinct_delete
      del: map_of_eq_Some_iff split: option.split)

lemma ring_ok_new [simp]: "ring_ok ring_new"
  by (simp add: ring_ok_def ring_new_def owned_def pending_ok_def)

lemma ring_ok_add_token [bt_intro]:
  assumes "ring_ok r"
  shows "ring_ok (add_token t ep r)"
proof -
  let ?old = "map_of (tr_entries r) t"
  let ?m = "case ?old of None \<Rightarrow> endpoint_tokens r
            | Some old \<Rightarrow> if old \<noteq> ep then disown old t (endpoint_tokens r) else endpoint_tokens r"
  have r: "bt_ok (tr_entries r)" "distinct (map fst (endpoint_tokens r))"
    "\<And>ep t. map_of (tr_entries r) t = Some ep \<longleftrightarrow> t \<in> owned (endpoint_tokens r) ep"
    "\<And>ep. map_of (endpoint_tokens r) ep \<noteq> Some {}" "pending_ok (pending_ranges r)"
    using assms unfolding ring_ok_def by blast+
  have m: "distinct (map fst ?m)" "\<And>ep. map_of ?m ep \<noteq> Some {}"
    using disown_keeps [OF r(2,4)] r(2,4)
    by (simp_all del: map_of_eq_Some_iff split: option.split)
  have own: "t' \<in> owned ?m e \<longleftrightarrow> map_of (tr_entries r) t' = Some e" if "t' \<noteq> t \<or> e = ep" for t' e
    using that r(3) [of t' e] r(3) [of t e]
    by (cases ?old) (auto simp del: map_of_eq_Some_iff)
  have lost: "t \<notin> owned ?m e" if "e \<noteq> ep" for e
    using that r(3) [of t e] by (cases ?old) (auto simp del: map_of_eq_Some_iff)
  have upd: "add_token t ep r = r\<lparr>tr_entries := bt_insert t ep (tr_entries r),
      endpoint_tokens := AList.update ep (insert t (owned ?m ep)) ?m\<rparr>"
    by (simp add: add_token_def owned_def Let_def)
  have "map_of (bt_insert t ep (tr_entries r)) t' = Some e \<longleftrightarrow>
      t' \<in> owned (AList.update ep (insert t (owned ?m ep)) ?m) e" for t' e
    using own [of t' e] lost [of e] by (cases "t' = t") (auto simp del: owned_disown)
  moreover have "distinct (map fst (AList.update ep (insert t (owned ?m ep)) ?m))"
    using m(1) by (rule distinct_update)
  ultimately show ?thesis
    using r m(2) unfolding upd ring_ok_def
    by (simp add: bt_ok_insert update_conv' del: owned_update map_of_eq_Some_iff)
qed

lemma ring_ok_add_node [bt_intro]: "ring_ok r \<Longrightarrow> ring_ok (add_node ep ts r)"
  unfolding add_node_def by (induction ts arbitrary: r) (auto intro: ring_ok_add_token)

lemma fold_bt_remove: "fold bt_remove ks m = filter (\<lambda>e. fst e \<notin> set ks) m"
  by (induction ks arbitrary: m) (auto simp: bt_remove_def intro!: filter_cong)

lemma remove_node_entries:
  assumes "ring_ok r"
  shows "tr_entries (remove_node ep r) = filter (\<lambda>e. snd e \<noteq> ep) (tr_entries r)"
proof -
  have "fst e \<in> owned (endpoint_tokens r) ep \<longleftrightarrow> snd e = ep" if "e \<in> set (tr_entries r)" for e
    using ring_okD(3) [OF assms, of "fst e" ep] that bt_ok_distinct [OF ring_okD(1) [OF assms]]
    by (cases e) (auto simp: map_of_eq_Some_iff dest: eq_key_imp_eq_value)
  then show ?thesis
    using owned_finite [OF assms, of ep]
    by (auto simp: remove_node_def fold_bt_remove owned_def intro!: filter_cong filter_True [symmetric]
        split: option.splits)
qed

lemma ring_ok_remove_node [bt_intro]:
  assumes "ring_ok r"
  shows "ring_ok (remove_node ep r)"
proof -
  have ok: "bt_ok (tr_entries r)" by (rule ring_okD(1) [OF assms])
  have "map_of (filter (\<lambda>e. snd e \<noteq> ep) (tr_entries r)) t
      = (case map_of (tr_entries r) t of None \<Rightarrow> None | Some v \<Rightarrow> if v \<noteq> ep then Some v else None)" for t
    using get_filter_distinct [OF bt_ok_distinct [OF ok], of "\<lambda>_ v. v \<noteq> ep"] .
  then have get: "map_of (tr_entries (remove_node ep r)) t = Some e \<longleftrightarrow>
      e \<noteq> ep \<and> map_of (tr_entries r) t = Some e" for t e
    by (auto simp: remove_node_entries [OF assms] split: option.splits)
  have et: "endpoint_tokens (remove_node ep r) = AList.delete ep (endpoint_tokens r)"
    by (auto simp: remove_node_def delete_id map_of_eq_None_iff split: option.splits)
  have pr: "pending_ranges (remove_node ep r) = pending_ranges r"
    by (simp add: remove_node_def split: option.splits)
  show ?thesis
    using assms unfolding ring_ok_def et pr get
    by (simp add: remove_node_entries [OF assms] sorted_wrt_keys_filter distinct_delete delete_conv'
        del: map_of_eq_Some_iff)
qed

lemma pending_retain:
  assumes "pending_ok m"
  shows "pending_ok (filter (\<lambda>e. snd e \<noteq> []) (map (\<lambda>e. (fst e, filter P (snd e))) m))"
    (is "pending_ok (?f m)")
proof -
  have "bt_ok (?f m)"
  proof -
    have "bt_ok (map (\<lambda>e. (fst e, filter P (snd e))) m)"
      using assms by (simp add: pending_ok_def bt_ok_def comp_def)
    then show ?thesis by (rule sorted_wrt_keys_filter)
  qed
  with assms show ?thesis by (auto simp: pending_ok_def bt_all_def)
qed

lemma ring_ok_pending [bt_intro]:
  assumes "ring_ok r"
  shows "ring_ok (add_pending_range t ep r)" "ring_ok (remove_pending_ranges_for ep r)"
    "ring_ok (clear_pending_ranges r)"
proof -
  have p: "pending_ok (pending_ranges r)" using assms by (simp add: ring_ok_def)
  then have "pending_ok (pending_ranges (add_pending_range t ep r))"
    by (auto simp: add_pending_range_def Let_def pending_ok_def split: option.splits
        intro!: bt_ok_insert bt_all_insert dest: bt_all_get simp del: map_of_eq_Some_iff)
  with assms show "ring_ok (add_pending_range t ep r)"
    by (simp add: ring_ok_def add_pending_range_def Let_def)
  from p have "pending_ok (pending_ranges (remove_pending_ranges_for ep r))"
    by (simp add: remove_pending_ranges_for_def pending_retain)
  with assms show "ring_ok (remove_pending_ranges_for ep r)"
    by (simp add: ring_ok_def remove_pending_ranges_for_def)
  from assms show "ring_ok (clear_pending_ranges r)"
    by (simp add: ring_ok_def clear_pending_ranges_def pending_ok_def)
qed

lemma set_tokens_for: "ring_ok r \<Longrightarrow> set (tokens_for r ep) = owned (endpoint_tokens r) ep"
  using owned_finite [of r ep] by (auto simp: tokens_for_def owned_def split: option.splits)

lemma all_endpoints_owners:
  assumes "ring_ok r"
  shows "set (all_endpoints r) = snd ` set (tr_entries r)"
proof -
  have "ep \<in> set (all_endpoints r) \<longleftrightarrow> owned (endpoint_tokens r) ep \<noteq> {}" for ep
    using ring_okD(4) [OF assms, of ep] map_of_eq_None_iff [of "endpoint_tokens r" ep]
    by (cases "map_of (endpoint_tokens r) ep")
      (auto simp: all_endpoints_def owned_def simp del: map_of_eq_Some_iff)
  moreover have "owned (endpoint_tokens r) ep \<noteq> {} \<longleftrightarrow> ep \<in> snd ` set (tr_entries r)" for ep
    using ring_okD(3) [OF assms, of _ ep] bt_ok_distinct [OF ring_okD(1) [OF assms]]
    by (force simp: map_of_eq_Some_iff)
  ultimately show ?thesis by blast
qed

lemma endpoint_count_owners: "ring_ok r \<Longrightarrow> endpoint_count r = card (snd ` set (tr_entries r))"
  using distinct_card [of "all_endpoints r"] ring_okD(2) [of r] all_endpoints_owners [of r]
  by (simp add: all_endpoints_def endpoint_count_def)

datatype 'e ring_op =
  AddToken token 'e
| AddNode 'e "token list"
| RemoveNode 'e
| AddPendingRange token 'e
| RemovePendingRangesFor 'e
| ClearPendingRanges

fun ring_step :: "'e ring_op \<Rightarrow> 'e token_ring \<Rightarrow> 'e token_ring" where
  "ring_step (AddToken t ep) r = add_token t ep r"
| "ring_step (AddNode ep ts) r = add_node ep ts r"
| "ring_step (RemoveNode ep) r = remove_node ep r"
| "ring_step (AddPendingRange t ep) r = add_pending_range t ep r"
| "ring_step (RemovePendingRangesFor ep) r = remove_pending_ranges_for ep r"
| "ring_step ClearPendingRanges r = clear_pending_ranges r"

lemma ring_ok_step [bt_intro]: "ring_ok r \<Longrightarrow> ring_ok (ring_step op r)"
  by (cases op) (auto intro: bt_intro)

lemma ring_ok_steps: "ring_ok r \<Longrightarrow> ring_ok (fold ring_step ops r)"
  by (induction ops arbitrary: r) (auto intro: ring_ok_step)

text \<open>
  C23. The two maps of the ring agree after every sequence of operations: tokens are strictly
  increasing, an endpoint owns a token exactly when \<open>tokens_for\<close> lists it, and
  \<open>all_endpoints\<close> lists, once each, the owners of some token and no one else, although
  \<open>add_token\<close> reassigns tokens and drops nodes that lost their last one.
\<close>

theorem ring_reverse_map_exact:
  "let r = fold ring_step ops ring_new in
     sorted_wrt (<) (bt_keys (tr_entries r)) \<and>
     (map_of (tr_entries r) t = Some ep \<longleftrightarrow> t \<in> set (tokens_for r ep)) \<and>
     distinct (all_endpoints r) \<and>
     (ep \<in> set (all_endpoints r) \<longleftrightarrow> (\<exists>t. map_of (tr_entries r) t = Some ep)) \<and>
     endpoint_count r = card (set (bt_values (tr_entries r)))"
proof -
  define r :: "'a token_ring" where "r = fold ring_step ops ring_new"
  have ok: "ring_ok r" unfolding r_def by (rule ring_ok_steps) simp
  have "ep \<in> set (all_endpoints r) \<longleftrightarrow> (\<exists>t. map_of (tr_entries r) t = Some ep)"
    using bt_ok_distinct [OF ring_okD(1) [OF ok]] all_endpoints_owners [OF ok]
    by (force simp: map_of_eq_Some_iff)
  moreover have "distinct (all_endpoints r)"
    using ring_okD(2) [OF ok] by (simp add: all_endpoints_def)
  ultimately show ?thesis
    using ring_okD(1) [OF ok, unfolded bt_ok_def] ring_okD(3) [OF ok]
    by (simp add: r_def [symmetric] set_tokens_for [OF ok] endpoint_count_owners [OF ok])
qed

section \<open>The clockwise walk\<close>

definition clockwise :: "'e token_ring \<Rightarrow> token \<Rightarrow> 'e list" where
  "clockwise r t =
     map snd (bt_range_from t (tr_entries r) @ bt_range_below t (tr_entries r))"

lemma bt_range_split: "bt_ok m \<Longrightarrow> bt_range_below k m @ bt_range_from k m = m"
proof (induction m)
  case (Cons e m)
  show ?case
  proof (cases "k \<le> fst e")
    case True
    with Cons.prems have "\<forall>x \<in> set m. k < fst x" by (auto simp: bt_ok_Cons)
    then have "filter (\<lambda>x. fst x < k) m = []" "filter (\<lambda>x. k \<le> fst x) m = m"
      by (auto simp: filter_empty_conv filter_id_conv)
    with True show ?thesis by (simp add: bt_range_below_def bt_range_from_def)
  next
    case False
    with Cons show ?thesis
      by (simp add: bt_range_below_def bt_range_from_def bt_ok_Cons not_le)
  qed
qed (simp add: bt_range_below_def bt_range_from_def)

lemma set_clockwise: "set (clockwise r t) = snd ` set (tr_entries r)"
proof -
  have "set (bt_range_from t (tr_entries r)) \<union> set (bt_range_below t (tr_entries r)) = set (tr_entries r)"
    by (auto simp: bt_range_from_def bt_range_below_def)
  then show ?thesis by (simp add: clockwise_def flip: image_Un)
qed

lemma walk_loop_firsts:
  assumes "seen = set result" "distinct result" "length result < count"
  shows "case walk_loop count es seen result of
      Inl res \<Rightarrow> res = take count (fold push_new (map snd es) result) \<and>
                 count \<le> length (fold push_new (map snd es) result)
    | Inr (s, res) \<Rightarrow> s = set res \<and> res = fold push_new (map snd es) result \<and>
                 distinct res \<and> length res < count"
  using assms
proof (induction count es seen result rule: walk_loop.induct)
  case (2 count t ep es seen result)
  obtain zs where zs: "fold push_new (map snd es) (result @ [ep]) = (result @ [ep]) @ zs"
    using fold_push_new_prefix by blast
  show ?case
  proof (cases "ep \<in> seen")
    case True
    with 2 show ?thesis by (simp split: sum.splits prod.splits)
  next
    case False
    moreover have "count - length result = Suc 0" if "count \<le> Suc (length result)"
      using that "2.prems"(3) by simp
    ultimately show ?thesis
      using 2 zs by (cases "count \<le> length (result @ [ep])") (simp_all split: sum.splits prod.splits)
  qed
qed simp

lemma natural_endpoints_eq:
  assumes "ring_ok r"
  shows "natural_endpoints r t n = take n (firsts (clockwise r t))"
proof (cases "tr_entries r = [] \<or> n = 0")
  case True
  then show ?thesis
    by (auto simp: natural_endpoints_def clockwise_def bt_range_from_def bt_range_below_def)
next
  case False
  let ?from = "bt_range_from t (tr_entries r)" and ?below = "bt_range_below t (tr_entries r)"
  have split: "?below @ ?from = tr_entries r"
    by (rule bt_range_split [OF ring_okD(1) [OF assms]])
  have again: "fold push_new (map snd (tr_entries r)) (fold push_new (map snd ?from) [])
      = firsts (clockwise r t)"
    by (subst split [symmetric]) (simp add: clockwise_def)
  obtain zs where zs: "fold push_new (map snd ?below) (fold push_new (map snd ?from) [])
      = fold push_new (map snd ?from) [] @ zs"
    using fold_push_new_prefix by blast
  show ?thesis
  proof (cases "walk_loop n ?from {} []")
    case (Inl res)
    then show ?thesis
      using False walk_loop_firsts [of "{}" "[]" n ?from] zs
      by (simp add: natural_endpoints_def clockwise_def)
  next
    case (Inr p)
    then show ?thesis
      using False walk_loop_firsts [of "{}" "[]" n ?from]
        walk_loop_firsts [of "fst p" "snd p" n "tr_entries r"] again
      by (auto simp: natural_endpoints_def split: sum.splits prod.splits)
  qed
qed

lemma primary_endpoint_eq:
  assumes "ring_ok r"
  shows "primary_endpoint r t = (case clockwise r t of [] \<Rightarrow> None | ep # _ \<Rightarrow> Some ep)"
proof (cases "bt_range_from t (tr_entries r)")
  case Nil
  then have "bt_range_below t (tr_entries r) = tr_entries r"
    using bt_range_split [OF ring_okD(1) [OF assms], of t] by simp
  with Nil show ?thesis
    by (auto simp: primary_endpoint_def clockwise_def split: list.splits)
next
  case (Cons e es)
  then show ?thesis
    by (cases e) (auto simp: primary_endpoint_def clockwise_def bt_range_from_def)
qed

text \<open>
  C22. Natural endpoints: the result has no duplicates, holds as many endpoints as asked for or
  all of the ring, starts with the primary endpoint, and grows by appending when more are
  asked for.  In other words it is the first \<open>n\<close> distinct owners met clockwise from the
  token, in order.
\<close>

theorem natural_endpoints_spec:
  assumes "ring_ok r"
  shows "distinct (natural_endpoints r t n) \<and>
    length (natural_endpoints r t n) = min n (endpoint_count r) \<and>
    set (natural_endpoints r t n) \<subseteq> set (all_endpoints r) \<and>
    (0 < n \<longrightarrow> primary_endpoint r t
       = (case natural_endpoints r t n of [] \<Rightarrow> None | ep # _ \<Rightarrow> Some ep)) \<and>
    natural_endpoints r t n = take n (natural_endpoints r t (n + m)) \<and>
    natural_endpoints r t n = take n (firsts (clockwise r t))"
proof -
  have len: "length (firsts (clockwise r t)) = endpoint_count r"
    by (simp add: length_firsts set_clockwise endpoint_count_owners [OF assms])
  have prim: "primary_endpoint r t
      = (case natural_endpoints r t n of [] \<Rightarrow> None | ep # _ \<Rightarrow> Some ep)" if "0 < n"
  proof (cases "clockwise r t")
    case (Cons ep es)
    moreover obtain zs where "fold push_new es [ep] = [ep] @ zs"
      using fold_push_new_prefix by blast
    ultimately show ?thesis
      using that by (cases n) (simp_all add: natural_endpoints_eq [OF assms] primary_endpoint_eq [OF assms])
  qed (simp add: natural_endpoints_eq [OF assms] primary_endpoint_eq [OF assms])
  have "set (natural_endpoints r t n) \<subseteq> set (all_endpoints r)"
    using set_take_subset [of n "firsts (clockwise r t)"]
    by (auto simp: natural_endpoints_eq [OF assms] all_endpoints_owners [OF assms] set_clockwise)
  with prim len show ?thesis
    by (simp add: natural_endpoints_eq [OF assms] min.commute)
qed

text \<open>A ring of three nodes, one of them with two tokens.\<close>

definition sample_ring :: "string token_ring" where
  "sample_ring = add_node ''C'' [30] (add_node ''B'' [20] (add_node ''A'' [10, 25] ring_new))"

lemma sample_ring_ok: "ring_ok sample_ring"
  unfolding sample_ring_def by (intro ring_ok_add_node ring_ok_new)

theorem natural_endpoints_spec_witness:
  "natural_endpoints sample_ring 15 2 = [''B'', ''A''] \<and>
   natural_endpoints sample_ring 15 2 = take 2 (natural_endpoints sample_ring 15 3) \<and>
   primary_endpoint sample_ring 15 = Some ''B'' \<and>
   distinct (natural_endpoints sample_ring 15 2)"
proof -
  have "natural_endpoints sample_ring 15 2 = [''B'', ''A'']" by code_simp
  then show ?thesis
    using natural_endpoints_spec [OF sample_ring_ok, of 15 2 1] by simp
qed

text \<open>
  C12. Consistent hashing: when a node leaves, the replicas of every token are the old ones
  without it, and the only newcomer is the next node that the clockwise walk already had.
\<close>

theorem leaving_node_moves_only_its_replicas:
  assumes "ring_ok r"
  shows "natural_endpoints (remove_node ep r) t n
    = take n (filter (\<lambda>e. e \<noteq> ep) (natural_endpoints r t (n + 1)))"
proof -
  have "clockwise (remove_node ep r) t = filter (\<lambda>e. e \<noteq> ep) (clockwise r t)"
    by (simp add: clockwise_def remove_node_entries [OF assms] bt_range_from_def bt_range_below_def
        filter_map comp_def conj_commute)
  then show ?thesis
    using take_filter_neq [of "firsts (clockwise r t)" n ep]
    by (simp add: natural_endpoints_eq [OF assms] natural_endpoints_eq [OF ring_ok_remove_node [OF assms]]
        filter_fold_push_new)
qed

theorem leaving_node_moves_only_its_replicas_witness:
  "natural_endpoints (remove_node ''B'' sample_ring) 15 2 = [''A'', ''C''] \<and>
   natural_endpoints sample_ring 15 3 = [''B'', ''A'', ''C'']"
proof -
  have "natural_endpoints sample_ring 15 3 = [''B'', ''A'', ''C'']" by code_simp
  then show ?thesis
    using leaving_node_moves_only_its_replicas [OF sample_ring_ok, of "''B''" 15 2] by simp
qed

section \<open>Ownership of ranges\<close>

text \<open>The first token at or after \<open>t\<close>, wrapping, and the last one before \<open>t\<close>, wrapping.\<close>

definition next_up :: "token set \<Rightarrow> token \<Rightarrow> token \<Rightarrow> bool" where
  "next_up K t k \<longleftrightarrow> k \<in> K \<and>
     (t \<le> k \<and> (\<forall>k' \<in> K. t \<le> k' \<longrightarrow> k \<le> k') \<or> (\<forall>k' \<in> K. k' < t) \<and> (\<forall>k' \<in> K. k \<le> k'))"

definition next_down :: "token set \<Rightarrow> token \<Rightarrow> token \<Rightarrow> bool" where
  "next_down K t k \<longleftrightarrow> k \<in> K \<and>
     (k < t \<and> (\<forall>k' \<in> K. k' < t \<longrightarrow> k' \<le> k) \<or> (\<forall>k' \<in> K. t \<le> k') \<and> (\<forall>k' \<in> K. k' \<le> k))"

lemma range_contains_next_up:
  assumes "k \<in> K" "next_down K k p"
  shows "range_contains (token_range_new p k) t \<longleftrightarrow> next_up K t k"
proof (cases "p < k")
  case True
  then have gap: "k' \<le> p" if "k' \<in> K" "k' < k" for k'
    using assms that by (auto simp: next_down_def)
  have "p \<in> K" using assms(2) by (simp add: next_down_def)
  have "next_up K t k \<longleftrightarrow> p < t \<and> t \<le> k"
  proof
    assume "next_up K t k"
    with \<open>p \<in> K\<close> True show "p < t \<and> t \<le> k"
      unfolding next_up_def by (meson not_le)
  next
    assume "p < t \<and> t \<le> k"
    with assms(1) gap show "next_up K t k"
      unfolding next_up_def by (meson le_less_trans not_le)
  qed
  with True show ?thesis by (simp add: range_contains_alt)
next
  case False
  then have "\<forall>k' \<in> K. k \<le> k'" "\<forall>k' \<in> K. k' \<le> p" "p \<in> K"
    using assms by (auto simp: next_down_def)
  then have "next_up K t k \<longleftrightarrow> p = k \<or> p < t \<or> t \<le> k"
    using assms(1) unfolding next_up_def by (meson antisym le_less_trans not_le)
  with False show ?thesis by (simp add: range_contains_alt)
qed

lemma next_up_unique: "next_up K t k \<Longrightarrow> next_up K t k' \<Longrightarrow> k = k'"
  unfolding next_up_def by (meson antisym not_le)

lemma bt_ok_hd: "bt_ok (e # m) \<Longrightarrow> x \<in> set (e # m) \<Longrightarrow> fst e \<le> fst x"
  by (auto simp: bt_ok_Cons)

lemma bt_ok_last: "bt_ok m \<Longrightarrow> x \<in> set m \<Longrightarrow> fst x \<le> fst (last m)"
proof (induction m)
  case (Cons e m)
  then show ?case
    using last_in_set [of m] by (cases "m = []") (auto simp: bt_ok_Cons intro: less_imp_le)
qed simp

lemma previous_token_down:
  assumes "bt_ok (tr_entries r)" "tr_entries r \<noteq> []"
  shows "\<exists>p. previous_token r t = Some p \<and> next_down (fst ` set (tr_entries r)) t p"
proof (cases "bt_range_below t (tr_entries r) = []")
  case True
  then have "\<forall>e \<in> set (tr_entries r). t \<le> fst e"
    by (auto simp: bt_range_below_def filter_empty_conv)
  then show ?thesis
    using True assms bt_ok_last [OF assms(1)]
    by (auto simp: previous_token_def next_down_def last_map)
next
  case False
  let ?below = "bt_range_below t (tr_entries r)"
  have "bt_ok ?below" using assms(1) by (rule bt_ok_filters)
  then have "\<forall>e \<in> set (tr_entries r). fst e < t \<longrightarrow> fst e \<le> fst (last ?below)"
    using bt_ok_last [of ?below] by (simp add: bt_range_below_def)
  moreover have "last ?below \<in> set (tr_entries r)" "fst (last ?below) < t"
    using last_in_set [OF False] by (simp_all add: bt_range_below_def)
  ultimately show ?thesis
    using False assms(2) by (simp add: previous_token_def next_down_def)
qed

lemma primary_endpoint_up:
  assumes "bt_ok (tr_entries r)"
  shows "primary_endpoint r t = Some ep \<longleftrightarrow>
    (\<exists>k. map_of (tr_entries r) k = Some ep \<and> next_up (fst ` set (tr_entries r)) t k)"
    (is "_ \<longleftrightarrow> (\<exists>k. ?own k \<and> ?up k)")
proof (cases "tr_entries r")
  case Nil
  then show ?thesis by (simp add: primary_endpoint_def)
next
  case (Cons e0 es)
  obtain k e where ke: "(k, e) \<in> set (tr_entries r)" "?up k" "primary_endpoint r t = Some e"
  proof (cases "bt_range_from t (tr_entries r)")
    case Nil
    then have "\<forall>x \<in> set (tr_entries r). fst x < t"
      by (auto simp: bt_range_from_def filter_empty_conv)
    with Nil show thesis
      using that [of "fst e0" "snd e0"] bt_ok_hd [of e0 es] assms Cons
      by (auto simp: primary_endpoint_def next_up_def bt_ok_Cons)
  next
    case (Cons x xs)
    have "bt_ok (x # xs)"
      using bt_ok_filters(3) [OF assms, of t] by (simp add: Cons)
    moreover have range: "set (x # xs) = {y \<in> set (tr_entries r). t \<le> fst y}"
      unfolding Cons [symmetric] by (auto simp: bt_range_from_def)
    ultimately have least: "\<forall>y \<in> set (tr_entries r). t \<le> fst y \<longrightarrow> fst x \<le> fst y"
      using bt_ok_hd [of x xs] by blast
    have x: "x \<in> set (tr_entries r)" "t \<le> fst x"
      using range by auto
    then have "primary_endpoint r t = Some (snd x)"
      using Cons by (auto simp: primary_endpoint_def split: prod.split)
    with x least show thesis
      by (intro that [of "fst x" "snd x"]) (auto simp: next_up_def)
  qed
  then have "?own k' \<and> ?up k' \<longleftrightarrow> k' = k \<and> ep = e" if "?up k'" for k'
    using next_up_unique [OF that ke(2)] bt_ok_distinct [OF assms] that
    by (auto simp: map_of_eq_Some_iff dest: eq_key_imp_eq_value)
  with ke show ?thesis by auto
qed

text \<open>
  C13. Routing agrees with the ranges: in a ring kept by its operations, a node is the primary
  endpoint of a token exactly when the token lies in the range from the predecessor of one
  of the node's tokens to that token, wrapping ranges and single-token rings included;
  exactly one token of the ring owns it.
\<close>

theorem primary_endpoint_owns_range:
  assumes "ring_ok r"
  shows "(primary_endpoint r t = Some ep \<longleftrightarrow>
      (\<exists>k \<in> set (tokens_for r ep).
         range_contains (token_range_new (the (previous_token r k)) k) t)) \<and>
    (\<not> ring_is_empty r \<longrightarrow>
      (\<exists>!k. k \<in> set (bt_keys (tr_entries r)) \<and>
         range_contains (token_range_new (the (previous_token r k)) k) t))"
proof -
  let ?K = "fst ` set (tr_entries r)"
  have ok: "bt_ok (tr_entries r)" by (rule ring_okD(1) [OF assms])
  have in_range: "range_contains (token_range_new (the (previous_token r k)) k) t \<longleftrightarrow> next_up ?K t k"
    if "k \<in> ?K" for k
    using that previous_token_down [OF ok, of k] range_contains_next_up [OF that] by fastforce
  have own: "k \<in> set (tokens_for r ep) \<longleftrightarrow> map_of (tr_entries r) k = Some ep" for k ep
    using ring_okD(3) [OF assms] by (simp add: set_tokens_for [OF assms])
  have key: "k \<in> ?K" if "map_of (tr_entries r) k = Some ep" for k ep
    using map_of_SomeD [OF that] by force
  have ex: "\<exists>k. next_up ?K t k" if ne: "tr_entries r \<noteq> []"
  proof -
    obtain ep where "primary_endpoint r t = Some ep"
      using ne set_clockwise [of r t] primary_endpoint_eq [OF assms, of t]
      by (cases "clockwise r t") auto
    then show ?thesis using primary_endpoint_up [OF ok] by blast
  qed
  have "k \<in> ?K \<and> range_contains (token_range_new (the (previous_token r k)) k) t \<longleftrightarrow> next_up ?K t k" for k
    using in_range [of k] by (auto simp: next_up_def)
  then have "\<exists>!k. k \<in> ?K \<and> range_contains (token_range_new (the (previous_token r k)) k) t"
    if "tr_entries r \<noteq> []"
    using ex [OF that] next_up_unique by simp metis
  moreover have "primary_endpoint r t = Some ep \<longleftrightarrow>
      (\<exists>k \<in> set (tokens_for r ep). range_contains (token_range_new (the (previous_token r k)) k) t)"
    unfolding primary_endpoint_up [OF ok] own Bex_def using in_range key by metis
  ultimately show ?thesis by (simp add: ring_is_empty_def)
qed

theorem primary_endpoint_owns_range_witness:
  "primary_endpoint sample_ring 99 = Some ''A'' \<and>
   (\<exists>k \<in> set (tokens_for sample_ring ''A'').
      range_contains (token_range_new (the (previous_token sample_ring k)) k) 99)"
proof -
  have "primary_endpoint sample_ring 99 = Some ''A''" by code_simp
  then show ?thesis
    using primary_endpoint_owns_range [OF sample_ring_ok, of 99 "''A''"] by simp
qed

text \<open>Writes reach every natural and every pending endpoint of the token, once each.\<close>

lemma write_replicas_cover:
  assumes "ring_ok r"
  shows "distinct (write_replicas r t n)"
    "set (write_replicas r t n) = set (natural_endpoints r t n) \<union> set (pending_endpoints_for r t)"
  by (simp_all add: write_replicas_def natural_endpoints_eq [OF assms])

end
