(* ===== verification/Quorums.thy ===== *)
theory Quorums
  imports Main
begin

text \<open>
  The contract of a quorum system and of majorities.  Paxos rounds, consistency levels and
  repairs all rely on one fact, that two quorums share a member; \<open>quorum_system\<close> states it,
  \<open>majority\<close> derives it from a count over a finite set of replicas, and the interpretation
  gives it for the size \<open>rf / 2 + 1\<close> that the code computes.
\<close>

locale quorum_system =
  fixes quorum :: "'r set \<Rightarrow> bool"
  assumes intersect: "quorum A \<Longrightarrow> quorum B \<Longrightarrow> A \<inter> B \<noteq> {}"
begin

lemma common_member:
  assumes "quorum A" "quorum B"
  obtains r where "r \<in> A" "r \<in> B"
  using intersect [OF assms] by blast

lemma quorum_nonempty: "quorum A \<Longrightarrow> A \<noteq> {}"
  using intersect [of A A] by simp

text \<open>A property that holds throughout one quorum and fails throughout another is impossible.\<close>

lemma no_split:
  assumes "quorum A" "\<forall>r \<in> A. P r" "quorum B"
  shows "\<exists>r \<in> B. P r"
  using common_member [OF assms(1,3)] assms(2) by blast

end

locale majority =
  fixes replicas :: "'r set" and size_needed :: nat
  assumes finite_replicas: "finite replicas"
    and enough: "card replicas < 2 * size_needed"
begin

definition is_quorum :: "'r set \<Rightarrow> bool" where
  "is_quorum A \<longleftrightarrow> A \<subseteq> replicas \<and> size_needed \<le> card A"

lemma is_quorum_intersect:
  assumes "is_quorum A" "is_quorum B"
  shows "A \<inter> B \<noteq> {}"
proof
  assume "A \<inter> B = {}"
  moreover have "finite A" "finite B"
    using assms finite_replicas by (auto simp: is_quorum_def intro: finite_subset)
  ultimately have "card (A \<union> B) = card A + card B"
    by (simp add: card_Un_disjoint)
  moreover have "card (A \<union> B) \<le> card replicas"
    using assms finite_replicas by (intro card_mono) (auto simp: is_quorum_def)
  ultimately show False
    using assms enough by (simp add: is_quorum_def)
qed

sublocale quorum_system is_quorum
  by unfold_locales (rule is_quorum_intersect)

end

text \<open>The quorum size \<open>rf / 2 + 1\<close> over \<open>rf\<close> replicas, numbered as in a replica list.\<close>

interpretation rf_majority: majority "{..<rf}" "rf div 2 + 1" for rf :: nat
  by unfold_locales simp_all

lemma majority_lessThan: "n < 2 * q \<Longrightarrow> majority {..<n} q"
  by unfold_locales simp_all

end
