(* ===== verification/Strings.thy ===== *)
theory Strings
  imports Prelude
begin

text \<open>
  The operations of \<open>str\<close> that the modelled code uses, on ASCII strings: \<open>trim\<close>,
  \<open>parse\<close> at an unsigned type, the \<open>Display\<close> of an unsigned integer, \<open>split_once\<close>,
  \<open>strip_prefix\<close>, \<open>strip_suffix\<close>, \<open>contains\<close> and \<open>to_lowercase\<close>, with the
  laws that the parsers and printers rest on.
\<close>

definition is_digit :: "char \<Rightarrow> bool" where
  "is_digit c \<longleftrightarrow> 48 \<le> (of_char c :: nat) \<and> (of_char c :: nat) \<le> 57"

definition digit_value :: "char \<Rightarrow> nat" where
  "digit_value c = of_char c - 48"

definition parse_unsigned :: "nat \<Rightarrow> string \<Rightarrow> nat option" where
  "parse_unsigned max_value v =
     (let ds = (if v \<noteq> [] \<and> hd v = CHR ''+'' then tl v else v);
          n = foldl (\<lambda>acc c. acc * 10 + digit_value c) 0 ds
      in if ds = [] \<or> \<not> list_all is_digit ds \<or> max_value < n then None else Some n)"

definition digit_char :: "nat \<Rightarrow> char" where
  "digit_char d = char_of (48 + d)"

fun show_nat :: "nat \<Rightarrow> string" where
  "show_nat n = (if n < 10 then [digit_char n] else show_nat (n div 10) @ [digit_char (n mod 10)])"

declare show_nat.simps [simp del]

definition is_whitespace :: "char \<Rightarrow> bool" where
  "is_whitespace c \<longleftrightarrow> (of_char c :: nat) \<in> {9, 10, 11, 12, 13, 32}"

definition trim :: "string \<Rightarrow> string" where
  "trim v = rev (dropWhile is_whitespace (rev (dropWhile is_whitespace v)))"

definition split_once :: "char \<Rightarrow> string \<Rightarrow> (string \<times> string) option" where
  "split_once c v =
     (if c \<in> set v then Some (takeWhile (\<lambda>x. x \<noteq> c) v, tl (dropWhile (\<lambda>x. x \<noteq> c) v)) else None)"

fun str_contains :: "string \<Rightarrow> string \<Rightarrow> bool" where
  "str_contains pat [] = (pat = [])"
| "str_contains pat (c # v) = (take (length pat) (c # v) = pat \<or> str_contains pat v)"

definition strip_prefix :: "string \<Rightarrow> string \<Rightarrow> string option" where
  "strip_prefix p v = (if take (length p) v = p then Some (drop (length p) v) else None)"

definition strip_suffix :: "char \<Rightarrow> string \<Rightarrow> string option" where
  "strip_suffix c v = (if v \<noteq> [] \<and> last v = c then Some (butlast v) else None)"

definition to_lowercase :: "string \<Rightarrow> string" where
  "to_lowercase = map (\<lambda>c. if 65 \<le> (of_char c :: nat) \<and> (of_char c :: nat) \<le> 90
     then char_of (of_char c + (32 :: nat)) else c)"

section \<open>Numbers\<close>

lemma of_char_digit [simp]: "d < 10 \<Longrightarrow> (of_char (digit_char d) :: nat) = 48 + d"
  by (simp add: digit_char_def)

lemma digit_value_char [simp]: "d < 10 \<Longrightarrow> digit_value (digit_char d) = d"
  by (simp add: digit_value_def)

lemma show_nat_ne [simp]: "show_nat n \<noteq> []"
  by (subst show_nat.simps) simp

lemma show_nat_digits: "list_all is_digit (show_nat n)"
proof (induction n rule: show_nat.induct)
  case (1 n)
  have "is_digit (digit_char d)" if "d < 10" for d
    using that by (simp add: is_digit_def)
  with 1 show ?case by (subst show_nat.simps) simp
qed

lemma show_nat_value: "foldl (\<lambda>acc c. acc * 10 + digit_value c) 0 (show_nat n) = n"
proof (induction n rule: show_nat.induct)
  case (1 n)
  then show ?case by (subst show_nat.simps) simp
qed

lemma digit_not_plus: "is_digit c \<Longrightarrow> c \<noteq> CHR ''+''"
  by (auto simp: is_digit_def)

text \<open>Reading back a printed number.\<close>

lemma parse_show_nat: "n \<le> m \<Longrightarrow> parse_unsigned m (show_nat n) = Some n"
proof -
  assume "n \<le> m"
  have "is_digit (hd (show_nat n))"
    using show_nat_digits [of n] hd_in_set [OF show_nat_ne] by (simp add: list_all_iff)
  then have "hd (show_nat n) \<noteq> CHR ''+''" by (rule digit_not_plus)
  then show ?thesis
    using \<open>n \<le> m\<close> show_nat_digits [of n] by (simp add: parse_unsigned_def show_nat_value)
qed

lemma parse_unsigned_le: "parse_unsigned m v = Some n \<Longrightarrow> n \<le> m"
  by (auto simp: parse_unsigned_def Let_def split: if_splits)

section \<open>Trimming and stripping\<close>

lemma length_trim: "length (trim v) \<le> length v"
  unfolding trim_def by (metis length_dropWhile_le length_rev order_trans)

text \<open>A string whose first and last characters are not blank; \<open>trim\<close> returns it.\<close>

definition tight :: "string \<Rightarrow> bool" where
  "tight v \<longleftrightarrow> v \<noteq> [] \<and> \<not> is_whitespace (hd v) \<and> \<not> is_whitespace (last v)"

lemma dropWhile_hd: "v \<noteq> [] \<Longrightarrow> \<not> P (hd v) \<Longrightarrow> dropWhile P v = v"
  by (cases v) simp_all

lemma trim_tight [simp]: "tight v \<Longrightarrow> trim v = v"
  by (simp add: trim_def tight_def dropWhile_hd hd_rev)

lemma trim_blank_tight [simp]: "tight v \<Longrightarrow> trim (CHR '' '' # v) = v"
  by (simp add: trim_def tight_def dropWhile_hd hd_rev is_whitespace_def)

lemma tight_digits: "list_all is_digit v \<Longrightarrow> v \<noteq> [] \<Longrightarrow> tight v"
proof -
  assume v: "list_all is_digit v" "v \<noteq> []"
  then have "is_digit (hd v)" "is_digit (last v)" by (simp_all add: list_all_iff)
  then show ?thesis using v(2) by (auto simp: tight_def is_digit_def is_whitespace_def)
qed

lemma strip_prefix_append [simp]: "strip_prefix p (p @ v) = Some v"
  by (simp add: strip_prefix_def)

lemma strip_suffix_snoc [simp]: "strip_suffix c (v @ [c]) = Some v"
  by (simp add: strip_suffix_def)

lemma strip_prefix_length: "strip_prefix p v = Some w \<Longrightarrow> length v = length p + length w"
proof -
  assume "strip_prefix p v = Some w"
  then have "take (length p) v = p" "w = drop (length p) v"
    by (simp_all add: strip_prefix_def split: if_splits)
  then have "v = p @ w" by (metis append_take_drop_id)
  then show ?thesis by simp
qed

lemma strip_suffix_length: "strip_suffix c v = Some w \<Longrightarrow> length v = Suc (length w)"
  by (auto simp: strip_suffix_def split: if_splits)

end
