(* ===== verification/Replication.thy ===== *)
theory Replication
  imports Ring Quorums Strings "HOL-Library.Multiset"
begin

text \<open>
  Replication strategies (\<open>cluster-metadata/src/replication.rs\<close>).  The trait objects are one
  datatype and its methods are defined by cases, as dynamic dispatch selects them.  A snitch
  is the pair of functions that give the datacenter and the rack of an endpoint.  The two
  passes of \<open>NetworkTopologyStrategy\<close> are recursive functions over the clockwise walk with
  the four mutable collections of the code as their state.  The sum of the replication
  factors is not bounded: the model describes configurations whose sum fits a \<open>usize\<close>.

  \<open>replication_strategy\<close> is the contract that coordinators use; every strategy of the code
  is an interpretation of it.  The placement theorem describes what
  \<open>NetworkTopologyStrategy\<close> computes in each datacenter: as many replicas and as many
  racks as can be had.
\<close>

section \<open>Strategies\<close>

record 'e replica =
  endpoint :: 'e
  is_transient :: bool

definition full :: "'e \<Rightarrow> 'e replica" where
  "full ep = \<lparr>endpoint = ep, is_transient = False\<rparr>"

definition transient :: "'e \<Rightarrow> 'e replica" where
  "transient ep = \<lparr>endpoint = ep, is_transient = True\<rparr>"

definition is_full :: "'e replica \<Rightarrow> bool" where
  "is_full r \<longleftrightarrow> \<not> is_transient r"

definition promote :: "'e replica \<Rightarrow> 'e replica" where
  "promote r = r\<lparr>is_transient := False\<rparr>"

record 'e snitch =
  datacenter :: "'e \<Rightarrow> string"
  rack :: "'e \<Rightarrow> string"

type_synonym dc_rf = "(string, nat) btree_map"

datatype strategy =
  SimpleStrategy nat
| NetworkTopologyStrategy dc_rf
| OldNetworkTopologyStrategy nat
| LocalStrategy
| EverywhereStrategy
| TransientReplicationStrategy dc_rf dc_rf

definition total_rf :: "dc_rf \<Rightarrow> nat" where
  "total_rf dcr = sum_list (bt_values dcr)"

subsection \<open>NetworkTopologyStrategy\<close>

record 'e nts_state =
  dc_replicas :: "string \<rightharpoonup> 'e list"
  dc_racks_used :: "string \<rightharpoonup> string set"
  seen_endpoints :: "'e set"
  nts_result :: "'e list"

definition nts_init :: "'e nts_state" where
  "nts_init = \<lparr>dc_replicas = Map.empty, dc_racks_used = Map.empty, seen_endpoints = {},
     nts_result = []\<rparr>"

definition or_default :: "'v \<Rightarrow> 'v option \<Rightarrow> 'v" where
  "or_default d x = (case x of None \<Rightarrow> d | Some v \<Rightarrow> v)"

text \<open>
  The number of endpoints of a datacenter that the walk has not taken yet, and the order of
  the walk: from the first token at or after the one asked for, wrapping around.
\<close>

definition dc_nodes_in_ring ::
  "'e snitch \<Rightarrow> (token \<times> 'e) list \<Rightarrow> 'e set \<Rightarrow> string \<Rightarrow> nat" where
  "dc_nodes_in_ring sn all_entries seen dc =
     card (snd ` set (filter (\<lambda>e. snd e \<notin> seen \<and> datacenter sn (snd e) = dc) all_entries))"

definition start_idx :: "(token \<times> 'e) list \<Rightarrow> token \<Rightarrow> nat" where
  "start_idx all_entries t = length (takeWhile (\<lambda>e. fst e < t) all_entries)"

definition ring_walk :: "(token \<times> 'e) list \<Rightarrow> nat \<Rightarrow> 'e list" where
  "ring_walk all_entries start =
     (let n = length all_entries
      in map (\<lambda>offset. snd (all_entries ! ((start + offset) mod n))) [0..<n])"

fun nts_pass1 ::
  "'e snitch \<Rightarrow> dc_rf \<Rightarrow> (token \<times> 'e) list \<Rightarrow> 'e list \<Rightarrow> 'e nts_state \<Rightarrow> 'e nts_state" where
  "nts_pass1 sn dcr all_entries [] s = s"
| "nts_pass1 sn dcr all_entries (ep # walk) s =
     (let dc = datacenter sn ep; rk = rack sn ep in
      if ep \<in> seen_endpoints s then nts_pass1 sn dcr all_entries walk s
      else case map_of dcr dc of
        None \<Rightarrow> nts_pass1 sn dcr all_entries walk s
      | Some rf \<Rightarrow>
          let dc_reps = or_default [] (dc_replicas s dc);
              s = s\<lparr>dc_replicas := (dc_replicas s)(dc \<mapsto> dc_reps)\<rparr> in
          if rf \<le> length dc_reps then nts_pass1 sn dcr all_entries walk s
          else
            let racks_used = or_default {} (dc_racks_used s dc);
                s = s\<lparr>dc_racks_used := (dc_racks_used s)(dc \<mapsto> racks_used)\<rparr> in
            if rk \<in> racks_used \<and>
               rf < length dc_reps + dc_nodes_in_ring sn all_entries (seen_endpoints s) dc
            then nts_pass1 sn dcr all_entries walk s
            else
              let s = s\<lparr>dc_racks_used := (dc_racks_used s)(dc \<mapsto> insert rk racks_used),
                        dc_replicas := (dc_replicas s)(dc \<mapsto> dc_reps @ [ep]),
                        seen_endpoints := insert ep (seen_endpoints s),
                        nts_result := nts_result s @ [ep]\<rparr> in
              if total_rf dcr \<le> length (nts_result s) then s
              else nts_pass1 sn dcr all_entries walk s)"

fun nts_pass2 :: "'e snitch \<Rightarrow> dc_rf \<Rightarrow> 'e list \<Rightarrow> 'e nts_state \<Rightarrow> 'e nts_state" where
  "nts_pass2 sn dcr [] s = s"
| "nts_pass2 sn dcr (ep # walk) s =
     (let dc = datacenter sn ep in
      if ep \<in> seen_endpoints s then nts_pass2 sn dcr walk s
      else case map_of dcr dc of
        None \<Rightarrow> nts_pass2 sn dcr walk s
      | Some rf \<Rightarrow>
          let dc_reps = or_default [] (dc_replicas s dc);
              s = s\<lparr>dc_replicas := (dc_replicas s)(dc \<mapsto> dc_reps)\<rparr> in
          if rf \<le> length dc_reps then nts_pass2 sn dcr walk s
          else
            let s = s\<lparr>dc_replicas := (dc_replicas s)(dc \<mapsto> dc_reps @ [ep]),
                      seen_endpoints := insert ep (seen_endpoints s),
                      nts_result := nts_result s @ [ep]\<rparr> in
            if total_rf dcr \<le> length (nts_result s) then s
            else nts_pass2 sn dcr walk s)"

definition nts_endpoints :: "dc_rf \<Rightarrow> 'e snitch \<Rightarrow> token \<Rightarrow> 'e token_ring \<Rightarrow> 'e list" where
  "nts_endpoints dcr sn t r =
     (if ring_is_empty r \<or> total_rf dcr = 0 then []
      else
        let all_entries = tr_entries r;
            walk = ring_walk all_entries (start_idx all_entries t);
            s = nts_pass1 sn dcr all_entries walk nts_init
        in nts_result
             (if length (nts_result s) < total_rf dcr then nts_pass2 sn dcr walk s else s))"

subsection \<open>The methods of the trait\<close>

definition calculate_natural_endpoints ::
  "strategy \<Rightarrow> 'e snitch \<Rightarrow> token \<Rightarrow> 'e token_ring \<Rightarrow> 'e list" where
  "calculate_natural_endpoints st sn t r =
     (case st of
        SimpleStrategy rf \<Rightarrow> natural_endpoints r t rf
      | NetworkTopologyStrategy dcr \<Rightarrow> nts_endpoints dcr sn t r
      | OldNetworkTopologyStrategy rf \<Rightarrow> natural_endpoints r t rf
      | LocalStrategy \<Rightarrow> (case primary_endpoint r t of None \<Rightarrow> [] | Some ep \<Rightarrow> [ep])
      | EverywhereStrategy \<Rightarrow> all_endpoints r
      | TransientReplicationStrategy dcr _ \<Rightarrow> nts_endpoints dcr sn t r)"

definition usize_max :: nat where "usize_max = 2 ^ 64 - 1"

definition replication_factor :: "strategy \<Rightarrow> nat" where
  "replication_factor st =
     (case st of
        SimpleStrategy rf \<Rightarrow> rf
      | NetworkTopologyStrategy dcr \<Rightarrow> total_rf dcr
      | OldNetworkTopologyStrategy rf \<Rightarrow> rf
      | LocalStrategy \<Rightarrow> 1
      | EverywhereStrategy \<Rightarrow> usize_max
      | TransientReplicationStrategy dcr _ \<Rightarrow> total_rf dcr)"

definition strategy_name :: "strategy \<Rightarrow> string" where
  "strategy_name st =
     (case st of
        SimpleStrategy _ \<Rightarrow> ''SimpleStrategy''
      | NetworkTopologyStrategy _ \<Rightarrow> ''NetworkTopologyStrategy''
      | OldNetworkTopologyStrategy _ \<Rightarrow> ''OldNetworkTopologyStrategy''
      | LocalStrategy \<Rightarrow> ''LocalStrategy''
      | EverywhereStrategy \<Rightarrow> ''EverywhereStrategy''
      | TransientReplicationStrategy _ _ \<Rightarrow> ''TransientReplicationStrategy'')"

text \<open>Full and transient replicas.\<close>

definition count_dc :: "'e snitch \<Rightarrow> 'e list \<Rightarrow> string \<rightharpoonup> nat" where
  "count_dc sn eps =
     fold (\<lambda>ep m. m(datacenter sn ep \<mapsto> or_default 0 (m (datacenter sn ep)) + 1)) eps Map.empty"

fun assign_transient ::
  "'e snitch \<Rightarrow> (string \<rightharpoonup> nat) \<Rightarrow> dc_rf \<Rightarrow> 'e list \<Rightarrow> (string \<rightharpoonup> nat) \<Rightarrow> 'e replica list" where
  "assign_transient sn dc_totals dc_transient [] dc_seen = []"
| "assign_transient sn dc_totals dc_transient (ep # eps) dc_seen =
     (let dc = datacenter sn ep;
          seen = or_default 0 (dc_seen dc) + 1;
          total = the (dc_totals dc);
          transient_count = min (or_default 0 (map_of dc_transient dc)) (total - 1);
          remaining = total - seen + 1
      in (if remaining \<le> transient_count then transient ep else full ep)
         # assign_transient sn dc_totals dc_transient eps (dc_seen(dc \<mapsto> seen)))"

definition calculate_natural_replicas ::
  "strategy \<Rightarrow> 'e snitch \<Rightarrow> token \<Rightarrow> 'e token_ring \<Rightarrow> 'e replica list" where
  "calculate_natural_replicas st sn t r =
     (let endpoints = calculate_natural_endpoints st sn t r in
      case st of
        TransientReplicationStrategy _ dc_transient \<Rightarrow>
          sort_key (\<lambda>r. if is_transient r then (1 :: nat) else 0)
            (assign_transient sn (count_dc sn endpoints) dc_transient endpoints Map.empty)
      | _ \<Rightarrow> map full endpoints)"

definition full_rf_for_dc :: "dc_rf \<Rightarrow> dc_rf \<Rightarrow> string \<Rightarrow> nat" where
  "full_rf_for_dc dcr dc_transient dc =
     or_default 0 (map_of dcr dc) - or_default 0 (map_of dc_transient dc)"

definition transient_rf_for_dc :: "dc_rf \<Rightarrow> string \<Rightarrow> nat" where
  "transient_rf_for_dc dc_transient dc = or_default 0 (map_of dc_transient dc)"

definition calculate_full_replicas ::
  "strategy \<Rightarrow> 'e snitch \<Rightarrow> token \<Rightarrow> 'e token_ring \<Rightarrow> 'e replica list" where
  "calculate_full_replicas st sn t r = filter is_full (calculate_natural_replicas st sn t r)"

definition calculate_transient_replicas ::
  "strategy \<Rightarrow> 'e snitch \<Rightarrow> token \<Rightarrow> 'e token_ring \<Rightarrow> 'e replica list" where
  "calculate_transient_replicas st sn t r =
     filter is_transient (calculate_natural_replicas st sn t r)"

definition calculate_read_endpoints ::
  "strategy \<Rightarrow> 'e snitch \<Rightarrow> token \<Rightarrow> 'e token_ring \<Rightarrow> 'e list" where
  "calculate_read_endpoints st sn t r =
     map endpoint (filter is_full (calculate_natural_replicas st sn t r))"

definition calculate_write_endpoints ::
  "strategy \<Rightarrow> 'e snitch \<Rightarrow> token \<Rightarrow> 'e token_ring \<Rightarrow> 'e list" where
  "calculate_write_endpoints st sn t r = map endpoint (calculate_natural_replicas st sn t r)"

subsection \<open>Strategies from schema options\<close>

definition parse_usize :: "string \<Rightarrow> nat option" where
  "parse_usize v = parse_unsigned usize_max v"

definition is_dc_option :: "string \<Rightarrow> bool" where
  "is_dc_option k \<longleftrightarrow> k \<noteq> ''class'' \<and> k \<noteq> ''replication_factor''"

definition transient_option :: "string \<times> string \<Rightarrow> dc_rf \<times> dc_rf \<Rightarrow> dc_rf \<times> dc_rf" where
  "transient_option kv acc =
     (let (k, v) = kv; (dc_replication, dc_transient) = acc in
      if \<not> is_dc_option k then acc
      else case split_once CHR ''/'' v of
        Some (total_str, trans_str) \<Rightarrow>
          (case (parse_usize (trim total_str), parse_usize (trim trans_str)) of
             (Some tot, Some trn) \<Rightarrow>
               (bt_insert k tot dc_replication,
                if 0 < trn then bt_insert k trn dc_transient else dc_transient)
           | _ \<Rightarrow> acc)
      | None \<Rightarrow>
          (case parse_usize v of
             Some rf \<Rightarrow> (bt_insert k rf dc_replication, dc_transient)
           | None \<Rightarrow> acc))"

definition plain_option :: "string \<times> string \<Rightarrow> dc_rf \<Rightarrow> dc_rf" where
  "plain_option kv acc =
     (if \<not> is_dc_option (fst kv) then acc
      else case parse_usize (snd kv) of None \<Rightarrow> acc | Some rf \<Rightarrow> bt_insert (fst kv) rf acc)"

definition rf_option :: "(string, string) btree_map \<Rightarrow> nat" where
  "rf_option options = or_default 1 (Option.bind (map_of options ''replication_factor'') parse_usize)"

definition create_strategy :: "string \<Rightarrow> (string, string) btree_map \<Rightarrow> strategy" where
  "create_strategy cls options =
     (if str_contains ''SimpleStrategy'' cls then SimpleStrategy (rf_option options)
      else if str_contains ''OldNetworkTopologyStrategy'' cls
      then OldNetworkTopologyStrategy (rf_option options)
      else if str_contains ''NetworkTopologyStrategy'' cls then
        (if list_ex (\<lambda>(k, v). is_dc_option k \<and> CHR ''/'' \<in> set v) options
         then (let (dc_replication, dc_transient) = fold transient_option options ([], [])
               in TransientReplicationStrategy dc_replication dc_transient)
         else NetworkTopologyStrategy (fold plain_option options []))
      else if str_contains ''LocalStrategy'' cls then LocalStrategy
      else if str_contains ''EverywhereStrategy'' cls then EverywhereStrategy
      else SimpleStrategy 1)"

text \<open>The maps inside a strategy are in key order, however it was configured.\<close>

definition strategy_ok :: "strategy \<Rightarrow> bool" where
  "strategy_ok st =
     (case st of
        NetworkTopologyStrategy dcr \<Rightarrow> bt_ok dcr
      | TransientReplicationStrategy dcr trn \<Rightarrow> bt_ok dcr \<and> bt_ok trn
      | _ \<Rightarrow> True)"

lemma bt_ok_plain_options: "bt_ok m \<Longrightarrow> bt_ok (fold plain_option options m)"
  by (induction options arbitrary: m) (auto simp: plain_option_def intro: bt_ok_insert split: option.splits)

lemma transient_option_ok:
  "bt_ok (fst acc) \<and> bt_ok (snd acc) \<Longrightarrow>
   bt_ok (fst (transient_option kv acc)) \<and> bt_ok (snd (transient_option kv acc))"
  by (auto simp: transient_option_def Let_def intro: bt_ok_insert split: option.splits prod.splits)

lemma transient_options_ok:
  "bt_ok (fst acc) \<and> bt_ok (snd acc) \<Longrightarrow>
   bt_ok (fst (fold transient_option options acc)) \<and> bt_ok (snd (fold transient_option options acc))"
proof (induction options arbitrary: acc)
  case (Cons kv options)
  then show ?case using transient_option_ok by (metis fold_simps(2))
qed simp

lemma create_strategy_ok [bt_intro]: "strategy_ok (create_strategy cls options)"
  using bt_ok_plain_options [of "[]" options] transient_options_ok [of "([], [])" options]
  by (auto simp: create_strategy_def strategy_ok_def split: prod.splits)

lemma create_transient:
  "create_strategy ''NetworkTopologyStrategy'' [(''class'', ''N''), (''dc1'', ''3/1''), (''dc2'', ''2'')]
     = TransientReplicationStrategy [(''dc1'', 3), (''dc2'', 2)] [(''dc1'', 1)]"
  by (simp add: create_strategy_def transient_option_def is_dc_option_def split_once_def
      parse_usize_def parse_unsigned_def digit_value_def trim_def is_whitespace_def
      is_digit_def usize_max_def)

section \<open>What a placement pass computes\<close>

lemma takeWhile_range_below: "bt_ok m \<Longrightarrow> takeWhile (\<lambda>e. fst e < t) m = bt_range_below t m"
proof (induction m)
  case (Cons e m)
  have "filter (\<lambda>e. fst e < t) m = []" if "\<not> fst e < t"
    using Cons.prems that by (auto simp: bt_ok_Cons filter_empty_conv)
  with Cons show ?case
    by (cases "fst e < t") (simp_all add: bt_range_below_def bt_ok_Cons)
qed (simp add: bt_range_below_def)

lemma ring_walk_clockwise:
  assumes "bt_ok (tr_entries r)"
  shows "ring_walk (tr_entries r) (start_idx (tr_entries r) t) = clockwise r t"
proof -
  let ?E = "tr_entries r"
  have below: "start_idx ?E t = length (bt_range_below t ?E)"
    by (simp add: start_idx_def takeWhile_range_below [OF assms])
  have "map (\<lambda>i. ?E ! ((start_idx ?E t + i) mod length ?E)) [0..<length ?E] = rotate (start_idx ?E t) ?E"
    by (rule nth_equalityI) (simp_all add: nth_rotate add.commute)
  also have "\<dots> = bt_range_from t ?E @ bt_range_below t ?E"
    unfolding below using bt_range_split [OF assms, of t] rotate_append by metis
  finally have "map snd (map (\<lambda>i. ?E ! ((start_idx ?E t + i) mod length ?E)) [0..<length ?E]) = clockwise r t"
    by (simp only: clockwise_def)
  then show ?thesis by (simp add: ring_walk_def Let_def comp_def)
qed

text \<open>
  A pass without its bookkeeping: an endpoint is added when its datacenter has room and the
  pass admits it.  The first pass admits an endpoint of a new rack, or any endpoint of a
  datacenter that has no more nodes than replicas; the second admits every endpoint.
\<close>

definition place_dc :: "nat \<Rightarrow> (nat \<Rightarrow> 'e list \<Rightarrow> 'e \<Rightarrow> bool) \<Rightarrow> 'e \<Rightarrow> 'e list \<Rightarrow> 'e list" where
  "place_dc rf admit ep reps =
     (if ep \<notin> set reps \<and> length reps < rf \<and> admit rf reps ep then reps @ [ep] else reps)"

definition place ::
  "'e snitch \<Rightarrow> dc_rf \<Rightarrow> (nat \<Rightarrow> 'e list \<Rightarrow> 'e \<Rightarrow> bool) \<Rightarrow> 'e \<Rightarrow> 'e list \<Rightarrow> 'e list" where
  "place sn dcr admit ep res =
     (case map_of dcr (datacenter sn ep) of
        None \<Rightarrow> res
      | Some rf \<Rightarrow>
          let reps = filter (\<lambda>e. datacenter sn e = datacenter sn ep) res in
          if ep \<notin> set res \<and> length reps < rf \<and> admit rf reps ep then res @ [ep] else res)"

definition dc_nodes :: "'e snitch \<Rightarrow> (token \<times> 'e) list \<Rightarrow> string \<Rightarrow> 'e set" where
  "dc_nodes sn E d = {e \<in> snd ` set E. datacenter sn e = d}"

definition new_rack ::
  "'e snitch \<Rightarrow> (token \<times> 'e) list \<Rightarrow> nat \<Rightarrow> 'e list \<Rightarrow> 'e \<Rightarrow> bool" where
  "new_rack sn E rf reps ep \<longleftrightarrow>
     \<not> (rack sn ep \<in> rack sn ` set reps \<and> rf < card (dc_nodes sn E (datacenter sn ep)))"

definition any_node :: "nat \<Rightarrow> 'e list \<Rightarrow> 'e \<Rightarrow> bool" where
  "any_node rf reps ep = True"

text \<open>What holds of the list of replicas during both passes.\<close>

definition placed :: "'e snitch \<Rightarrow> dc_rf \<Rightarrow> (token \<times> 'e) list \<Rightarrow> 'e list \<Rightarrow> bool" where
  "placed sn dcr E res \<longleftrightarrow>
     distinct res \<and> set res \<subseteq> snd ` set E \<and>
     (\<forall>e \<in> set res. datacenter sn e \<in> set (bt_keys dcr)) \<and>
     (\<forall>d rf. map_of dcr d = Some rf \<longrightarrow> length (filter (\<lambda>e. datacenter sn e = d) res) \<le> rf)"

lemma placed_Nil [simp]: "placed sn dcr E []"
  by (simp add: placed_def)

lemma placed_place:
  assumes "placed sn dcr E res" "ep \<in> snd ` set E"
  shows "placed sn dcr E (place sn dcr admit ep res)"
proof (cases "map_of dcr (datacenter sn ep)")
  case (Some rf)
  then have "datacenter sn ep \<in> set (bt_keys dcr)" by (auto dest: map_of_SomeD intro: rev_image_eqI)
  with Some assms show ?thesis by (auto simp: place_def placed_def Let_def)
qed (use assms in \<open>simp add: place_def\<close>)

lemma placed_fold:
  "placed sn dcr E res \<Longrightarrow> set walk \<subseteq> snd ` set E \<Longrightarrow> placed sn dcr E (fold (place sn dcr admit) walk res)"
  by (induction walk arbitrary: res) (auto intro!: placed_place)

lemma sum_over_dcs:
  assumes "finite D" "\<forall>e \<in> set res. f e \<in> D"
  shows "(\<Sum>d \<in> D. length (filter (\<lambda>e. f e = d) res)) = length res"
  using assms(2)
proof (induction res)
  case (Cons e res)
  have "(\<Sum>d \<in> D. length (filter (\<lambda>x. f x = d) (e # res)))
      = (\<Sum>d \<in> D. (if f e = d then 1 else 0) + length (filter (\<lambda>x. f x = d) res))"
    by (rule sum.cong) auto
  also have "\<dots> = 1 + length res"
    using Cons assms(1) by (simp add: sum.distrib)
  finally show ?case by simp
qed simp

text \<open>Once the total is reached every datacenter is full, so stopping there loses nothing.\<close>

lemma placed_full:
  assumes "placed sn dcr E res" "distinct (bt_keys dcr)" "total_rf dcr \<le> length res"
    "map_of dcr d = Some rf"
  shows "length (filter (\<lambda>e. datacenter sn e = d) res) = rf"
proof -
  let ?D = "set (bt_keys dcr)" and ?n = "\<lambda>d. length (filter (\<lambda>e. datacenter sn e = d) res)"
  have total: "total_rf dcr = (\<Sum>d \<in> ?D. the (map_of dcr d))"
  proof -
    have "map (\<lambda>d. the (map_of dcr d)) (bt_keys dcr) = bt_values dcr"
      using assms(2) by (auto simp: comp_def intro: map_cong)
    then have "total_rf dcr = sum_list (map (\<lambda>d. the (map_of dcr d)) (bt_keys dcr))"
      by (simp only: total_rf_def)
    also have "\<dots> = (\<Sum>d \<in> ?D. the (map_of dcr d))"
      by (rule sum_list_distinct_conv_sum_set [OF assms(2)])
    finally show ?thesis .
  qed
  have le: "?n d \<le> the (map_of dcr d)" if "d \<in> ?D" for d
    using that assms(1) weak_map_of_SomeI by (fastforce simp: placed_def)
  have "(\<Sum>d \<in> ?D. ?n d) = length res"
    using assms(1) by (intro sum_over_dcs) (auto simp: placed_def)
  moreover have "(\<Sum>d \<in> ?D. ?n d) \<le> (\<Sum>d \<in> ?D. the (map_of dcr d))"
    by (rule sum_mono) (rule le)
  ultimately have "(\<Sum>d \<in> ?D. ?n d) = (\<Sum>d \<in> ?D. the (map_of dcr d))"
    using assms(3) total by simp
  moreover have "d \<in> ?D" using assms(4) by (auto dest: map_of_SomeD intro: rev_image_eqI)
  ultimately have "?n d = the (map_of dcr d)"
    using sum_mono_inv [of ?n ?D "\<lambda>d. the (map_of dcr d)" d] le by simp
  with assms(4) show ?thesis by simp
qed

lemma place_full:
  assumes "placed sn dcr E res" "distinct (bt_keys dcr)" "total_rf dcr \<le> length res"
  shows "fold (place sn dcr admit) walk res = res"
proof (induction walk)
  case (Cons ep walk)
  have "place sn dcr admit ep res = res"
    using placed_full [OF assms, of "datacenter sn ep"]
    by (auto simp: place_def Let_def split: option.splits)
  with Cons show ?case by simp
qed simp

section \<open>The passes of the code compute these placements\<close>

definition nts_inv :: "'e snitch \<Rightarrow> 'e nts_state \<Rightarrow> bool" where
  "nts_inv sn s \<longleftrightarrow>
     seen_endpoints s = set (nts_result s) \<and>
     (\<forall>d. or_default [] (dc_replicas s d) = filter (\<lambda>e. datacenter sn e = d) (nts_result s))"

definition racks_inv :: "'e snitch \<Rightarrow> 'e nts_state \<Rightarrow> bool" where
  "racks_inv sn s \<longleftrightarrow>
     (\<forall>d. or_default {} (dc_racks_used s d) =
        rack sn ` set (filter (\<lambda>e. datacenter sn e = d) (nts_result s)))"

lemma or_default_Some [simp]: "or_default d (Some v) = v"
  by (simp add: or_default_def)

text \<open>Replicas taken and endpoints left add up to the nodes of the datacenter.\<close>

lemma dc_nodes_left:
  assumes "distinct res" "set res \<subseteq> snd ` set E"
  shows "length (filter (\<lambda>e. datacenter sn e = d) res) + dc_nodes_in_ring sn E (set res) d
    = card (dc_nodes sn E d)"
proof -
  let ?taken = "set (filter (\<lambda>e. datacenter sn e = d) res)"
  let ?left = "snd ` set (filter (\<lambda>e. snd e \<notin> set res \<and> datacenter sn (snd e) = d) E)"
  have "dc_nodes sn E d = ?taken \<union> ?left" using assms(2) by (auto simp: dc_nodes_def)
  moreover have "?taken \<inter> ?left = {}" by auto
  ultimately have "card (dc_nodes sn E d) = card ?taken + card ?left"
    by (simp only: card_Un_disjoint [OF finite_set finite_imageI [OF finite_set]])
  moreover have "card ?taken = length (filter (\<lambda>e. datacenter sn e = d) res)"
    using assms(1) by (intro distinct_card) simp
  ultimately show ?thesis by (simp add: dc_nodes_in_ring_def)
qed

text \<open>The entry API only materialises default values; taking an endpoint keeps the books.\<close>

lemma nts_inv_entry [simp]:
  "nts_inv sn s \<Longrightarrow> nts_inv sn (s\<lparr>dc_replicas := (dc_replicas s)(d \<mapsto> or_default [] (dc_replicas s d))\<rparr>)"
  "nts_inv sn (s\<lparr>dc_racks_used := m\<rparr>) = nts_inv sn s"
  "racks_inv sn (s\<lparr>dc_replicas := m'\<rparr>) = racks_inv sn s"
  "racks_inv sn s \<Longrightarrow> racks_inv sn (s\<lparr>dc_racks_used := (dc_racks_used s)(d \<mapsto> or_default {} (dc_racks_used s d))\<rparr>)"
  by (auto simp: nts_inv_def racks_inv_def)

definition take_endpoint :: "'e snitch \<Rightarrow> 'e \<Rightarrow> 'e nts_state \<Rightarrow> 'e nts_state" where
  "take_endpoint sn ep s =
     s\<lparr>dc_replicas := (dc_replicas s)(datacenter sn ep \<mapsto>
           or_default [] (dc_replicas s (datacenter sn ep)) @ [ep]),
       seen_endpoints := insert ep (seen_endpoints s),
       nts_result := nts_result s @ [ep]\<rparr>"

definition take_rack :: "'e snitch \<Rightarrow> 'e \<Rightarrow> 'e nts_state \<Rightarrow> 'e nts_state" where
  "take_rack sn ep s =
     (take_endpoint sn ep s)\<lparr>dc_racks_used := (dc_racks_used s)(datacenter sn ep \<mapsto>
           insert (rack sn ep) (or_default {} (dc_racks_used s (datacenter sn ep))))\<rparr>"

lemma take_endpoint_inv [simp]: "nts_inv sn s \<Longrightarrow> nts_inv sn (take_endpoint sn ep s)"
  by (simp add: nts_inv_def take_endpoint_def)

lemma take_rack_inv [simp]:
  "nts_inv sn s \<Longrightarrow> nts_inv sn (take_rack sn ep s)"
  "racks_inv sn s \<Longrightarrow> racks_inv sn (take_rack sn ep s)"
  by (simp_all add: nts_inv_def racks_inv_def take_rack_def take_endpoint_def)

lemma take_result [simp]:
  "nts_result (take_endpoint sn ep s) = nts_result s @ [ep]"
  "nts_result (take_rack sn ep s) = nts_result s @ [ep]"
  by (simp_all add: take_rack_def take_endpoint_def)

lemma place_cases:
  assumes "nts_inv sn s"
  shows "place sn dcr admit ep (nts_result s) =
    (case map_of dcr (datacenter sn ep) of
       None \<Rightarrow> nts_result s
     | Some rf \<Rightarrow>
         let reps = or_default [] (dc_replicas s (datacenter sn ep)) in
         if ep \<notin> seen_endpoints s \<and> length reps < rf \<and> admit rf reps ep
         then nts_result s @ [ep] else nts_result s)"
  using assms by (simp add: place_def nts_inv_def split: option.splits)

lemma nts_pass1_place:
  assumes "nts_inv sn s" "racks_inv sn s" "placed sn dcr E (nts_result s)" "distinct (bt_keys dcr)"
    "set walk \<subseteq> snd ` set E"
  shows "nts_inv sn (nts_pass1 sn dcr E walk s) \<and>
    nts_result (nts_pass1 sn dcr E walk s) = fold (place sn dcr (new_rack sn E)) walk (nts_result s)"
  using assms
proof (induction walk arbitrary: s)
  case (Cons ep walk)
  let ?dc = "datacenter sn ep" and ?new = "new_rack sn E"
  let ?reps = "or_default [] (dc_replicas s ?dc)" and ?racks = "or_default {} (dc_racks_used s ?dc)"
  let ?s1 = "s\<lparr>dc_replicas := (dc_replicas s)(?dc \<mapsto> ?reps)\<rparr>"
  let ?s2 = "?s1\<lparr>dc_racks_used := (dc_racks_used s)(?dc \<mapsto> ?racks)\<rparr>"
  note place = place_cases [OF Cons.prems(1), of dcr ?new ep]
  have IH: "nts_inv sn (nts_pass1 sn dcr E walk s') \<and>
      nts_result (nts_pass1 sn dcr E walk s') = fold (place sn dcr ?new) walk (nts_result s')"
    if "nts_inv sn s'" "racks_inv sn s'" "nts_result s' = place sn dcr ?new ep (nts_result s)" for s'
    using Cons.IH [OF that(1,2)] Cons.prems(3-5) that(3) placed_place [OF Cons.prems(3), of ep ?new]
    by simp
  have stop: "fold (place sn dcr ?new) walk (nts_result s @ [ep]) = nts_result s @ [ep]"
    if "total_rf dcr \<le> Suc (length (nts_result s))" "place sn dcr ?new ep (nts_result s) = nts_result s @ [ep]"
    using that placed_place [OF Cons.prems(3), of ep ?new] Cons.prems(5)
    by (intro place_full [OF _ Cons.prems(4)]) simp_all
  have admit: "?new rf ?reps ep \<longleftrightarrow>
      \<not> (rack sn ep \<in> ?racks \<and> rf < length ?reps + dc_nodes_in_ring sn E (seen_endpoints s) ?dc)" for rf
    using Cons.prems(1-3) dc_nodes_left [of "nts_result s" E sn ?dc]
    by (simp add: new_rack_def nts_inv_def racks_inv_def placed_def)
  have inv: "nts_inv sn ?s1" "racks_inv sn ?s1" "nts_inv sn ?s2" "racks_inv sn ?s2"
    using Cons.prems(1,2) by (simp_all add: racks_inv_def)
  have take: "?s2\<lparr>dc_racks_used := (dc_racks_used ?s2)(?dc \<mapsto> insert (rack sn ep) ?racks),
      dc_replicas := (dc_replicas ?s2)(?dc \<mapsto> ?reps @ [ep]),
      seen_endpoints := insert ep (seen_endpoints ?s2), nts_result := nts_result ?s2 @ [ep]\<rparr>
    = take_rack sn ep s"
    by (simp add: take_rack_def take_endpoint_def)
  show ?case
  proof (cases "ep \<in> seen_endpoints s \<or> map_of dcr ?dc = None")
    case True
    then show ?thesis using IH [OF Cons.prems(1,2)] place by (auto simp: Let_def split: option.splits)
  next
    case False
    then obtain rf where rf: "map_of dcr ?dc = Some rf" "ep \<notin> seen_endpoints s" by auto
    show ?thesis
      using IH [OF inv(1,2)] IH [OF inv(3,4)] IH [of "take_rack sn ep s"] stop place admit [of rf] rf Cons.prems(1,2)
      by (simp add: Let_def take [simplified] split: if_splits)
  qed
qed simp

lemma nts_pass2_place:
  assumes "nts_inv sn s" "placed sn dcr E (nts_result s)" "distinct (bt_keys dcr)"
    "set walk \<subseteq> snd ` set E"
  shows "nts_result (nts_pass2 sn dcr walk s) = fold (place sn dcr any_node) walk (nts_result s)"
  using assms
proof (induction walk arbitrary: s)
  case (Cons ep walk)
  let ?dc = "datacenter sn ep"
  let ?reps = "or_default [] (dc_replicas s ?dc)"
  let ?s1 = "s\<lparr>dc_replicas := (dc_replicas s)(?dc \<mapsto> ?reps)\<rparr>"
  note place = place_cases [OF Cons.prems(1), of dcr any_node ep]
  have next_placed: "placed sn dcr E (place sn dcr any_node ep (nts_result s))"
    using Cons.prems(2,4) by (intro placed_place) simp_all
  have IH: "nts_result (nts_pass2 sn dcr walk s') = fold (place sn dcr any_node) walk (nts_result s')"
    if "nts_inv sn s'" "nts_result s' = place sn dcr any_node ep (nts_result s)" for s'
    using Cons.IH [OF that(1)] Cons.prems(3,4) that(2) next_placed by simp
  have stop: "fold (place sn dcr any_node) walk (nts_result s @ [ep]) = nts_result s @ [ep]"
    if "total_rf dcr \<le> Suc (length (nts_result s))" "place sn dcr any_node ep (nts_result s) = nts_result s @ [ep]"
    using that next_placed by (intro place_full [OF _ Cons.prems(3)]) simp_all
  have take: "?s1\<lparr>dc_replicas := (dc_replicas ?s1)(?dc \<mapsto> ?reps @ [ep]),
      seen_endpoints := insert ep (seen_endpoints ?s1), nts_result := nts_result ?s1 @ [ep]\<rparr>
    = take_endpoint sn ep s"
    by (simp add: take_endpoint_def)
  show ?case
  proof (cases "ep \<in> seen_endpoints s \<or> map_of dcr ?dc = None")
    case True
    then show ?thesis using IH [OF Cons.prems(1)] place by (auto simp: Let_def split: option.splits)
  next
    case False
    then obtain rf where rf: "map_of dcr ?dc = Some rf" "ep \<notin> seen_endpoints s" by auto
    moreover have "any_node rf ?reps ep" by (simp add: any_node_def)
    ultimately show ?thesis
      using IH [of ?s1] IH [of "take_endpoint sn ep s"] stop place Cons.prems(1)
      by (simp add: Let_def take [simplified] split: if_splits)
  qed
qed simp

lemma nts_endpoints_eq:
  assumes "ring_ok r" "bt_ok dcr"
  shows "nts_endpoints dcr sn t r =
    fold (place sn dcr any_node) (clockwise r t)
      (fold (place sn dcr (new_rack sn (tr_entries r))) (clockwise r t) [])"
proof -
  let ?E = "tr_entries r" and ?walk = "clockwise r t"
  let ?first = "fold (place sn dcr (new_rack sn ?E)) ?walk []"
  have keys: "distinct (bt_keys dcr)" by (rule bt_ok_distinct [OF assms(2)])
  have walk: "ring_walk ?E (start_idx ?E t) = ?walk" "set ?walk \<subseteq> snd ` set ?E"
    using ring_walk_clockwise [OF ring_okD(1) [OF assms(1)]] by (simp_all add: set_clockwise)
  have "nts_inv sn nts_init" "racks_inv sn nts_init" and init: "nts_result nts_init = []"
    by (simp_all add: nts_inv_def racks_inv_def nts_init_def or_default_def)
  then have one: "nts_inv sn (nts_pass1 sn dcr ?E ?walk nts_init)"
    "nts_result (nts_pass1 sn dcr ?E ?walk nts_init) = ?first"
    using nts_pass1_place [OF _ _ _ keys walk(2)] by (simp_all add: init)
  have first: "placed sn dcr ?E ?first"
    by (rule placed_fold [OF placed_Nil walk(2)])
  show ?thesis
  proof (cases "ring_is_empty r \<or> total_rf dcr = 0")
    case True
    then have "?walk = [] \<or> total_rf dcr \<le> length ([] :: 'a list)"
      by (auto simp: ring_is_empty_def clockwise_def bt_range_from_def bt_range_below_def)
    then have "fold (place sn dcr admit) ?walk [] = []" for admit
      using place_full [OF placed_Nil keys] by auto
    with True show ?thesis by (auto simp: nts_endpoints_def)
  next
    case False
    then show ?thesis
      using one nts_pass2_place [OF one(1) _ keys walk(2)] first place_full [OF first keys, of any_node ?walk]
      by (auto simp: nts_endpoints_def walk(1) Let_def)
  qed
qed

section \<open>Placement in one datacenter\<close>

lemma filter_place:
  assumes "map_of dcr d = Some rf"
  shows "filter (\<lambda>e. datacenter sn e = d) (fold (place sn dcr admit) walk res)
    = fold (place_dc rf admit) (filter (\<lambda>e. datacenter sn e = d) walk)
        (filter (\<lambda>e. datacenter sn e = d) res)"
  using assms
  by (induction walk arbitrary: res) (auto simp: place_def place_dc_def Let_def split: option.splits)

lemma place_any:
  assumes "length acc \<le> rf"
  shows "fold (place_dc rf any_node) L acc = take rf (fold push_new L acc)"
  using assms
proof (induction L arbitrary: acc)
  case (Cons x L)
  show ?case
  proof (cases "length acc < rf \<or> x \<in> set acc")
    case True
    moreover have "any_node rf acc x" by (simp add: any_node_def)
    ultimately show ?thesis using Cons by (auto simp: place_dc_def)
  next
    case False
    obtain zs where "fold push_new L (acc @ [x]) = (acc @ [x]) @ zs"
      using fold_push_new_prefix by blast
    moreover obtain ys where "fold push_new L acc = acc @ ys"
      using fold_push_new_prefix by blast
    ultimately show ?thesis
      using False Cons.IH [OF Cons.prems] Cons.prems by (simp add: place_dc_def)
  qed
qed simp

text \<open>The first pass takes one node per rack until it has enough or has seen every rack.\<close>

lemma place_racks:
  fixes K :: "'e \<Rightarrow> string"
  assumes "inj_on K (set acc)" "distinct acc" "length acc \<le> rf"
    "\<And>reps ep. admit rf reps ep \<longleftrightarrow> K ep \<notin> K ` set reps"
  shows "inj_on K (set (fold (place_dc rf admit) L acc)) \<and> distinct (fold (place_dc rf admit) L acc) \<and>
    length (fold (place_dc rf admit) L acc) \<le> rf \<and>
    set acc \<subseteq> set (fold (place_dc rf admit) L acc) \<and>
    (length (fold (place_dc rf admit) L acc) = rf \<or>
     K ` set L \<subseteq> K ` set (fold (place_dc rf admit) L acc))"
  using assms(1-3)
proof (induction L arbitrary: acc)
  case (Cons x L)
  let ?acc = "place_dc rf admit x acc"
  have "inj_on K (set ?acc)" "distinct ?acc" "length ?acc \<le> rf" "set acc \<subseteq> set ?acc"
    and x: "length ?acc = rf \<or> K x \<in> K ` set ?acc"
    using Cons.prems by (auto simp: place_dc_def assms(4))
  note IH = Cons.IH [OF this(1-3)]
  have "length (fold (place_dc rf admit) L ?acc) = rf" if "length ?acc = rf"
    using IH that card_mono [of "set (fold (place_dc rf admit) L ?acc)" "set ?acc"]
      distinct_card [of ?acc] distinct_card [of "fold (place_dc rf admit) L ?acc"] \<open>distinct ?acc\<close>
    by simp
  with IH x \<open>set acc \<subseteq> set ?acc\<close> show ?case by auto
qed simp

lemma place_dc_basic:
  assumes "distinct acc" "length acc \<le> rf"
  shows "distinct (fold (place_dc rf admit) L acc)" "length (fold (place_dc rf admit) L acc) \<le> rf"
    "set (fold (place_dc rf admit) L acc) \<subseteq> set L \<union> set acc"
proof (atomize (full), use assms in \<open>induction L arbitrary: acc\<close>)
  case (Cons x L)
  have "distinct (place_dc rf admit x acc)" "length (place_dc rf admit x acc) \<le> rf"
    "set (place_dc rf admit x acc) \<subseteq> insert x (set acc)"
    using Cons.prems by (auto simp: place_dc_def)
  with Cons.IH [OF this(1,2)] show ?case by auto
qed simp

text \<open>Both passes over the nodes \<open>L\<close> of one datacenter, for either admission of the first pass.\<close>

lemma place_both:
  fixes K :: "'e \<Rightarrow> string"
  assumes "\<And>reps ep. admit rf reps ep \<longleftrightarrow> \<not> (K ep \<in> K ` set reps \<and> rf < card (set L))"
  defines "R \<equiv> fold (place_dc rf any_node) L (fold (place_dc rf admit) L [])"
  shows "distinct R \<and> set R \<subseteq> set L \<and> length R = min rf (card (set L)) \<and>
    card (K ` set R) = min rf (card (K ` set L))"
proof -
  define A where "A = fold (place_dc rf admit) L []"
  have A: "distinct A" "length A \<le> rf" "set A \<subseteq> set L"
    using place_dc_basic [of "[]" rf admit L] by (simp_all add: A_def)
  have R: "R = take rf (fold push_new L A)"
    unfolding R_def A_def [symmetric] by (rule place_any [OF A(2)])
  have all: "length (fold push_new L A) = card (set L)"
    using distinct_card [of "fold push_new L A"] A by (simp add: Un_absorb1)
  have RL: "distinct R" "set R \<subseteq> set L" "length R = min rf (card (set L))"
    using A set_take_subset [of rf "fold push_new L A"] by (auto simp: R all min.commute)
  have "card (K ` set R) = min rf (card (K ` set L))"
  proof (cases "rf < card (set L)")
    case False
    then have "set R = set L"
      using RL by (metis card_subset_eq distinct_card finite_set min.absorb2 not_less)
    moreover have "card (K ` set L) \<le> rf"
      using False card_image_le [of "set L" K] by simp
    ultimately show ?thesis by simp
  next
    case True
    then have cover: "inj_on K (set A)" "length A = rf \<or> K ` set L \<subseteq> K ` set A"
      using place_racks [of K "[]" rf admit L] assms(1) by (simp_all add: A_def)
    obtain zs where "fold push_new L A = A @ zs"
      using fold_push_new_prefix by blast
    then have "set A \<subseteq> set R" using A(2) by (auto simp: R)
    then have "K ` set A \<subseteq> K ` set R" "K ` set R \<subseteq> K ` set L" using RL(2) by blast+
    moreover have "card (K ` set A) = length A" "card (K ` set R) \<le> rf"
      using card_image [OF cover(1)] distinct_card [OF A(1)] card_image_le [of "set R" K] RL(1,3)
      by (simp_all add: distinct_card)
    moreover from calculation(1,2) cover(2) have "length A = rf \<or> K ` set R = K ` set L" by blast
    ultimately show ?thesis
      using card_mono [of "K ` set R" "K ` set A"] card_mono [of "K ` set L" "K ` set R"]
      by (auto simp: min_def)
  qed
  with RL show ?thesis by simp
qed

lemma nts_placement_dc:
  fixes sn :: "'e snitch" and t :: token
  assumes "ring_ok r" "bt_ok dcr" "map_of dcr d = Some rf"
  defines "reps \<equiv> filter (\<lambda>e. datacenter sn e = d) (nts_endpoints dcr sn t r)"
    and "nodes \<equiv> {e \<in> set (all_endpoints r). datacenter sn e = d}"
  shows "distinct reps \<and> set reps \<subseteq> nodes \<and> length reps = min rf (card nodes) \<and>
    card (rack sn ` set reps) = min rf (card (rack sn ` nodes))"
proof -
  let ?E = "tr_entries r" and ?L = "filter (\<lambda>e. datacenter sn e = d) (clockwise r t)"
  have nodes: "set ?L = nodes"
    by (simp add: nodes_def set_clockwise all_endpoints_owners [OF assms(1)])
  then have card: "dc_nodes sn ?E d = set ?L"
    by (simp add: nodes_def dc_nodes_def all_endpoints_owners [OF assms(1)])
  have "reps = fold (place_dc rf any_node) ?L (fold (place_dc rf (new_rack sn ?E)) ?L [])"
    by (simp add: reps_def nts_endpoints_eq [OF assms(1,2)] filter_place [OF assms(3)])
  moreover define admit where
    "admit rf reps ep \<longleftrightarrow> \<not> (rack sn ep \<in> rack sn ` set reps \<and> rf < card (set ?L))" for rf :: nat and reps ep
  have "fold (place_dc rf (new_rack sn ?E)) ?L [] = fold (place_dc rf admit) ?L []"
  proof (rule fold_cong [OF refl refl])
    fix ep assume "ep \<in> set ?L"
    then have "new_rack sn ?E rf reps ep = admit rf reps ep" for reps
      using card by (simp add: new_rack_def admit_def)
    then show "place_dc rf (new_rack sn ?E) ep = place_dc rf admit ep"
      by (simp add: place_dc_def fun_eq_iff)
  qed
  ultimately show ?thesis
    using place_both [of admit rf "rack sn" ?L, OF admit_def]
    unfolding nodes [symmetric] by simp
qed

lemma nts_placement_count:
  assumes "ring_ok r" "bt_ok dcr" "map_of dcr d = Some rf"
  shows "length (filter (\<lambda>e. datacenter sn e = d)
    (calculate_natural_endpoints (NetworkTopologyStrategy dcr) sn t r)) \<le> rf"
  using nts_placement_dc [OF assms, where sn = sn and t = t] by (simp add: calculate_natural_endpoints_def)

text \<open>
  C5. NetworkTopologyStrategy in each datacenter: the replicas are distinct nodes of that
  datacenter, as many as its replication factor or all of its nodes when there are fewer,
  and they are spread over as many racks as that number of replicas can use.  Neither the
  deferral of the first pass, nor the early exit at the total, nor the placement in the
  other datacenters takes a replica or a rack away.
\<close>

theorem nts_placement:
  assumes "ring_ok r" "bt_ok dcr" "map_of dcr d = Some rf"
  shows "let eps = calculate_natural_endpoints (NetworkTopologyStrategy dcr) sn t r;
             reps = filter (\<lambda>e. datacenter sn e = d) eps;
             nodes = {e \<in> set (all_endpoints r). datacenter sn e = d}
         in distinct reps \<and> set reps \<subseteq> nodes \<and> length reps = min rf (card nodes) \<and>
            card (rack sn ` set reps) = min rf (card (rack sn ` nodes))"
  using nts_placement_dc [OF assms, where sn = sn and t = t] by (simp add: calculate_natural_endpoints_def Let_def)

text \<open>Three nodes on two racks: the node on the second rack is preferred to the nearer one.\<close>

definition sample_snitch :: "string snitch" where
  "sample_snitch = \<lparr>datacenter = (\<lambda>_. ''dc1''), rack = (\<lambda>e. if e = ''C'' then ''r2'' else ''r1'')\<rparr>"

theorem nts_placement_witness:
  "calculate_natural_endpoints (NetworkTopologyStrategy [(''dc1'', 2)]) sample_snitch 5 sample_ring = [''A'', ''C''] \<and>
   card (rack sample_snitch ` set [''A'', ''C'']) =
     min 2 (card (rack sample_snitch ` {e \<in> set (all_endpoints sample_ring). datacenter sample_snitch e = ''dc1''}))"
proof -
  have eps: "calculate_natural_endpoints (NetworkTopologyStrategy [(''dc1'', 2)]) sample_snitch 5 sample_ring = [''A'', ''C'']"
    by code_simp
  have "bt_ok [(''dc1'', 2 :: nat)]" "map_of [(''dc1'', 2 :: nat)] ''dc1'' = Some 2"
    by (simp_all add: bt_ok_def)
  note placement = nts_placement [OF sample_ring_ok this, of sample_snitch 5, unfolded Let_def eps]
  have "filter (\<lambda>e. datacenter sample_snitch e = ''dc1'') [''A'', ''C''] = [''A'', ''C'']"
    by (simp add: sample_snitch_def)
  with eps placement show ?thesis by argo
qed

section \<open>Full and transient replicas\<close>

lemma count_dc_eq:
  "count_dc sn eps d = (if \<exists>e \<in> set eps. datacenter sn e = d
     then Some (length (filter (\<lambda>e. datacenter sn e = d) eps)) else None)"
proof (induction eps rule: rev_induct)
  case (snoc e eps)
  have "count_dc sn (eps @ [e]) =
      (count_dc sn eps)(datacenter sn e \<mapsto> or_default 0 (count_dc sn eps (datacenter sn e)) + 1)"
    by (simp add: count_dc_def)
  then show ?case
    using snoc by (auto simp: or_default_def filter_empty_conv)
qed (simp add: count_dc_def)

lemma endpoints_assign [simp]: "map endpoint (assign_transient sn totals trn eps seen) = eps"
  by (induction eps arbitrary: seen) (simp_all add: Let_def full_def transient_def)

lemma assign_transient_count:
  assumes "\<forall>e \<in> set eps. totals (datacenter sn e) =
      Some (or_default 0 (seen (datacenter sn e)) + length (filter (\<lambda>x. datacenter sn x = datacenter sn e) eps))"
    and "totals d = Some n \<or> n = 0"
    and "length (filter (\<lambda>e. datacenter sn e = d) eps) \<le> n"
  shows "length (filter (\<lambda>x. is_transient x \<and> datacenter sn (endpoint x) = d) (assign_transient sn totals trn eps seen))
    = min (length (filter (\<lambda>e. datacenter sn e = d) eps)) (min (or_default 0 (map_of trn d)) (n - 1))"
  using assms(1,3)
proof (induction eps arbitrary: seen)
  case (Cons ep eps)
  let ?dc = "datacenter sn ep"
  let ?seen = "seen(?dc \<mapsto> or_default 0 (seen ?dc) + 1)"
  have total: "totals ?dc = Some (or_default 0 (seen ?dc) + 1 + length (filter (\<lambda>x. datacenter sn x = ?dc) eps))"
    using Cons.prems(1) by simp
  have IH: "length (filter (\<lambda>x. is_transient x \<and> datacenter sn (endpoint x) = d) (assign_transient sn totals trn eps ?seen))
    = min (length (filter (\<lambda>e. datacenter sn e = d) eps)) (min (or_default 0 (map_of trn d)) (n - 1))"
    using Cons.prems by (intro Cons.IH) (auto split: if_splits)
  show ?case
  proof (cases "?dc = d")
    case True
    then have "n = or_default 0 (seen d) + 1 + length (filter (\<lambda>x. datacenter sn x = d) eps)"
      using assms(2) total Cons.prems(2) by auto
    with True IH total show ?thesis
      by (simp add: Let_def full_def transient_def min_def)
  next
    case False
    with IH show ?thesis by (simp add: Let_def full_def transient_def)
  qed
qed simp

lemma insort_key_partition:
  assumes "P x" "\<forall>z \<in> set zs. \<not> P z" "\<forall>y \<in> set ys. P y"
  shows "insort_key (\<lambda>x. if P x then (1 :: nat) else 0) x (zs @ ys) = zs @ x # ys"
  using assms(2) by (induction zs) (use assms in \<open>cases ys; simp\<close>, simp add: assms(1))

text \<open>A stable sort by a flag.\<close>

lemma sort_key_partition:
  "sort_key (\<lambda>x. if P x then (1 :: nat) else 0) xs = filter (\<lambda>x. \<not> P x) xs @ filter P xs"
proof (induction xs)
  case (Cons x xs)
  then show ?case
  proof (cases "P x")
    case False
    with Cons show ?thesis by (cases "filter (\<lambda>x. \<not> P x) xs @ filter P xs") simp_all
  qed (simp add: insort_key_partition)
qed simp

text \<open>
  C24. Transient replication: every natural endpoint is a replica exactly once, so writes reach
  all of them; in each datacenter as many replicas are transient as configured, but always
  one fewer than there are, so a datacenter with a replica has a full one that serves
  reads; full replicas are listed first.
\<close>

theorem transient_split:
  "let st = TransientReplicationStrategy dcr trn;
       eps = calculate_natural_endpoints st sn t r;
       reps = calculate_natural_replicas st sn t r;
       n = length (filter (\<lambda>e. datacenter sn e = d) eps);
       k = min (transient_rf_for_dc trn d) (n - 1)
   in mset (calculate_write_endpoints st sn t r) = mset eps \<and>
      length (filter (\<lambda>x. datacenter sn (endpoint x) = d) (calculate_transient_replicas st sn t r)) = k \<and>
      length (filter (\<lambda>e. datacenter sn e = d) (calculate_read_endpoints st sn t r)) = n - k \<and>
      reps = calculate_full_replicas st sn t r @ calculate_transient_replicas st sn t r"
proof -
  define st where "st = TransientReplicationStrategy dcr trn"
  define eps where "eps = calculate_natural_endpoints st sn t r"
  define as where "as = assign_transient sn (count_dc sn eps) trn eps Map.empty"
  define n where "n = length (filter (\<lambda>e. datacenter sn e = d) eps)"
  define k where "k = min (transient_rf_for_dc trn d) (n - 1)"
  have reps: "calculate_natural_replicas st sn t r = filter is_full as @ filter is_transient as"
    by (simp add: calculate_natural_replicas_def st_def Let_def sort_key_partition is_full_def [abs_def]
        as_def eps_def)
  have eps: "map endpoint as = eps" by (simp add: as_def)
  have "\<forall>e \<in> set eps. count_dc sn eps (datacenter sn e) =
      Some (or_default 0 (Map.empty (datacenter sn e)) + length (filter (\<lambda>x. datacenter sn x = datacenter sn e) eps))"
    by (auto simp: count_dc_eq or_default_def)
  moreover have "count_dc sn eps d = Some n \<or> n = 0"
    by (auto simp: count_dc_eq n_def filter_empty_conv)
  moreover have "length (filter (\<lambda>e. datacenter sn e = d) eps) \<le> n" by (simp add: n_def)
  ultimately have "length (filter (\<lambda>x. is_transient x \<and> datacenter sn (endpoint x) = d) as)
      = min n (min (or_default 0 (map_of trn d)) (n - 1))"
    unfolding as_def n_def [symmetric] by (subst assign_transient_count) (simp_all only: n_def)
  then have k: "length (filter (\<lambda>x. is_transient x \<and> datacenter sn (endpoint x) = d) as) = k"
    by (simp add: k_def transient_rf_for_dc_def)
  have "n = length (filter (\<lambda>x. datacenter sn (endpoint x) = d) as)"
    unfolding n_def eps [symmetric] by (simp add: filter_map comp_def)
  also have "\<dots> = length (filter is_full (filter (\<lambda>x. datacenter sn (endpoint x) = d) as)) + k"
    unfolding k [symmetric]
    using sum_length_filter_compl [of is_transient "filter (\<lambda>x. datacenter sn (endpoint x) = d) as"]
    by (simp add: is_full_def [abs_def] conj_commute)
  finally have full: "length (filter (\<lambda>x. is_full x \<and> datacenter sn (endpoint x) = d) as) = n - k"
    by (simp add: conj_commute)
  have "mset (map endpoint (filter is_full as @ filter is_transient as)) = mset eps"
    unfolding eps [symmetric] by (simp add: is_full_def [abs_def] flip: image_mset_union)
  then show ?thesis
    unfolding Let_def calculate_write_endpoints_def calculate_transient_replicas_def
      calculate_read_endpoints_def calculate_full_replicas_def st_def [symmetric] reps
      eps_def [symmetric] n_def [symmetric] k_def [symmetric]
    using k full by (simp add: filter_map comp_def conj_commute is_full_def [abs_def])
qed

section \<open>The contract of a strategy\<close>

text \<open>
  What coordinators rely on: the replicas of a token are distinct nodes of the ring, so that
  counting answers counts nodes, and two sets of replicas that are together larger than the
  replica list share a node.
\<close>

locale replication_strategy =
  fixes endpoints :: "'e snitch \<Rightarrow> token \<Rightarrow> 'e token_ring \<Rightarrow> 'e list"
  assumes distinct_endpoints: "ring_ok r \<Longrightarrow> distinct (endpoints sn t r)"
    and endpoints_in_ring: "ring_ok r \<Longrightarrow> set (endpoints sn t r) \<subseteq> set (all_endpoints r)"
begin

lemma overlap:
  assumes "ring_ok r" "A \<subseteq> set (endpoints sn t r)" "B \<subseteq> set (endpoints sn t r)"
    "length (endpoints sn t r) < card A + card B"
  shows "A \<inter> B \<noteq> {}"
proof
  assume "A \<inter> B = {}"
  then have "card A + card B = card (A \<union> B)"
    using assms(2,3) by (simp add: card_Un_disjoint finite_subset)
  also have "\<dots> \<le> card (set (endpoints sn t r))"
    using assms(2,3) by (intro card_mono) auto
  finally show False
    using assms(4) distinct_card [OF distinct_endpoints [OF assms(1)]] by simp
qed

lemma replica_majority:
  assumes "ring_ok r"
  shows "majority (set (endpoints sn t r)) (length (endpoints sn t r) div 2 + 1)"
  using distinct_card [OF distinct_endpoints [OF assms]] by unfold_locales simp_all

end

locale bounded_strategy = replication_strategy endpoints
  for endpoints :: "'e snitch \<Rightarrow> token \<Rightarrow> 'e token_ring \<Rightarrow> 'e list" +
  fixes rf :: nat
  assumes bounded: "ring_ok r \<Longrightarrow> length (endpoints sn t r) \<le> rf"
begin

lemma rf_overlap:
  assumes "ring_ok r" "A \<subseteq> set (endpoints sn t r)" "B \<subseteq> set (endpoints sn t r)" "rf < card A + card B"
  shows "A \<inter> B \<noteq> {}"
  using overlap [OF assms(1-3)] bounded [OF assms(1), of sn t] assms(4) by simp

end

text \<open>The passes of \<open>NetworkTopologyStrategy\<close> meet it for every configuration.\<close>

definition nts_sane :: "'e set \<Rightarrow> nat \<Rightarrow> 'e nts_state \<Rightarrow> bool" where
  "nts_sane N limit s \<longleftrightarrow> seen_endpoints s = set (nts_result s) \<and> distinct (nts_result s) \<and>
     set (nts_result s) \<subseteq> N \<and> length (nts_result s) \<le> limit"

lemma nts_pass1_sane:
  assumes "nts_sane N (total_rf dcr) s" "length (nts_result s) < total_rf dcr" "set walk \<subseteq> N"
  shows "nts_sane N (total_rf dcr) (nts_pass1 sn dcr E walk s)"
  using assms
proof (induction walk arbitrary: s)
  case (Cons ep walk)
  have *: "nts_sane N (total_rf dcr) s' \<Longrightarrow> length (nts_result s') < total_rf dcr \<Longrightarrow>
      nts_sane N (total_rf dcr) (nts_pass1 sn dcr E walk s')" for s'
    using Cons by simp
  show ?case
    using Cons.prems by (auto simp: Let_def nts_sane_def split: option.split intro!: * [unfolded nts_sane_def])
qed simp

lemma nts_pass2_sane:
  assumes "nts_sane N (total_rf dcr) s" "length (nts_result s) < total_rf dcr" "set walk \<subseteq> N"
  shows "nts_sane N (total_rf dcr) (nts_pass2 sn dcr walk s)"
  using assms
proof (induction walk arbitrary: s)
  case (Cons ep walk)
  have *: "nts_sane N (total_rf dcr) s' \<Longrightarrow> length (nts_result s') < total_rf dcr \<Longrightarrow>
      nts_sane N (total_rf dcr) (nts_pass2 sn dcr walk s')" for s'
    using Cons by simp
  show ?case
    using Cons.prems by (auto simp: Let_def nts_sane_def split: option.split intro!: * [unfolded nts_sane_def])
qed simp

lemma nts_endpoints_sane:
  assumes "ring_ok r"
  shows "distinct (nts_endpoints dcr sn t r) \<and> set (nts_endpoints dcr sn t r) \<subseteq> set (all_endpoints r) \<and>
    length (nts_endpoints dcr sn t r) \<le> total_rf dcr"
proof (cases "ring_is_empty r \<or> total_rf dcr = 0")
  case False
  let ?E = "tr_entries r" and ?N = "set (all_endpoints r)"
  let ?walk = "ring_walk ?E (start_idx ?E t)"
  have walk: "set ?walk \<subseteq> ?N"
    using ring_walk_clockwise [OF ring_okD(1) [OF assms]]
    by (simp add: set_clockwise all_endpoints_owners [OF assms])
  have "nts_sane ?N (total_rf dcr) nts_init" "length (nts_result nts_init) < total_rf dcr"
    using False by (simp_all add: nts_sane_def nts_init_def)
  then have one: "nts_sane ?N (total_rf dcr) (nts_pass1 sn dcr ?E ?walk nts_init)"
    by (rule nts_pass1_sane [OF _ _ walk])
  show ?thesis
    using False one nts_pass2_sane [OF one _ walk, of sn]
    by (auto simp: nts_endpoints_def Let_def nts_sane_def)
qed (simp add: nts_endpoints_def)

lemma natural_endpoints_sane:
  assumes "ring_ok r"
  shows "distinct (natural_endpoints r t n)" "set (natural_endpoints r t n) \<subseteq> set (all_endpoints r)"
    "length (natural_endpoints r t n) \<le> n"
  using set_take_subset [of n "firsts (clockwise r t)"]
  by (auto simp: natural_endpoints_eq [OF assms] set_clockwise all_endpoints_owners [OF assms])

lemma primary_endpoint_in_ring:
  "ring_ok r \<Longrightarrow> primary_endpoint r t = Some ep \<Longrightarrow> ep \<in> set (all_endpoints r)"
  using set_clockwise [of r t]
  by (auto simp: primary_endpoint_eq all_endpoints_owners split: list.splits)

lemma strategy_endpoints_sane:
  assumes "ring_ok r"
  shows "distinct (calculate_natural_endpoints st sn t r)"
    "set (calculate_natural_endpoints st sn t r) \<subseteq> set (all_endpoints r)"
  using ring_okD(2) [OF assms] natural_endpoints_sane [OF assms] nts_endpoints_sane [OF assms]
    primary_endpoint_in_ring [OF assms]
  by (auto simp: calculate_natural_endpoints_def all_endpoints_def split: strategy.splits option.splits)

interpretation placement: replication_strategy "calculate_natural_endpoints st" for st
  by unfold_locales (fact strategy_endpoints_sane)+

interpretation simple: bounded_strategy "calculate_natural_endpoints (SimpleStrategy n)"
  "replication_factor (SimpleStrategy n)" for n
  by unfold_locales
    (simp add: natural_endpoints_sane calculate_natural_endpoints_def replication_factor_def)

interpretation old_nts: bounded_strategy "calculate_natural_endpoints (OldNetworkTopologyStrategy n)"
  "replication_factor (OldNetworkTopologyStrategy n)" for n
  by unfold_locales
    (simp add: natural_endpoints_sane calculate_natural_endpoints_def replication_factor_def)

interpretation nts: bounded_strategy "calculate_natural_endpoints (NetworkTopologyStrategy dcr)"
  "replication_factor (NetworkTopologyStrategy dcr)" for dcr
  by unfold_locales
    (simp add: nts_endpoints_sane calculate_natural_endpoints_def replication_factor_def)

interpretation local: bounded_strategy "calculate_natural_endpoints LocalStrategy"
  "replication_factor LocalStrategy"
  by unfold_locales
    (simp add: calculate_natural_endpoints_def replication_factor_def split: option.split)

interpretation transient_nts: bounded_strategy "calculate_natural_endpoints (TransientReplicationStrategy dcr trn)"
  "replication_factor (TransientReplicationStrategy dcr trn)" for dcr trn
  by unfold_locales
    (simp add: nts_endpoints_sane calculate_natural_endpoints_def replication_factor_def)

text \<open>So every configured strategy but the one for all nodes stays within its replication factor.\<close>

lemma configured_strategy_bounded:
  assumes "st \<noteq> EverywhereStrategy"
  shows "bounded_strategy (calculate_natural_endpoints st) (replication_factor st)"
  using assms simple.bounded_strategy_axioms old_nts.bounded_strategy_axioms nts.bounded_strategy_axioms
    local.bounded_strategy_axioms transient_nts.bounded_strategy_axioms
  by (cases st) auto

end
