(* ===== verification/Cluster.thy ===== *)
theory Cluster
  imports Replication
begin

text \<open>
  Nodes and the cluster snapshot (\<open>cluster-metadata/src/node.rs\<close>, \<open>cluster.rs\<close>).  Every
  update of \<open>ClusterMetadata\<close> clones the snapshot, changes the copy and swaps it in under
  the write lock, so an update is a function from snapshots to snapshots and readers see
  one of its results.  The lemmas show that the ring and the node table stay in step, so
  that every replica a strategy returns is a known node that claims the token it serves.
\<close>

datatype node_state = Joining | Normal | Leaving | Moving | Dead | Left | Replacing

definition is_live :: "node_state \<Rightarrow> bool" where
  "is_live s \<longleftrightarrow> s = Normal"

definition owns_tokens :: "node_state \<Rightarrow> bool" where
  "owns_tokens s \<longleftrightarrow> s \<in> {Normal, Leaving, Moving}"

definition is_removed :: "node_state \<Rightarrow> bool" where
  "is_removed s \<longleftrightarrow> s = Left"

definition is_transitioning :: "node_state \<Rightarrow> bool" where
  "is_transitioning s \<longleftrightarrow> s \<in> {Joining, Leaving, Moving, Replacing}"

record ('e, 'u) node_info =
  host_id :: 'u
  ni_endpoint :: 'e
  ni_datacenter :: string
  ni_rack :: string
  ni_tokens :: "token list"
  ni_state :: node_state
  load_bytes :: nat
  ni_schema_version :: "'u option"

definition node_info_new :: "'u \<Rightarrow> 'e \<Rightarrow> string \<Rightarrow> string \<Rightarrow> token list \<Rightarrow> ('e, 'u) node_info" where
  "node_info_new hid ep dc rk ts =
     \<lparr>host_id = hid, ni_endpoint = ep, ni_datacenter = dc, ni_rack = rk, ni_tokens = ts,
      ni_state = Normal, load_bytes = 0, ni_schema_version = None\<rparr>"

record ('e, 'u) cluster_snapshot =
  snap_ring :: "'e token_ring"
  snap_nodes :: "('e \<times> ('e, 'u) node_info) list"
  snap_schema_version :: "'u option"

definition snap_live_endpoints :: "('e, 'u) cluster_snapshot \<Rightarrow> 'e list" where
  "snap_live_endpoints s = map ni_endpoint (filter (\<lambda>n. is_live (ni_state n)) (map snd (snap_nodes s)))"

definition replicas_for_token ::
  "('e, 'u) cluster_snapshot \<Rightarrow> token \<Rightarrow> strategy \<Rightarrow> 'e snitch \<Rightarrow> 'e list" where
  "replicas_for_token s t st sn = calculate_natural_endpoints st sn t (snap_ring s)"

definition natural_replicas_for_token ::
  "('e, 'u) cluster_snapshot \<Rightarrow> token \<Rightarrow> strategy \<Rightarrow> 'e snitch \<Rightarrow> 'e replica list" where
  "natural_replicas_for_token s t st sn = calculate_natural_replicas st sn t (snap_ring s)"

definition replicas_for_key ::
  "(bytes \<Rightarrow> u64) \<Rightarrow> ('e, 'u) cluster_snapshot \<Rightarrow> bytes \<Rightarrow> strategy \<Rightarrow> 'e snitch \<Rightarrow> 'e list" where
  "replicas_for_key read_u64 s key st sn =
     replicas_for_token s (from_partition_key read_u64 key) st sn"

definition natural_replicas_for_key ::
  "(bytes \<Rightarrow> u64) \<Rightarrow> ('e, 'u) cluster_snapshot \<Rightarrow> bytes \<Rightarrow> strategy \<Rightarrow> 'e snitch \<Rightarrow> 'e replica list" where
  "natural_replicas_for_key read_u64 s key st sn =
     natural_replicas_for_token s (from_partition_key read_u64 key) st sn"

definition node_count :: "('e, 'u) cluster_snapshot \<Rightarrow> nat" where
  "node_count s = length (snap_nodes s)"

section \<open>Updates\<close>

definition cluster_new :: "('e, 'u) node_info \<Rightarrow> ('e, 'u) cluster_snapshot" where
  "cluster_new n =
     \<lparr>snap_ring = add_node (ni_endpoint n) (ni_tokens n) ring_new,
      snap_nodes = [(ni_endpoint n, n)], snap_schema_version = None\<rparr>"

definition update_node :: "('e, 'u) node_info \<Rightarrow> ('e, 'u) cluster_snapshot \<Rightarrow> ('e, 'u) cluster_snapshot" where
  "update_node n s =
     (let ring = remove_node (ni_endpoint n) (snap_ring s);
          ring = (if owns_tokens (ni_state n) then add_node (ni_endpoint n) (ni_tokens n) ring else ring)
      in s\<lparr>snap_ring := ring, snap_nodes := AList.update (ni_endpoint n) n (snap_nodes s)\<rparr>)"

definition cluster_remove_node :: "'e \<Rightarrow> ('e, 'u) cluster_snapshot \<Rightarrow> ('e, 'u) cluster_snapshot" where
  "cluster_remove_node ep s =
     s\<lparr>snap_ring := remove_node ep (snap_ring s), snap_nodes := AList.delete ep (snap_nodes s)\<rparr>"

definition mark_dead :: "'e \<Rightarrow> ('e, 'u) cluster_snapshot \<Rightarrow> ('e, 'u) cluster_snapshot" where
  "mark_dead ep s =
     (case map_of (snap_nodes s) ep of
        None \<Rightarrow> s
      | Some n \<Rightarrow> s\<lparr>snap_nodes := AList.update ep (n\<lparr>ni_state := Dead\<rparr>) (snap_nodes s)\<rparr>)"

definition mark_alive :: "'e \<Rightarrow> ('e, 'u) cluster_snapshot \<Rightarrow> ('e, 'u) cluster_snapshot" where
  "mark_alive ep s =
     (case map_of (snap_nodes s) ep of
        None \<Rightarrow> s
      | Some n \<Rightarrow>
          s\<lparr>snap_nodes := AList.update ep (n\<lparr>ni_state := Normal\<rparr>) (snap_nodes s),
            snap_ring := add_node ep (ni_tokens n) (snap_ring s)\<rparr>)"

definition set_schema_version :: "'u \<Rightarrow> ('e, 'u) cluster_snapshot \<Rightarrow> ('e, 'u) cluster_snapshot" where
  "set_schema_version v s = s\<lparr>snap_schema_version := Some v\<rparr>"

datatype ('e, 'u) cluster_op =
  UpdateNode "('e, 'u) node_info"
| ClusterRemoveNode 'e
| MarkDead 'e
| MarkAlive 'e
| SetSchemaVersion 'u

fun cluster_step :: "('e, 'u) cluster_op \<Rightarrow> ('e, 'u) cluster_snapshot \<Rightarrow> ('e, 'u) cluster_snapshot" where
  "cluster_step (UpdateNode n) s = update_node n s"
| "cluster_step (ClusterRemoveNode ep) s = cluster_remove_node ep s"
| "cluster_step (MarkDead ep) s = mark_dead ep s"
| "cluster_step (MarkAlive ep) s = mark_alive ep s"
| "cluster_step (SetSchemaVersion v) s = set_schema_version v s"

inductive cluster_reachable :: "('e, 'u) cluster_snapshot \<Rightarrow> bool" where
  start: "cluster_reachable (cluster_new n)"
| step: "cluster_reachable s \<Longrightarrow> cluster_reachable (cluster_step op s)"

section \<open>The ring and the node table agree\<close>

definition claims :: "('e \<times> ('e, 'u) node_info) list \<Rightarrow> 'e \<Rightarrow> token set" where
  "claims nodes ep = (case map_of nodes ep of None \<Rightarrow> {} | Some n \<Rightarrow> set (ni_tokens n))"

definition cluster_ok :: "('e, 'u) cluster_snapshot \<Rightarrow> bool" where
  "cluster_ok s \<longleftrightarrow> ring_ok (snap_ring s) \<and> distinct (map fst (snap_nodes s)) \<and>
     (\<forall>t ep. map_of (tr_entries (snap_ring s)) t = Some ep \<longrightarrow> t \<in> claims (snap_nodes s) ep)"

lemma claims_update [simp]: "claims (AList.update ep n nodes) = (claims nodes)(ep := set (ni_tokens n))"
  and claims_delete [simp]: "claims (AList.delete ep nodes) = (claims nodes)(ep := {})"
  by (simp_all add: claims_def update_conv' delete_conv' fun_eq_iff)

lemma claims_known: "map_of nodes ep = Some n \<Longrightarrow> claims nodes ep = set (ni_tokens n)"
  by (simp add: claims_def)

lemma entries_add_node:
  "map_of (tr_entries (add_node ep ts r)) t
     = (if t \<in> set ts then Some ep else map_of (tr_entries r) t)"
  unfolding add_node_def
  by (induction ts arbitrary: r) (auto simp: add_token_def Let_def)

lemma entries_remove_node:
  assumes "ring_ok r"
  shows "map_of (tr_entries (remove_node ep r)) t = Some e \<longleftrightarrow>
    e \<noteq> ep \<and> map_of (tr_entries r) t = Some e"
  using get_filter_distinct [OF bt_ok_distinct [OF ring_okD(1) [OF assms]], of "\<lambda>_ v. v \<noteq> ep" t]
  by (auto simp: remove_node_entries [OF assms] split: option.splits)

lemma cluster_ok_new: "cluster_ok (cluster_new n)"
  by (auto simp: cluster_ok_def cluster_new_def entries_add_node ring_new_def claims_def
      intro!: ring_ok_add_node ring_ok_new [unfolded ring_new_def])

lemma cluster_ok_step:
  assumes "cluster_ok s"
  shows "cluster_ok (cluster_step op s)"
proof -
  note ok_simps = cluster_ok_def distinct_update distinct_delete entries_add_node entries_remove_node
    ring_ok_add_node ring_ok_remove_node claims_known
  show ?thesis
  proof (cases op)
    case (UpdateNode n)
    then show ?thesis using assms by (simp add: ok_simps update_node_def Let_def)
  next
    case (ClusterRemoveNode ep)
    then show ?thesis using assms by (simp add: ok_simps cluster_remove_node_def)
  next
    case (MarkDead ep)
    then show ?thesis
      using assms by (cases "map_of (snap_nodes s) ep") (fastforce simp: ok_simps mark_dead_def simp del: map_of_eq_Some_iff)+
  next
    case (MarkAlive ep)
    then show ?thesis
      using assms by (cases "map_of (snap_nodes s) ep") (fastforce simp: ok_simps mark_alive_def simp del: map_of_eq_Some_iff)+
  next
    case (SetSchemaVersion v)
    then show ?thesis using assms by (simp add: ok_simps set_schema_version_def)
  qed
qed

lemma cluster_reachable_ok: "cluster_reachable s \<Longrightarrow> cluster_ok s"
  by (induction rule: cluster_reachable.induct) (auto intro: cluster_ok_new cluster_ok_step)

text \<open>Every replica is a known node; hints and liveness checks always find it.\<close>

lemma replicas_known:
  assumes "cluster_reachable s" "ep \<in> set (replicas_for_token s t st sn)"
  shows "\<exists>n. map_of (snap_nodes s) ep = Some n \<and> ni_tokens n \<noteq> []"
proof -
  have ok: "cluster_ok s" by (rule cluster_reachable_ok [OF assms(1)])
  then have ring: "ring_ok (snap_ring s)" by (simp add: cluster_ok_def)
  then have "ep \<in> snd ` set (tr_entries (snap_ring s))"
    using strategy_endpoints_sane(2) [OF ring, of st sn t] assms(2)
    by (auto simp: replicas_for_token_def all_endpoints_owners [OF ring])
  then obtain tok where "map_of (tr_entries (snap_ring s)) tok = Some ep"
    using bt_ok_distinct [OF ring_okD(1) [OF ring]] by (auto simp: map_of_eq_Some_iff)
  with ok have "tok \<in> claims (snap_nodes s) ep" by (simp add: cluster_ok_def)
  then show ?thesis
    by (cases "map_of (snap_nodes s) ep") (auto simp: claims_def)
qed

end
