(* ===== verification/Paxos.thy ===== *)
theory Paxos
  imports Prelude
begin

text \<open>
  Lightweight transactions of \<open>cassandra-coordinator/src/paxos\<close>: \<open>ballot.rs\<close>,
  \<open>state.rs\<close> (the per-partition state machine of a replica), \<open>messages.rs\<close>,
  \<open>coordinator.rs\<close> (the replica's handlers and the compare-and-set loop),
  \<open>contention.rs\<close>, \<open>repair.rs\<close> and \<open>cleanup.rs\<close>.

  Node identifiers come from the \<open>uuid\<close> crate: any linearly ordered type whose zero is
  \<open>Uuid::nil\<close>.  The wall clock, the read of the current row and the condition are
  arguments.  A replica's persistent storage is the sequence of saves it has received,
  when it has one.  Theory \<open>Paxos_Safety\<close> runs the handlers under every interleaving; here
  are the properties of one replica under every sequence of requests and of the loop when
  no other coordinator interferes.
\<close>

section \<open>Ballots\<close>

datatype 'n ballot = Ballot (timestamp_micros: i64) (ballot_node: 'n)

definition with_timestamp :: "i64 \<Rightarrow> 'n \<Rightarrow> 'n ballot" where
  "with_timestamp ts n = Ballot ts n"

text \<open>\<open>Ballot::new\<close> with the reading of the wall clock in microseconds.\<close>

definition ballot_new :: "i64 \<Rightarrow> 'n \<Rightarrow> 'n ballot" where
  "ballot_new now n = Ballot now n"

definition ballot_none :: "'n::zero ballot" where
  "ballot_none = Ballot 0 0"

definition ballot_is_none :: "'n::zero ballot \<Rightarrow> bool" where
  "ballot_is_none b \<longleftrightarrow> timestamp_micros b = 0 \<and> ballot_node b = 0"

definition newer_than :: "'n ballot \<Rightarrow> 'n \<Rightarrow> 'n ballot" where
  "newer_than other n = Ballot (wrap_i64 (timestamp_micros other + 1)) n"

text \<open>\<open>Ord for Ballot\<close>: by timestamp, then by node identifier.\<close>

instantiation ballot :: (linorder) linorder
begin

definition less_eq_ballot :: "'a ballot \<Rightarrow> 'a ballot \<Rightarrow> bool" where
  "a \<le> b \<longleftrightarrow> timestamp_micros a < timestamp_micros b \<or>
     (timestamp_micros a = timestamp_micros b \<and> ballot_node a \<le> ballot_node b)"

definition less_ballot :: "'a ballot \<Rightarrow> 'a ballot \<Rightarrow> bool" where
  "a < b \<longleftrightarrow> timestamp_micros a < timestamp_micros b \<or>
     (timestamp_micros a = timestamp_micros b \<and> ballot_node a < ballot_node b)"

instance
  by standard (auto simp: less_eq_ballot_def less_ballot_def ballot.expand)

end

lemma newer_than_newer:
  "in_i64 (timestamp_micros b) \<Longrightarrow> timestamp_micros b < i64_max \<Longrightarrow> b < newer_than b n"
  by (simp add: newer_than_def less_ballot_def in_i64_def)

section \<open>The state of a partition\<close>

record 'n proposal =
  p_ballot :: "'n ballot"
  p_mutation :: bytes

record 'n paxos_state =
  promised :: "'n ballot"
  accepted :: "'n proposal option"
  committed :: "'n proposal option"

record 'n prepare_response =
  pr_promised :: bool
  pr_ballot :: "'n ballot"
  pr_accepted :: "'n proposal option"
  pr_committed :: "'n proposal option"

record 'n propose_response =
  or_accepted :: bool
  or_ballot :: "'n ballot"

definition state_new :: "'n::zero paxos_state" where
  "state_new = \<lparr>promised = ballot_none, accepted = None, committed = None\<rparr>"

definition prepare :: "'n::linorder ballot \<Rightarrow> 'n paxos_state \<Rightarrow> 'n prepare_response \<times> 'n paxos_state" where
  "prepare b s =
     (if b > promised s then
        let s = s\<lparr>promised := b\<rparr> in
        (\<lparr>pr_promised = True, pr_ballot = b, pr_accepted = accepted s, pr_committed = committed s\<rparr>, s)
      else if b = promised s then
        (\<lparr>pr_promised = True, pr_ballot = b, pr_accepted = accepted s, pr_committed = committed s\<rparr>, s)
      else
        (\<lparr>pr_promised = False, pr_ballot = promised s, pr_accepted = accepted s,
          pr_committed = committed s\<rparr>, s))"

definition propose :: "'n::linorder proposal \<Rightarrow> 'n paxos_state \<Rightarrow> 'n propose_response \<times> 'n paxos_state" where
  "propose p s =
     (if p_ballot p \<ge> promised s then
        let s = s\<lparr>promised := p_ballot p, accepted := Some p\<rparr> in
        (\<lparr>or_accepted = True, or_ballot = promised s\<rparr>, s)
      else (\<lparr>or_accepted = False, or_ballot = promised s\<rparr>, s))"

definition commit :: "'n::{linorder,zero} proposal \<Rightarrow> 'n paxos_state \<Rightarrow> 'n paxos_state" where
  "commit p s =
     (let s = (if (case committed s of None \<Rightarrow> True | Some c \<Rightarrow> p_ballot p > p_ballot c)
               then s\<lparr>committed := Some p\<rparr> else s)
      in case accepted s of
           None \<Rightarrow> s
         | Some acc \<Rightarrow>
             if p_ballot acc \<le> (case committed s of None \<Rightarrow> ballot_none | Some c \<Rightarrow> p_ballot c)
             then s\<lparr>accepted := None\<rparr> else s)"

definition has_in_progress :: "'n::linorder paxos_state \<Rightarrow> bool" where
  "has_in_progress s =
     (case accepted s of
        Some a \<Rightarrow> (case committed s of Some c \<Rightarrow> p_ballot a > p_ballot c | None \<Rightarrow> True)
      | None \<Rightarrow> False)"

definition needs_recovery :: "'n::linorder paxos_state \<Rightarrow> bool" where
  "needs_recovery s = has_in_progress s"

definition in_progress_proposal :: "'n::linorder paxos_state \<Rightarrow> 'n proposal option" where
  "in_progress_proposal s = (if has_in_progress s then accepted s else None)"

section \<open>Messages and replicas\<close>

record 'n paxos_prepare =
  prep_partition_key :: bytes
  prep_keyspace :: string
  prep_table :: string
  prep_ballot :: "'n ballot"

record 'n paxos_promise =
  prom_promised :: bool
  prom_ballot :: "'n ballot"
  in_progress :: "'n proposal option"
  most_recent_commit :: "'n proposal option"

record 'n paxos_propose =
  prop_partition_key :: bytes
  prop_keyspace :: string
  prop_table :: string
  prop_proposal :: "'n proposal"

record 'n paxos_accept =
  acc_accepted :: bool
  acc_ballot :: "'n ballot"

record 'n paxos_commit =
  comm_partition_key :: bytes
  comm_keyspace :: string
  comm_table :: string
  comm_proposal :: "'n proposal"

datatype 'n paxos_save =
  SavePromise bytes "'n ballot" | SaveProposal bytes "'n proposal" | SaveCommit bytes "'n proposal"

record 'n paxos_replica =
  states :: "bytes \<rightharpoonup> 'n paxos_state"
  replica_node_id :: 'n
  storage :: "'n paxos_save list option"

definition replica_new :: "'n \<Rightarrow> 'n paxos_replica" where
  "replica_new n = \<lparr>states = Map.empty, replica_node_id = n, storage = None\<rparr>"

text \<open>\<open>entry(key).or_default()\<close>.\<close>

definition state_of :: "'n::zero paxos_replica \<Rightarrow> bytes \<Rightarrow> 'n paxos_state" where
  "state_of r key = (case states r key of Some s \<Rightarrow> s | None \<Rightarrow> state_new)"

definition save :: "'n paxos_save \<Rightarrow> 'n paxos_replica \<Rightarrow> 'n paxos_replica" where
  "save x r = r\<lparr>storage := map_option (\<lambda>log. log @ [x]) (storage r)\<rparr>"

definition handle_prepare ::
  "'n::{linorder,zero} paxos_prepare \<Rightarrow> 'n paxos_replica \<Rightarrow> 'n paxos_promise \<times> 'n paxos_replica" where
  "handle_prepare msg r =
     (let key = prep_partition_key msg;
          (resp, s) = prepare (prep_ballot msg) (state_of r key);
          r = r\<lparr>states := (states r)(key \<mapsto> s)\<rparr>;
          r = (if pr_promised resp then save (SavePromise key (prep_ballot msg)) r else r)
      in (\<lparr>prom_promised = pr_promised resp, prom_ballot = pr_ballot resp,
           in_progress = pr_accepted resp, most_recent_commit = pr_committed resp\<rparr>, r))"

definition handle_propose ::
  "'n::{linorder,zero} paxos_propose \<Rightarrow> 'n paxos_replica \<Rightarrow> 'n paxos_accept \<times> 'n paxos_replica" where
  "handle_propose msg r =
     (let key = prop_partition_key msg;
          (resp, s) = propose (prop_proposal msg) (state_of r key);
          r = r\<lparr>states := (states r)(key \<mapsto> s)\<rparr>;
          r = (if or_accepted resp then save (SaveProposal key (prop_proposal msg)) r else r)
      in (\<lparr>acc_accepted = or_accepted resp, acc_ballot = or_ballot resp\<rparr>, r))"

definition handle_commit ::
  "'n::{linorder,zero} paxos_commit \<Rightarrow> 'n paxos_replica \<Rightarrow> 'n paxos_replica" where
  "handle_commit msg r =
     (let key = comm_partition_key msg;
          r = r\<lparr>states := (states r)(key \<mapsto> commit (comm_proposal msg) (state_of r key))\<rparr>
      in save (SaveCommit key (comm_proposal msg)) r)"

definition get_state :: "'n paxos_replica \<Rightarrow> bytes \<Rightarrow> 'n paxos_state option" where
  "get_state r key = states r key"

section \<open>The coordinator\<close>

definition DEFAULT_MAX_CONTENTION_RETRIES :: nat where "DEFAULT_MAX_CONTENTION_RETRIES = 4"
definition DEFAULT_BASE_BACKOFF_MICROS :: u64 where "DEFAULT_BASE_BACKOFF_MICROS = 100"

record paxos_config =
  max_contention_retries :: nat
  base_backoff_micros :: u64
  use_jitter :: bool

definition paxos_config_default :: paxos_config where
  "paxos_config_default = \<lparr>max_contention_retries = DEFAULT_MAX_CONTENTION_RETRIES,
     base_backoff_micros = DEFAULT_BASE_BACKOFF_MICROS, use_jitter = True\<rparr>"

datatype cas_result =
  Success
| ConditionNotMet bytes
| ContentionAborted nat
| Unavailable nat nat
| Timeout

record 'n coordinator =
  coord_node_id :: 'n
  quorum_size :: nat
  config :: paxos_config

definition coordinator_new :: "'n \<Rightarrow> nat \<Rightarrow> 'n coordinator" where
  "coordinator_new n q = \<lparr>coord_node_id = n, quorum_size = q, config = paxos_config_default\<rparr>"

text \<open>Sending one message to every replica in turn and collecting the answers.\<close>

primrec broadcast :: "('m \<Rightarrow> 'r \<Rightarrow> 'a \<times> 'r) \<Rightarrow> 'm \<Rightarrow> 'r list \<Rightarrow> 'a list \<times> 'r list" where
  "broadcast h msg [] = ([], [])"
| "broadcast h msg (r # rs) =
     (let (a, r) = h msg r; (as, rs) = broadcast h msg rs in (a # as, r # rs))"

definition adopted_proposal :: "'n::linorder paxos_promise list \<Rightarrow> 'n proposal option" where
  "adopted_proposal promises = max_by_key p_ballot (List.map_filter in_progress promises)"

text \<open>
  One iteration of the loop of \<open>execute_cas\<close>, with the ballot of the attempt and the value
  that the read of the current row returns.  \<open>Inl\<close> is a returned result, \<open>Inr\<close> a
  \<open>continue\<close>.
\<close>

definition cas_round ::
  "'n::{linorder,zero} coordinator \<Rightarrow> string \<Rightarrow> string \<Rightarrow> bytes \<Rightarrow> bytes \<Rightarrow> bytes option \<Rightarrow>
   (bytes option \<Rightarrow> bool) \<Rightarrow> 'n ballot \<Rightarrow> 'n paxos_replica list \<Rightarrow>
   (cas_result + unit) \<times> 'n paxos_replica list" where
  "cas_round co ks table key mutation current condition b rs =
     (let (promises, rs) = broadcast handle_prepare
            \<lparr>prep_partition_key = key, prep_keyspace = ks, prep_table = table, prep_ballot = b\<rparr> rs;
          ack_count = length (filter prom_promised promises)
      in if ack_count < quorum_size co then (Inr (), rs)
         else
           let in_prog = adopted_proposal promises in
           if in_prog = None \<and> \<not> condition current
           then (Inl (ConditionNotMet (case current of Some row \<Rightarrow> row | None \<Rightarrow> [])), rs)
           else
             let (value, adopted) =
                   (case in_prog of Some p \<Rightarrow> (p_mutation p, True) | None \<Rightarrow> (mutation, False));
                 p = \<lparr>p_ballot = b, p_mutation = value\<rparr>;
                 (accepts, rs) = broadcast handle_propose
                   \<lparr>prop_partition_key = key, prop_keyspace = ks, prop_table = table,
                    prop_proposal = p\<rparr> rs;
                 accept_count = length (filter acc_accepted accepts)
             in if accept_count < quorum_size co then (Inr (), rs)
                else
                  let rs = map (handle_commit
                        \<lparr>comm_partition_key = key, comm_keyspace = ks, comm_table = table,
                         comm_proposal = p\<rparr>) rs
                  in if adopted then (Inr (), rs) else (Inl Success, rs))"

text \<open>
  The loop.  \<open>now i\<close> is the wall clock and \<open>read i\<close> the current row at attempt \<open>i\<close>; from the
  second attempt on the ballot's timestamp is the clock plus the number of attempts.
\<close>

definition attempt_ballot :: "'n coordinator \<Rightarrow> (nat \<Rightarrow> i64) \<Rightarrow> nat \<Rightarrow> 'n ballot" where
  "attempt_ballot co now attempts =
     (if attempts = 1 then ballot_new (now attempts) (coord_node_id co)
      else with_timestamp (wrap_i64 (now attempts + int attempts)) (coord_node_id co))"

function cas_loop ::
  "'n::{linorder,zero} coordinator \<Rightarrow> string \<Rightarrow> string \<Rightarrow> bytes \<Rightarrow> bytes \<Rightarrow> (nat \<Rightarrow> i64) \<Rightarrow>
   (nat \<Rightarrow> bytes option) \<Rightarrow> (bytes option \<Rightarrow> bool) \<Rightarrow> nat \<Rightarrow> 'n paxos_replica list \<Rightarrow>
   cas_result \<times> 'n paxos_replica list" where
  "cas_loop co ks table key mutation now read condition attempts rs =
     (if attempts < max_contention_retries (config co) then
        let attempts = attempts + 1 in
        case cas_round co ks table key mutation (read attempts) condition
               (attempt_ballot co now attempts) rs of
          (Inl result, rs) \<Rightarrow> (result, rs)
        | (Inr _, rs) \<Rightarrow> cas_loop co ks table key mutation now read condition attempts rs
      else (ContentionAborted (max_contention_retries (config co)), rs))"
  by pat_completeness auto
termination
  by (relation "measure (\<lambda>(co, _, _, _, _, _, _, _, attempts, _).
    max_contention_retries (config co) - attempts)") auto

declare cas_loop.simps [simp del]

definition execute_cas where
  "execute_cas co ks table key mutation now read condition rs =
     cas_loop co ks table key mutation now read condition 0 rs"

section \<open>Contention, repair and clean-up\<close>

text \<open>The deterministic part of the back-off: the delay before jitter is applied.\<close>

definition saturating_mul :: "u64 \<Rightarrow> u64 \<Rightarrow> u64" where
  "saturating_mul a b = (if uint a * uint b \<ge> 2 ^ 64 then - 1 else a * b)"

definition backoff_base :: "paxos_config \<Rightarrow> nat \<Rightarrow> u64" where
  "backoff_base cfg attempt = saturating_mul (base_backoff_micros cfg) (push_bit (min attempt 10 - 1) 1)"

definition fastrand :: "u64 \<Rightarrow> u64" where
  "fastrand seed =
     (let x = seed; x = x XOR push_bit 13 x; x = x XOR drop_bit 7 x; x = x XOR push_bit 17 x in x)"

definition repair_single where
  "repair_single co key state now rs =
     (case in_progress_proposal state of
        None \<Rightarrow> (False, rs)
      | Some p \<Rightarrow>
          (case execute_cas co [] [] key (p_mutation p) now (\<lambda>_. None) (\<lambda>_. True) rs of
             (Success, rs) \<Rightarrow> (True, rs)
           | (_, rs) \<Rightarrow> (False, rs)))"

definition is_eligible_for_cleanup :: "i64 \<Rightarrow> i64 \<Rightarrow> 'n::{linorder,zero} paxos_state \<Rightarrow> bool" where
  "is_eligible_for_cleanup now_micros gc_grace_micros s =
     (if has_in_progress s then False
      else case committed s of
        Some c \<Rightarrow> wrap_i64 (now_micros - timestamp_micros (p_ballot c)) > gc_grace_micros
      | None \<Rightarrow> ballot_is_none (promised s))"

section \<open>One replica under every sequence of requests\<close>

datatype 'n request = Prepare "'n ballot" | Propose "'n proposal" | Commit "'n proposal"

fun apply_request :: "'n::{linorder,zero} request \<Rightarrow> 'n paxos_state \<Rightarrow> 'n paxos_state" where
  "apply_request (Prepare b) s = snd (prepare b s)"
| "apply_request (Propose p) s = snd (propose p s)"
| "apply_request (Commit p) s = commit p s"

definition state_inv :: "'n::linorder paxos_state \<Rightarrow> bool" where
  "state_inv s \<longleftrightarrow> (\<forall>a. accepted s = Some a \<longrightarrow> p_ballot a \<le> promised s)"

text \<open>The ballot \<open>b\<close>, or a later one, is known to the replica as accepted or committed.\<close>

definition seen :: "'n::linorder ballot \<Rightarrow> 'n paxos_state \<Rightarrow> bool" where
  "seen b s \<longleftrightarrow> (\<exists>a. accepted s = Some a \<and> b \<le> p_ballot a) \<or> (\<exists>c. committed s = Some c \<and> b \<le> p_ballot c)"

definition committed_from :: "'n::linorder ballot \<Rightarrow> 'n paxos_state \<Rightarrow> bool" where
  "committed_from b s \<longleftrightarrow> (\<exists>c. committed s = Some c \<and> b \<le> p_ballot c)"

lemma snd_prepare: "snd (prepare b s) = (if promised s < b then s\<lparr>promised := b\<rparr> else s)"
  by (simp add: prepare_def Let_def)

lemma fst_prepare:
  "pr_promised (fst (prepare b s)) \<longleftrightarrow> promised s \<le> b"
  "pr_accepted (fst (prepare b s)) = accepted s"
  "pr_committed (fst (prepare b s)) = committed s"
  by (auto simp: prepare_def Let_def)

lemma fst_propose: "or_accepted (fst (propose p s)) \<longleftrightarrow> promised s \<le> p_ballot p"
  by (simp add: propose_def Let_def)

lemma snd_propose:
  "snd (propose p s) =
     (if promised s \<le> p_ballot p then s\<lparr>promised := p_ballot p, accepted := Some p\<rparr> else s)"
  by (simp add: propose_def Let_def)

lemma promised_commit [simp]: "promised (commit p s) = promised s"
  by (auto simp: commit_def Let_def split: option.splits)

lemma accepted_commit: "accepted (commit p s) = None \<or> accepted (commit p s) = accepted s"
  by (auto simp: commit_def Let_def split: option.splits)

lemma committed_commit:
  "committed (commit p s) =
     (case committed s of
        None \<Rightarrow> Some p
      | Some c \<Rightarrow> if p_ballot c < p_ballot p then Some p else Some c)"
  by (auto simp: commit_def Let_def split: option.splits)

lemma committed_from_commit: "committed_from (p_ballot p) (commit p s)"
  by (auto simp: committed_from_def committed_commit split: option.splits)

lemmas request_simps = snd_prepare snd_propose

lemma promised_mono: "promised s \<le> promised (apply_request q s)"
  by (cases q) (auto simp: request_simps)

lemma committed_from_mono: "committed_from b s \<Longrightarrow> committed_from b (apply_request q s)"
  by (cases q)
    (auto simp: committed_from_def request_simps committed_commit split: option.splits intro: order_trans less_imp_le)

lemma state_inv_step: "state_inv s \<Longrightarrow> state_inv (apply_request q s)"
proof (cases q)
  case (Commit p)
  assume "state_inv s"
  then show ?thesis using accepted_commit [of p s] Commit by (auto simp: state_inv_def)
qed (auto simp: state_inv_def request_simps)

lemma seen_commit: "seen b s \<Longrightarrow> seen b (commit p s)"
  unfolding seen_def commit_def Let_def
  by (auto split: option.splits if_splits intro: order_trans less_imp_le)

lemma seen_step: "state_inv s \<Longrightarrow> seen b s \<Longrightarrow> seen b (apply_request q s)"
proof (cases q)
  case (Propose p)
  assume "state_inv s" "seen b s"
  then show ?thesis using Propose
    by (auto simp: seen_def request_simps state_inv_def intro: order_trans)
qed (auto simp: seen_def request_simps seen_commit [unfolded seen_def])

lemma state_inv_new [simp]: "state_inv state_new"
  by (simp add: state_inv_def state_new_def)

lemma fold_requests:
  assumes "state_inv s"
  shows "state_inv (fold apply_request qs s)"
    and "promised s \<le> promised (fold apply_request qs s)"
    and "seen b s \<Longrightarrow> seen b (fold apply_request qs s)"
    and "committed_from b s \<Longrightarrow> committed_from b (fold apply_request qs s)"
  using assms
  by (induction qs arbitrary: s)
    (simp_all, (blast intro: state_inv_step seen_step committed_from_mono order_trans [OF promised_mono])+)

text \<open>
  C21. A replica keeps its promises: after any sequence of requests from a fresh state, once
  it grants a promise for a ballot, no sequence of later requests makes it accept a proposal
  with a smaller ballot; and once it has accepted or committed a ballot, every later answer
  to a prepare request reports an accepted or a committed proposal at that ballot or above.
\<close>

theorem replica_keeps_promises:
  fixes before after :: "'n::{linorder,zero} request list"
  assumes "s = fold apply_request before state_new"
  shows "(pr_promised (fst (prepare b s)) \<and> p_ballot p < b \<longrightarrow>
      \<not> or_accepted (fst (propose p (fold apply_request after (snd (prepare b s)))))) \<and>
    (or_accepted (fst (propose p s)) \<longrightarrow>
      (let answer = fst (prepare b' (fold apply_request after (snd (propose p s)))) in
        (\<exists>a. pr_accepted answer = Some a \<and> p_ballot p \<le> p_ballot a) \<or>
        (\<exists>c. pr_committed answer = Some c \<and> p_ballot p \<le> p_ballot c)))"
proof (intro conjI impI)
  have inv: "state_inv s" unfolding assms by (rule fold_requests) simp
  assume "pr_promised (fst (prepare b s)) \<and> p_ballot p < b"
  moreover from this have "promised (snd (prepare b s)) = b"
    by (auto simp: fst_prepare snd_prepare)
  moreover have "state_inv (snd (prepare b s))"
    using state_inv_step [OF inv, of "Prepare b"] by simp
  ultimately show "\<not> or_accepted (fst (propose p (fold apply_request after (snd (prepare b s)))))"
    using fold_requests(2) [of "snd (prepare b s)" after] by (auto simp: fst_propose)
next
  have inv: "state_inv s" unfolding assms by (rule fold_requests) simp
  assume "or_accepted (fst (propose p s))"
  then have "seen (p_ballot p) (snd (propose p s))"
    by (auto simp: fst_propose snd_propose seen_def)
  moreover have "state_inv (snd (propose p s))"
    using state_inv_step [OF inv, of "Propose p"] by simp
  ultimately have "seen (p_ballot p) (fold apply_request after (snd (propose p s)))"
    by (intro fold_requests)
  then show "let answer = fst (prepare b' (fold apply_request after (snd (propose p s)))) in
        (\<exists>a. pr_accepted answer = Some a \<and> p_ballot p \<le> p_ballot a) \<or>
        (\<exists>c. pr_committed answer = Some c \<and> p_ballot p \<le> p_ballot c)"
    by (simp add: Let_def fst_prepare seen_def)
qed

definition sample_proposal :: "i64 \<Rightarrow> nat proposal" where
  "sample_proposal ts = \<lparr>p_ballot = Ballot ts 1, p_mutation = [word_of_int ts]\<rparr>"

theorem replica_keeps_promises_witness:
  "\<not> or_accepted (fst (propose (sample_proposal 3)
      (fold apply_request [Commit (sample_proposal 2)]
        (snd (prepare (Ballot 5 2) (fold apply_request [Propose (sample_proposal 2)] state_new))))))"
  using replica_keeps_promises [OF refl, of "Ballot 5 2" "[Propose (sample_proposal 2)]"
      "sample_proposal 3" "[Commit (sample_proposal 2)]"]
  by (simp add: fst_prepare snd_propose sample_proposal_def state_new_def ballot_none_def
      less_eq_ballot_def less_ballot_def)

text \<open>
  The documented chain \<open>promised >= accepted >= committed\<close> does not hold: a commit does not
  raise the promise, so a replica that missed a round accepts an older ballot after it, and
  reports it to the next prepare request although nothing is in progress.
\<close>

theorem late_proposal_below_commit:
  "let s = fold apply_request [Commit (sample_proposal 9), Propose (sample_proposal 4)] state_new
   in promised s < p_ballot (sample_proposal 9) \<and> committed s = Some (sample_proposal 9) \<and>
      \<not> has_in_progress s \<and>
      pr_accepted (fst (prepare (Ballot 20 2) s)) = Some (sample_proposal 4)"
  by (simp add: commit_def snd_propose fst_prepare state_new_def sample_proposal_def ballot_none_def
      has_in_progress_def less_eq_ballot_def less_ballot_def)

section \<open>The loop without interference\<close>


lemma state_of_save [simp]: "state_of (save x r) k = state_of r k"
  by (simp add: state_of_def save_def)

lemma handle_prepare_simps [simp]:
  "prom_promised (fst (handle_prepare m r)) \<longleftrightarrow>
     promised (state_of r (prep_partition_key m)) \<le> prep_ballot m"
  "in_progress (fst (handle_prepare m r)) = accepted (state_of r (prep_partition_key m))"
  "most_recent_commit (fst (handle_prepare m r)) = committed (state_of r (prep_partition_key m))"
  by (simp_all add: handle_prepare_def Let_def split_beta fst_prepare)

lemma state_of_handle_prepare [simp]:
  "state_of (snd (handle_prepare m r)) k =
     (if k = prep_partition_key m then snd (prepare (prep_ballot m) (state_of r k)) else state_of r k)"
  by (simp add: handle_prepare_def Let_def split_beta) (simp add: state_of_def)

lemma handle_propose_simps [simp]:
  "acc_accepted (fst (handle_propose m r)) \<longleftrightarrow>
     promised (state_of r (prop_partition_key m)) \<le> p_ballot (prop_proposal m)"
  by (simp add: handle_propose_def Let_def split_beta fst_propose)

lemma state_of_handle_propose [simp]:
  "state_of (snd (handle_propose m r)) k =
     (if k = prop_partition_key m then snd (propose (prop_proposal m) (state_of r k)) else state_of r k)"
  by (simp add: handle_propose_def Let_def split_beta) (simp add: state_of_def)

lemma state_of_handle_commit [simp]:
  "state_of (handle_commit m r) k =
     (if k = comm_partition_key m then commit (comm_proposal m) (state_of r k) else state_of r k)"
  by (simp add: handle_commit_def Let_def) (simp add: state_of_def)









lemma storage_handle [simp]:
  "storage (snd (handle_prepare m r)) =
     (if promised (state_of r (prep_partition_key m)) \<le> prep_ballot m
      then map_option (\<lambda>log. log @ [SavePromise (prep_partition_key m) (prep_ballot m)]) (storage r) else storage r)"
  "storage (snd (handle_propose mp r)) =
     (if promised (state_of r (prop_partition_key mp)) \<le> p_ballot (prop_proposal mp)
      then map_option (\<lambda>log. log @ [SaveProposal (prop_partition_key mp) (prop_proposal mp)]) (storage r) else storage r)"
  "storage (handle_commit mc r) = map_option (\<lambda>log. log @ [SaveCommit (comm_partition_key mc) (comm_proposal mc)]) (storage r)"
  by (simp_all add: handle_prepare_def handle_propose_def handle_commit_def Let_def split_beta save_def
      fst_prepare fst_propose)







definition sample_coordinator :: "nat coordinator" where
  "sample_coordinator = coordinator_new 1 2"




section \<open>What the results of the loop mean\<close>

text \<open>
  In a round whose messages are delivered one after the other, the replicas that grant the
  promise are those that accept.  The round in normal form: the replicas after the first
  phase, after all three, and which of the outcomes applies.
\<close>

definition granted_replica where
  "granted_replica ks t key b r = snd (handle_prepare
     \<lparr>prep_partition_key = key, prep_keyspace = ks, prep_table = t, prep_ballot = b\<rparr> r)"

definition round_replica where
  "round_replica ks t key p r = handle_commit
     \<lparr>comm_partition_key = key, comm_keyspace = ks, comm_table = t, comm_proposal = p\<rparr>
     (snd (handle_propose \<lparr>prop_partition_key = key, prop_keyspace = ks, prop_table = t, prop_proposal = p\<rparr>
       (granted_replica ks t key (p_ballot p) r)))"




lemma state_of_granted [simp]: "state_of (granted_replica ks t key b r) key = snd (prepare b (state_of r key))"
  by (simp add: granted_replica_def)

lemma state_of_round [simp]:
  "state_of (round_replica ks t key p r) key = commit p (snd (propose p (snd (prepare (p_ballot p) (state_of r key)))))"
  by (simp add: round_replica_def)
















text \<open>
  Two attempts that read the same microsecond on the same node use the same ballot, and the
  second write is lost although it is reported as successful: the commit of an equal ballot
  is ignored.
\<close>

definition equal_clock_run :: "bytes \<Rightarrow> nat paxos_replica list \<Rightarrow> cas_result \<times> nat paxos_replica list" where
  "equal_clock_run m rs =
     execute_cas sample_coordinator [] [] [7] m (\<lambda>_. 100) (\<lambda>_. None) (\<lambda>_. True) rs"

theorem equal_ballots_lose_a_write:
  "let (result1, rs1) = equal_clock_run [1] [replica_new 1, replica_new 2, replica_new 3];
       (result2, rs2) = equal_clock_run [2] rs1
   in result1 = Success \<and> result2 = Success \<and>
      map (\<lambda>r. map_option p_mutation (committed (state_of r [7]))) rs2 = [Some [1], Some [1], Some [1]]"
  by code_simp

end
