(* ===== verification/Consistency.thy ===== *)
theory Consistency
  imports Replication
begin

text \<open>
  Consistency levels (\<open>coordinator/src/consistency.rs\<close>) and replica plans
  (\<open>cluster-metadata/src/replica_plan.rs\<close>).  A \<open>HashMap\<close> from datacenters to counts is an
  association list with distinct keys.  The theorems combine the levels with the placement
  of replicas: when a write and a read at levels that together exceed the replication
  factor have been answered, some replica answered both.
\<close>

section \<open>Levels\<close>

datatype consistency_level =
  One | Two | Three | Quorum | All | LocalQuorum | EachQuorum | Serial | LocalSerial | LocalOne | Any

definition block_for :: "consistency_level \<Rightarrow> nat \<Rightarrow> nat" where
  "block_for cl rf =
     (case cl of
        One \<Rightarrow> 1 | LocalOne \<Rightarrow> 1
      | Two \<Rightarrow> min 2 rf
      | Three \<Rightarrow> min 3 rf
      | Quorum \<Rightarrow> rf div 2 + 1 | LocalQuorum \<Rightarrow> rf div 2 + 1
      | Serial \<Rightarrow> rf div 2 + 1 | LocalSerial \<Rightarrow> rf div 2 + 1
      | All \<Rightarrow> rf
      | Any \<Rightarrow> 1
      | EachQuorum \<Rightarrow> rf div 2 + 1)"

definition is_satisfied :: "consistency_level \<Rightarrow> nat \<Rightarrow> nat \<Rightarrow> bool" where
  "is_satisfied cl received rf \<longleftrightarrow> block_for cl rf \<le> received"

definition is_serial :: "consistency_level \<Rightarrow> bool" where
  "is_serial cl \<longleftrightarrow> cl \<in> {Serial, LocalSerial}"

definition is_local :: "consistency_level \<Rightarrow> bool" where
  "is_local cl \<longleftrightarrow> cl \<in> {LocalOne, LocalQuorum, LocalSerial}"

definition requires_write :: "consistency_level \<Rightarrow> bool" where
  "requires_write cl \<longleftrightarrow> \<not> is_serial cl"

definition is_datacenter_local :: "consistency_level \<Rightarrow> bool" where
  "is_datacenter_local cl \<longleftrightarrow> cl \<in> {LocalOne, LocalQuorum, LocalSerial}"

type_synonym dc_counts = "(string \<times> nat) list"

definition block_for_each_quorum :: "dc_counts \<Rightarrow> nat" where
  "block_for_each_quorum dc_rf_map = sum_list (map (\<lambda>(_, rf). rf div 2 + 1) dc_rf_map)"

definition block_for_replicated_dcs :: "consistency_level \<Rightarrow> dc_counts \<Rightarrow> string option \<Rightarrow> nat" where
  "block_for_replicated_dcs cl dc_rf_map local_dc =
     (if cl = EachQuorum then block_for_each_quorum dc_rf_map
      else if cl \<in> {LocalOne, LocalQuorum, LocalSerial}
      then block_for cl (or_default 0 (Option.bind local_dc (map_of dc_rf_map)))
      else block_for cl (sum_list (map snd dc_rf_map)))"

definition is_satisfied_by_datacenter ::
  "consistency_level \<Rightarrow> dc_counts \<Rightarrow> dc_counts \<Rightarrow> string option \<Rightarrow> bool" where
  "is_satisfied_by_datacenter cl received_by_dc dc_rf_map local_dc =
     (if cl = EachQuorum then
        dc_rf_map \<noteq> [] \<and>
        list_all (\<lambda>(dc, rf). rf div 2 + 1 \<le> or_default 0 (map_of received_by_dc dc)) dc_rf_map
      else if cl \<in> {LocalOne, LocalQuorum, LocalSerial} then
        (case local_dc of
           None \<Rightarrow> False
         | Some dc \<Rightarrow>
             block_for cl (or_default 0 (map_of dc_rf_map dc)) \<le> or_default 0 (map_of received_by_dc dc))
      else is_satisfied cl (sum_list (map snd received_by_dc)) (sum_list (map snd dc_rf_map)))"

definition protocol_code :: "consistency_level \<Rightarrow> 16 word" where
  "protocol_code cl =
     (case cl of
        Any \<Rightarrow> 0 | One \<Rightarrow> 1 | Two \<Rightarrow> 2 | Three \<Rightarrow> 3 | Quorum \<Rightarrow> 4 | All \<Rightarrow> 5
      | LocalQuorum \<Rightarrow> 6 | EachQuorum \<Rightarrow> 7 | Serial \<Rightarrow> 8 | LocalSerial \<Rightarrow> 9 | LocalOne \<Rightarrow> 10)"

definition from_protocol_code :: "16 word \<Rightarrow> consistency_level option" where
  "from_protocol_code code =
     (if code = 0 then Some Any else if code = 1 then Some One else if code = 2 then Some Two
      else if code = 3 then Some Three else if code = 4 then Some Quorum else if code = 5 then Some All
      else if code = 6 then Some LocalQuorum else if code = 7 then Some EachQuorum
      else if code = 8 then Some Serial else if code = 9 then Some LocalSerial
      else if code = 10 then Some LocalOne else None)"

lemma protocol_code_roundtrip:
  "from_protocol_code code = Some cl \<longleftrightarrow> code = protocol_code cl"
  by (cases cl) (auto simp: from_protocol_code_def protocol_code_def)

section \<open>Replica plans\<close>

record 'e replica_plan_for_read =
  rp_token :: token
  rp_replicas :: "'e replica list"
  rp_contacts :: "'e list"
  rp_block_for :: nat

definition read_plan_is_sufficient :: "'e replica_plan_for_read \<Rightarrow> bool" where
  "read_plan_is_sufficient p \<longleftrightarrow> rp_block_for p \<le> length (rp_contacts p)"

definition read_plan_shortfall :: "'e replica_plan_for_read \<Rightarrow> nat" where
  "read_plan_shortfall p = rp_block_for p - length (rp_contacts p)"

record 'e replica_plan_for_write =
  wp_token :: token
  wp_replicas :: "'e replica list"
  live_endpoints :: "'e list"
  pending_endpoints :: "'e list"
  wp_block_for :: nat

definition all_write_endpoints :: "'e replica_plan_for_write \<Rightarrow> 'e list" where
  "all_write_endpoints p = fold push_new (pending_endpoints p) (live_endpoints p)"

definition write_plan_is_sufficient :: "'e replica_plan_for_write \<Rightarrow> bool" where
  "write_plan_is_sufficient p \<longleftrightarrow> wp_block_for p \<le> length (live_endpoints p)"

definition write_plan_shortfall :: "'e replica_plan_for_write \<Rightarrow> nat" where
  "write_plan_shortfall p = wp_block_for p - length (live_endpoints p)"

record 'e range_read_plan =
  rr_range :: token_range
  rr_replicas :: "'e replica list"
  rr_contacts :: "'e list"

record 'e replica_plan_for_range_read =
  rrp_range :: token_range
  range_plans :: "'e range_read_plan list"
  rrp_block_for :: nat

definition range_plan_is_sufficient :: "'e replica_plan_for_range_read \<Rightarrow> bool" where
  "range_plan_is_sufficient p \<longleftrightarrow>
     list_all (\<lambda>rp. rrp_block_for p \<le> length (rr_contacts rp)) (range_plans p)"

section \<open>Reads meet writes\<close>






text \<open>
  C6. A write at EACH_QUORUM is seen by every later LOCAL_QUORUM read, whichever datacenter
  reads: with replicas placed by NetworkTopologyStrategy, and the answers counted by
  datacenter, some node of the reading datacenter acknowledged the write and answers the
  read.
\<close>

theorem each_quorum_meets_local_quorum:
  assumes "ring_ok r" "bt_ok dcr" "map_of dcr d = Some rf"
    and "W \<subseteq> set (calculate_natural_endpoints (NetworkTopologyStrategy dcr) sn t r)"
    and "R \<subseteq> set (calculate_natural_endpoints (NetworkTopologyStrategy dcr) sn t r)"
    and "\<And>dc. or_default 0 (map_of acks dc) \<le> card {e \<in> W. datacenter sn e = dc}"
    and "\<And>dc. or_default 0 (map_of answers dc) \<le> card {e \<in> R. datacenter sn e = dc}"
    and "is_satisfied_by_datacenter EachQuorum acks dcr local_dc"
    and "is_satisfied_by_datacenter LocalQuorum answers dcr (Some d)"
  shows "\<exists>e. e \<in> W \<and> e \<in> R \<and> datacenter sn e = d"
proof -
  define reps where "reps = filter (\<lambda>e. datacenter sn e = d)
    (calculate_natural_endpoints (NetworkTopologyStrategy dcr) sn t r)"
  have "card (set reps) \<le> rf"
    unfolding reps_def by (rule order_trans [OF card_length nts_placement_count [OF assms(1-3)]])
  then have "majority (set reps) (rf div 2 + 1)"
    by unfold_locales simp_all
  moreover have "rf div 2 + 1 \<le> card {e \<in> W. datacenter sn e = d}"
    using assms(8) map_of_SomeD [OF assms(3)] order_trans [OF _ assms(6) [of d]]
    by (auto simp: is_satisfied_by_datacenter_def list_all_iff)
  moreover have "rf div 2 + 1 \<le> card {e \<in> R. datacenter sn e = d}"
    using assms(9) order_trans [OF _ assms(7) [of d]]
    by (simp add: is_satisfied_by_datacenter_def block_for_def assms(3))
  ultimately have "{e \<in> W. datacenter sn e = d} \<inter> {e \<in> R. datacenter sn e = d} \<noteq> {}"
    using assms(4,5)
    by (intro majority.is_quorum_intersect [of "set reps" "rf div 2 + 1"])
      (auto simp: majority.is_quorum_def reps_def)
  then show ?thesis by blast
qed

theorem each_quorum_meets_local_quorum_witness:
  "\<exists>e. e \<in> {''A'', ''C''} \<and> e \<in> {''A'', ''C''} \<and> datacenter sample_snitch e = ''dc1''"
proof (rule each_quorum_meets_local_quorum [where r = sample_ring and dcr = "[(''dc1'', 2)]" and rf = 2
      and t = 5 and acks = "[(''dc1'', 2)]" and answers = "[(''dc1'', 2)]" and local_dc = None, OF sample_ring_ok])
  have "calculate_natural_endpoints (NetworkTopologyStrategy [(''dc1'', 2)]) sample_snitch 5 sample_ring = [''A'', ''C'']"
    by code_simp
  then show "{''A'', ''C''} \<subseteq> set (calculate_natural_endpoints (NetworkTopologyStrategy [(''dc1'', 2)]) sample_snitch 5 sample_ring)"
    "{''A'', ''C''} \<subseteq> set (calculate_natural_endpoints (NetworkTopologyStrategy [(''dc1'', 2)]) sample_snitch 5 sample_ring)"
    by simp_all
  have "{e. e = ''A'' \<or> e = ''C''} = {''A'', ''C''}" by blast
  then show "or_default 0 (map_of [(''dc1'', 2)] dc) \<le> card {e \<in> {''A'', ''C''}. datacenter sample_snitch e = dc}"
    "or_default 0 (map_of [(''dc1'', 2)] dc) \<le> card {e \<in> {''A'', ''C''}. datacenter sample_snitch e = dc}" for dc
    by (simp_all add: sample_snitch_def or_default_def)
qed (simp_all add: bt_ok_def is_satisfied_by_datacenter_def block_for_def)

end
