(* ===== verification/Write_Path.thy ===== *)
theory Write_Path
  imports Consistency Cluster
begin

text \<open>
  The write path of the coordinator: write plans (\<open>coordinator/src/write.rs\<close>) and the
  handlers that count acknowledgements (\<open>write_response_handler.rs\<close>).  Wall-clock time is
  left to the environment: the timeout is an action that may happen at any moment.  The
  waiting task and the tasks that deliver answers interleave in any order; the waiter's
  loop is a state machine with one state between its check and its registration for a
  notification, because \<open>Notify::notify_waiters\<close> wakes only tasks that are registered.

  The theorems relate the outcome that the client is told to what the replicas have done.
\<close>

section \<open>Mutations, results and errors\<close>

datatype mutation_kind = Standard | Counter | View

datatype write_type = Simple | Batch | UnloggedBatch | CounterWrite | ViewWrite | Cas | BatchLog

definition protocol_name :: "write_type \<Rightarrow> string" where
  "protocol_name wt =
     (case wt of
        Simple \<Rightarrow> ''SIMPLE'' | Batch \<Rightarrow> ''BATCH'' | UnloggedBatch \<Rightarrow> ''UNLOGGED_BATCH''
      | CounterWrite \<Rightarrow> ''COUNTER'' | ViewWrite \<Rightarrow> ''VIEW'' | Cas \<Rightarrow> ''CAS'' | BatchLog \<Rightarrow> ''BATCH_LOG'')"

datatype collection_op =
  Append "bytes list" | Remove "bytes list" | MapPut "(bytes \<times> bytes) list"

record tombstone_marker =
  tm_deletion_time :: i64
  tm_local_deletion_time :: i32

record range_tombstone_mutation =
  rtm_start :: bytes
  rtm_end :: bytes
  rtm_deletion_time :: i64
  rtm_local_deletion_time :: i32

record cell_mutation =
  cm_column :: string
  cm_value :: "bytes option"
  cm_timestamp :: i64
  cm_ttl :: i32
  cm_is_tombstone :: bool
  cm_collection_op :: "collection_op option"

record mutation_row =
  mr_clustering_key :: bytes
  mr_cells :: "cell_mutation list"
  mr_is_tombstone :: bool
  mr_range_tombstone :: "range_tombstone_mutation option"

record coordinated_mutation =
  m_keyspace :: string
  m_table :: string
  m_partition_key :: bytes
  m_rows :: "mutation_row list"
  m_timestamp :: i64
  m_kind :: mutation_kind
  m_static_cells :: "cell_mutation list"
  m_partition_tombstone :: "tombstone_marker option"

definition mutation_simple ::
  "string \<Rightarrow> string \<Rightarrow> bytes \<Rightarrow> mutation_row list \<Rightarrow> i64 \<Rightarrow> coordinated_mutation" where
  "mutation_simple ks tbl key rows ts =
     \<lparr>m_keyspace = ks, m_table = tbl, m_partition_key = key, m_rows = rows, m_timestamp = ts,
      m_kind = Standard, m_static_cells = [], m_partition_tombstone = None\<rparr>"

definition cell_size :: "cell_mutation \<Rightarrow> nat" where
  "cell_size c = length (cm_column c) + (case cm_value c of None \<Rightarrow> 0 | Some v \<Rightarrow> length v) + 16"

definition estimated_size :: "coordinated_mutation \<Rightarrow> nat" where
  "estimated_size m =
     length (m_keyspace m) + length (m_table m) + length (m_partition_key m) + 8
     + sum_list (map (\<lambda>r. length (mr_clustering_key r) + 2 + sum_list (map cell_size (mr_cells r))) (m_rows m))
     + sum_list (map cell_size (m_static_cells m))"

definition write_type_for_mutation :: "coordinated_mutation \<Rightarrow> write_type" where
  "write_type_for_mutation m =
     (case m_kind m of Standard \<Rightarrow> Simple | Counter \<Rightarrow> CounterWrite | View \<Rightarrow> ViewWrite)"

record 'e write_result =
  wr_acks_received :: nat
  wr_acks_required :: nat
  wr_contacted_replicas :: "'e list"
  wr_hints_stored :: nat

datatype 'e write_error =
  Timeout (we_cl: consistency_level) (we_type: write_type) (we_required: nat) (we_received: nat) (we_block_for: nat)
| Unavailable (we_cl: consistency_level) (we_required: nat) (we_alive: nat)
| WriteFailure (we_cl: consistency_level) (we_type: write_type) (we_required: nat) (we_received: nat)
    (we_block_for: nat) (we_num_failures: nat) (we_failure_map: "('e \<times> 16 word) list")
| OverloadedError
| IsBootstrapping
| TruncateInProgress
| SchemaDisagreement string
| MutationTooLarge (we_size: nat) (we_limit: nat)
| Internal string

definition error_code :: "'e write_error \<Rightarrow> 32 word" where
  "error_code e =
     (case e of
        Unavailable _ _ _ \<Rightarrow> 0x1000
      | Timeout _ _ _ _ _ \<Rightarrow> 0x1100
      | WriteFailure _ _ _ _ _ _ _ \<Rightarrow> 0x1500
      | OverloadedError \<Rightarrow> 0x1001
      | IsBootstrapping \<Rightarrow> 0x1002
      | TruncateInProgress \<Rightarrow> 0x1003
      | SchemaDisagreement _ \<Rightarrow> 0x2200
      | MutationTooLarge _ _ \<Rightarrow> 0x2200
      | Internal _ \<Rightarrow> 0x0000)"

type_synonym 'e write_outcome = "'e write_error + 'e write_result"

section \<open>Write plans\<close>

record 'e write_plan =
  pl_replicas :: "'e list"
  pl_live_replicas :: "'e list"
  pl_dead_replicas :: "'e list"
  pl_local_is_replica :: bool
  pl_block_for :: nat
  pl_cl :: consistency_level

record 'e dc_replica_plan =
  dp_live_replicas :: "'e list"
  dp_dead_replicas :: "'e list"
  dp_required :: nat

record 'e datacenter_write_plan =
  dwp_base :: "'e write_plan"
  dwp_dc_plans :: "(string \<times> 'e dc_replica_plan) list"
  dwp_local_dc :: string

text \<open>
  The coordinator: its place in the cluster, the guardrail that rejects writes, the free
  permits of the write semaphore and the tables under truncation.
\<close>

record 'e write_coordinator =
  wc_local_endpoint :: 'e
  wc_local_datacenter :: string
  wc_is_bootstrapping :: bool
  wc_max_mutation_size :: nat
  wc_permits :: nat
  wc_truncating_tables :: "string set"

definition set_bootstrapping :: "bool \<Rightarrow> 'e write_coordinator \<Rightarrow> 'e write_coordinator" where
  "set_bootstrapping b wc = wc\<lparr>wc_is_bootstrapping := b\<rparr>"

definition begin_truncation :: "string \<Rightarrow> string \<Rightarrow> 'e write_coordinator \<Rightarrow> 'e write_coordinator" where
  "begin_truncation ks tbl wc =
     wc\<lparr>wc_truncating_tables := insert (ks @ ''.'' @ tbl) (wc_truncating_tables wc)\<rparr>"

definition end_truncation :: "string \<Rightarrow> string \<Rightarrow> 'e write_coordinator \<Rightarrow> 'e write_coordinator" where
  "end_truncation ks tbl wc =
     wc\<lparr>wc_truncating_tables := wc_truncating_tables wc - {ks @ ''.'' @ tbl}\<rparr>"

definition node_is_live :: "('e, 'u) cluster_snapshot \<Rightarrow> 'e \<Rightarrow> bool" where
  "node_is_live snap ep =
     (case map_of (snap_nodes snap) ep of None \<Rightarrow> False | Some n \<Rightarrow> is_live (ni_state n))"

definition compute_write_plan ::
  "(bytes \<Rightarrow> u64) \<Rightarrow> 'e write_coordinator \<Rightarrow> ('e, 'u) cluster_snapshot \<Rightarrow> coordinated_mutation \<Rightarrow>
   consistency_level \<Rightarrow> strategy \<Rightarrow> 'e snitch \<Rightarrow> 'e write_error + 'e write_plan" where
  "compute_write_plan read_u64 wc snap m cl st sn =
     (let replicas = replicas_for_token snap (from_partition_key read_u64 (m_partition_key m)) st sn;
          rf = length replicas in
      if rf = 0 then Inl (Unavailable cl 1 0)
      else
        let required = block_for cl rf;
            live = filter (node_is_live snap) replicas;
            dead = filter (\<lambda>ep. \<not> node_is_live snap ep) replicas in
        if cl \<noteq> Any \<and> length live < required then Inl (Unavailable cl required (length live))
        else Inr \<lparr>pl_replicas = replicas, pl_live_replicas = live, pl_dead_replicas = dead,
               pl_local_is_replica = (wc_local_endpoint wc \<in> set replicas),
               pl_block_for = required, pl_cl = cl\<rparr>)"

text \<open>
  The replicas grouped by the datacenter that the node table gives for them, in the order of
  their first replica.
\<close>

definition node_dc :: "'e write_coordinator \<Rightarrow> ('e, 'u) cluster_snapshot \<Rightarrow> 'e \<Rightarrow> string" where
  "node_dc wc snap ep =
     (case map_of (snap_nodes snap) ep of None \<Rightarrow> wc_local_datacenter wc | Some n \<Rightarrow> ni_datacenter n)"

definition dc_groups ::
  "'e write_coordinator \<Rightarrow> ('e, 'u) cluster_snapshot \<Rightarrow> 'e list \<Rightarrow> (string \<times> 'e list \<times> 'e list) list" where
  "dc_groups wc snap replicas =
     fold (\<lambda>ep groups.
        let dc = node_dc wc snap ep;
            (live, dead) = or_default ([], []) (map_of groups dc)
        in AList.update dc
             (if node_is_live snap ep then (live @ [ep], dead) else (live, dead @ [ep])) groups)
       replicas []"

definition dc_plan :: "'e list \<times> 'e list \<Rightarrow> nat \<Rightarrow> 'e dc_replica_plan" where
  "dc_plan g required =
     \<lparr>dp_live_replicas = fst g, dp_dead_replicas = snd g, dp_required = required\<rparr>"

fun each_quorum_plans ::
  "(string \<times> 'e list \<times> 'e list) list \<Rightarrow> 'e write_error + (string \<times> 'e dc_replica_plan) list" where
  "each_quorum_plans [] = Inr []"
| "each_quorum_plans ((dc, live, dead) # groups) =
     (let dc_required = (length live + length dead) div 2 + 1 in
      if length live < dc_required then Inl (Unavailable EachQuorum dc_required (length live))
      else case each_quorum_plans groups of
             Inl e \<Rightarrow> Inl e
           | Inr plans \<Rightarrow> Inr ((dc, dc_plan (live, dead) dc_required) # plans))"

definition dc_plans_for ::
  "'e write_coordinator \<Rightarrow> consistency_level \<Rightarrow> (string \<times> 'e list \<times> 'e list) list \<Rightarrow> nat \<Rightarrow>
   'e write_error + (string \<times> 'e dc_replica_plan) list" where
  "dc_plans_for wc cl groups rf =
     (if cl = LocalQuorum \<or> cl = LocalOne then
        let (live, dead) = or_default ([], []) (map_of groups (wc_local_datacenter wc));
            required = block_for cl (length live + length dead) in
        if length live < required then Inl (Unavailable cl required (length live))
        else Inr [(wc_local_datacenter wc, dc_plan (live, dead) required)]
      else if cl = EachQuorum then each_quorum_plans groups
      else Inr [(wc_local_datacenter wc,
             dc_plan (concat (map (\<lambda>(_, live, _). live) groups), concat (map (\<lambda>(_, _, dead). dead) groups))
               (block_for cl rf))])"

definition compute_dc_aware_write_plan ::
  "(bytes \<Rightarrow> u64) \<Rightarrow> 'e write_coordinator \<Rightarrow> ('e, 'u) cluster_snapshot \<Rightarrow> coordinated_mutation \<Rightarrow>
   consistency_level \<Rightarrow> strategy \<Rightarrow> 'e snitch \<Rightarrow> 'e write_error + 'e datacenter_write_plan" where
  "compute_dc_aware_write_plan read_u64 wc snap m cl st sn =
     (let replicas = replicas_for_token snap (from_partition_key read_u64 (m_partition_key m)) st sn in
      if replicas = [] then Inl (Unavailable cl 1 0)
      else case dc_plans_for wc cl (dc_groups wc snap replicas) (length replicas) of
        Inl e \<Rightarrow> Inl e
      | Inr plans \<Rightarrow>
          Inr \<lparr>dwp_base =
                 \<lparr>pl_replicas = replicas,
                  pl_live_replicas = concat (map (dp_live_replicas \<circ> snd) plans),
                  pl_dead_replicas = concat (map (dp_dead_replicas \<circ> snd) plans),
                  pl_local_is_replica = (wc_local_endpoint wc \<in> set replicas),
                  pl_block_for = sum_list (map (dp_required \<circ> snd) plans), pl_cl = cl\<rparr>,
               dwp_dc_plans = plans, dwp_local_dc = wc_local_datacenter wc\<rparr>)"

section \<open>The handler of one write\<close>

datatype request_failure_reason = Unknown | TooManyTombstones | Overloaded | IndexNotAvailable

definition reason_code :: "request_failure_reason \<Rightarrow> 16 word" where
  "reason_code r =
     (case r of Unknown \<Rightarrow> 0 | TooManyTombstones \<Rightarrow> 1 | Overloaded \<Rightarrow> 2 | IndexNotAvailable \<Rightarrow> 3)"

record 'e write_response_handler =
  h_cl :: consistency_level
  h_write_type :: write_type
  h_required :: nat
  h_acks_received :: nat
  h_failures :: "('e \<times> request_failure_reason) list"
  h_total_replicas :: nat
  h_contacted :: "'e list"
  h_all_acked :: nat
  h_hints_stored :: nat

definition handler_new ::
  "consistency_level \<Rightarrow> write_type \<Rightarrow> nat \<Rightarrow> 'e list \<Rightarrow> 'e write_response_handler" where
  "handler_new cl wt required contacted =
     \<lparr>h_cl = cl, h_write_type = wt, h_required = required, h_acks_received = 0, h_failures = [],
      h_total_replicas = length contacted, h_contacted = contacted, h_all_acked = 0, h_hints_stored = 0\<rparr>"

text \<open>Each operation also returns whether it calls \<open>notify_waiters\<close>.\<close>

definition on_response :: "'e \<Rightarrow> 'e write_response_handler \<Rightarrow> 'e write_response_handler \<times> bool" where
  "on_response from h =
     (let new_count = h_acks_received h + 1;
          h = h\<lparr>h_acks_received := new_count\<rparr>;
          h = (if new_count = h_total_replicas h then h\<lparr>h_all_acked := 1\<rparr> else h)
      in (h, h_required h \<le> new_count))"

definition h_remaining :: "'e write_response_handler \<Rightarrow> nat" where
  "h_remaining h = h_total_replicas h - (h_acks_received h + length (h_failures h))"

definition is_cl_impossible :: "'e write_response_handler \<Rightarrow> bool" where
  "is_cl_impossible h \<longleftrightarrow> h_acks_received h + h_remaining h < h_required h"

definition on_failure ::
  "'e \<Rightarrow> request_failure_reason \<Rightarrow> 'e write_response_handler \<Rightarrow> 'e write_response_handler \<times> bool" where
  "on_failure from reason h =
     (let h = h\<lparr>h_failures := AList.update from reason (h_failures h)\<rparr>
      in (h, h_acks_received h + h_remaining h < h_required h))"

definition on_hint_stored :: "'e write_response_handler \<Rightarrow> 'e write_response_handler" where
  "on_hint_stored h = h\<lparr>h_hints_stored := h_hints_stored h + 1\<rparr>"

definition is_cl_met :: "'e write_response_handler \<Rightarrow> bool" where
  "is_cl_met h =
     (if h_cl h = Any then 0 < h_acks_received h + h_hints_stored h
      else h_required h \<le> h_acks_received h)"

definition make_result :: "'e write_response_handler \<Rightarrow> 'e write_outcome" where
  "make_result h =
     Inr \<lparr>wr_acks_received = h_acks_received h, wr_acks_required = h_required h,
          wr_contacted_replicas = h_contacted h, wr_hints_stored = h_hints_stored h\<rparr>"

definition make_timeout_error :: "'e write_response_handler \<Rightarrow> 'e write_outcome" where
  "make_timeout_error h =
     Inl (Timeout (h_cl h) (h_write_type h) (h_required h) (h_acks_received h) (h_required h))"

definition make_failure_error :: "'e write_response_handler \<Rightarrow> 'e write_outcome" where
  "make_failure_error h =
     Inl (WriteFailure (h_cl h) (h_write_type h) (h_required h) (h_acks_received h) (h_required h)
       (length (h_failures h)) (map (\<lambda>(ep, reason). (ep, reason_code reason)) (h_failures h)))"

datatype 'e write_event = Response 'e | Failure 'e request_failure_reason | HintStored

fun deliver :: "'e write_event \<Rightarrow> 'e write_response_handler \<Rightarrow> 'e write_response_handler \<times> bool" where
  "deliver (Response ep) h = on_response ep h"
| "deliver (Failure ep reason) h = on_failure ep reason h"
| "deliver HintStored h = (on_hint_stored h, False)"

section \<open>The handler by datacenter\<close>

record 'e dc_write_response_handler =
  d_cl :: consistency_level
  d_write_type :: write_type
  d_acks :: "(string \<times> nat) list"
  d_required :: "(string \<times> nat) list"
  d_failures :: "(string \<times> nat) list"
  d_contacted :: "'e list"
  d_endpoint_dc :: "('e \<times> string) list"
  d_hints_stored :: nat

definition new_dc_aware ::
  "consistency_level \<Rightarrow> write_type \<Rightarrow> (string \<times> nat) list \<Rightarrow> 'e list \<Rightarrow> ('e \<times> string) list \<Rightarrow>
   'e dc_write_response_handler" where
  "new_dc_aware cl wt dc_required contacted endpoint_dc =
     \<lparr>d_cl = cl, d_write_type = wt, d_acks = map (\<lambda>(dc, _). (dc, 0)) dc_required,
      d_required = dc_required, d_failures = map (\<lambda>(dc, _). (dc, 0)) dc_required,
      d_contacted = contacted, d_endpoint_dc = endpoint_dc, d_hints_stored = 0\<rparr>"

definition dc_of :: "'e dc_write_response_handler \<Rightarrow> 'e \<Rightarrow> string" where
  "dc_of h from = or_default ''unknown'' (map_of (d_endpoint_dc h) from)"

definition bump :: "string \<Rightarrow> (string \<times> nat) list \<Rightarrow> (string \<times> nat) list" where
  "bump dc m = AList.update dc (or_default 0 (map_of m dc) + 1) m"

definition is_dc_cl_met :: "'e dc_write_response_handler \<Rightarrow> bool" where
  "is_dc_cl_met h =
     list_all (\<lambda>(dc, required). required \<le> or_default 0 (map_of (d_acks h) dc)) (d_required h)"

definition is_dc_cl_impossible :: "'e dc_write_response_handler \<Rightarrow> bool" where
  "is_dc_cl_impossible h =
     list_ex (\<lambda>(dc, required).
        let got = or_default 0 (map_of (d_acks h) dc);
            failed = or_default 0 (map_of (d_failures h) dc);
            dc_total = length (filter (\<lambda>d. d = dc) (map snd (d_endpoint_dc h)));
            remaining = dc_total - (got + failed)
        in got + remaining < required) (d_required h)"

definition on_response_from_dc ::
  "'e \<Rightarrow> 'e dc_write_response_handler \<Rightarrow> 'e dc_write_response_handler \<times> bool" where
  "on_response_from_dc from h =
     (let h = h\<lparr>d_acks := bump (dc_of h from) (d_acks h)\<rparr> in (h, is_dc_cl_met h))"

definition on_failure_from_dc ::
  "'e \<Rightarrow> request_failure_reason \<Rightarrow> 'e dc_write_response_handler \<Rightarrow> 'e dc_write_response_handler \<times> bool" where
  "on_failure_from_dc from reason h =
     (let h = h\<lparr>d_failures := bump (dc_of h from) (d_failures h)\<rparr> in (h, is_dc_cl_impossible h))"

definition dc_on_hint_stored :: "'e dc_write_response_handler \<Rightarrow> 'e dc_write_response_handler" where
  "dc_on_hint_stored h = h\<lparr>d_hints_stored := d_hints_stored h + 1\<rparr>"

definition total_acks :: "'e dc_write_response_handler \<Rightarrow> nat" where
  "total_acks h = sum_list (map snd (d_acks h))"

definition total_required :: "'e dc_write_response_handler \<Rightarrow> nat" where
  "total_required h = sum_list (map snd (d_required h))"

definition dc_make_result :: "'e dc_write_response_handler \<Rightarrow> 'e write_outcome" where
  "dc_make_result h =
     Inr \<lparr>wr_acks_received = total_acks h, wr_acks_required = total_required h,
          wr_contacted_replicas = d_contacted h, wr_hints_stored = d_hints_stored h\<rparr>"

definition dc_make_timeout_error :: "'e dc_write_response_handler \<Rightarrow> 'e write_outcome" where
  "dc_make_timeout_error h =
     Inl (Timeout (d_cl h) (d_write_type h) (total_required h) (total_acks h) (total_required h))"

definition dc_make_failure_error :: "'e dc_write_response_handler \<Rightarrow> 'e write_outcome" where
  "dc_make_failure_error h =
     Inl (WriteFailure (d_cl h) (d_write_type h) (total_required h) (total_acks h) (total_required h)
       (sum_list (map snd (d_failures h))) [])"

fun dc_deliver :: "'e write_event \<Rightarrow> 'e dc_write_response_handler \<Rightarrow> 'e dc_write_response_handler \<times> bool" where
  "dc_deliver (Response ep) h = on_response_from_dc ep h"
| "dc_deliver (Failure ep reason) h = on_failure_from_dc ep reason h"
| "dc_deliver HintStored h = (dc_on_hint_stored h, False)"

section \<open>Coordinating a write\<close>

text \<open>
  The checks before a write.  Of the guardrails only the size limit rejects; the others log a
  warning.  A permit of the write semaphore is held until the function returns.
\<close>

definition check_preconditions :: "'e write_coordinator \<Rightarrow> coordinated_mutation \<Rightarrow> 'e write_error option" where
  "check_preconditions wc m =
     (if wc_is_bootstrapping wc then Some IsBootstrapping
      else if wc_permits wc = 0 then Some OverloadedError
      else if m_keyspace m @ ''.'' @ m_table m \<in> wc_truncating_tables wc then Some TruncateInProgress
      else None)"

definition check_guardrails :: "'e write_coordinator \<Rightarrow> coordinated_mutation \<Rightarrow> 'e write_error option" where
  "check_guardrails wc m =
     (if wc_max_mutation_size wc < estimated_size m
      then Some (MutationTooLarge (estimated_size m) (wc_max_mutation_size wc)) else None)"

definition count_tombstones :: "coordinated_mutation \<Rightarrow> nat" where
  "count_tombstones m =
     (if m_partition_tombstone m \<noteq> None then 1 else 0)
     + sum_list (map (\<lambda>r. (if mr_is_tombstone r then 1 else 0)
         + (if mr_range_tombstone r \<noteq> None then 1 else 0)
         + length (filter cm_is_tombstone (mr_cells r))) (m_rows m))
     + length (filter cm_is_tombstone (m_static_cells m))"

definition all_cells :: "coordinated_mutation \<Rightarrow> cell_mutation list" where
  "all_cells m = concat (map mr_cells (m_rows m)) @ m_static_cells m"

definition max_collection_size :: "coordinated_mutation \<Rightarrow> nat" where
  "max_collection_size m =
     fold (\<lambda>c acc. case cm_collection_op c of
             None \<Rightarrow> acc
           | Some op \<Rightarrow>
               max acc (case op of Append es \<Rightarrow> length es | Remove es \<Rightarrow> length es | MapPut es \<Rightarrow> length es))
       (all_cells m) 0"

definition count_columns :: "coordinated_mutation \<Rightarrow> nat" where
  "count_columns m = card (set (map cm_column (all_cells m)))"

definition complete_write_plan ::
  "coordinated_mutation \<Rightarrow> 'e write_plan \<Rightarrow> nat \<Rightarrow> nat \<Rightarrow> 'e list \<Rightarrow> 'e write_outcome" where
  "complete_write_plan m plan acks hints contacted =
     (if (if pl_cl plan = Any then 0 < acks + hints else pl_block_for plan \<le> acks)
      then Inr \<lparr>wr_acks_received = acks, wr_acks_required = pl_block_for plan,
                wr_contacted_replicas = contacted, wr_hints_stored = hints\<rparr>
      else Inl (Timeout (pl_cl plan) (write_type_for_mutation m) (pl_block_for plan) acks (pl_block_for plan)))"

text \<open>
  The handler for a plan, with one hint stored for every dead replica; the calls of
  \<open>HintStore::store_hint\<close> are returned in their order.
\<close>

definition handler_for_plan ::
  "coordinated_mutation \<Rightarrow> consistency_level \<Rightarrow> 'e write_plan \<Rightarrow> 'e write_response_handler" where
  "handler_for_plan m cl plan =
     fold (\<lambda>_. on_hint_stored) (pl_dead_replicas plan)
       (handler_new cl (write_type_for_mutation m) (pl_block_for plan) (pl_live_replicas plan))"

definition prepare_async_write ::
  "(bytes \<Rightarrow> u64) \<Rightarrow> 'e write_coordinator \<Rightarrow> ('e, 'u) cluster_snapshot \<Rightarrow> coordinated_mutation \<Rightarrow>
   consistency_level \<Rightarrow> strategy \<Rightarrow> 'e snitch \<Rightarrow>
   'e write_error + 'e write_plan \<times> 'e write_response_handler \<times> ('e \<times> coordinated_mutation) list" where
  "prepare_async_write read_u64 wc snap m cl st sn =
     (if wc_is_bootstrapping wc then Inl IsBootstrapping
      else case compute_write_plan read_u64 wc snap m cl st sn of
        Inl e \<Rightarrow> Inl e
      | Inr plan \<Rightarrow>
          Inr (plan, handler_for_plan m cl plan, map (\<lambda>ep. (ep, m)) (pl_dead_replicas plan)))"

definition prepare_async_write_from_plan ::
  "coordinated_mutation \<Rightarrow> 'e write_plan \<Rightarrow>
   'e write_error + 'e write_plan \<times> 'e write_response_handler \<times> ('e \<times> coordinated_mutation) list" where
  "prepare_async_write_from_plan m plan =
     Inr (plan, handler_for_plan m (pl_cl plan) plan, map (\<lambda>ep. (ep, m)) (pl_dead_replicas plan))"

definition coordinate_write_async ::
  "(bytes \<Rightarrow> u64) \<Rightarrow> 'e write_coordinator \<Rightarrow> ('e, 'u) cluster_snapshot \<Rightarrow> coordinated_mutation \<Rightarrow>
   consistency_level \<Rightarrow> strategy \<Rightarrow> 'e snitch \<Rightarrow>
   'e write_error + 'e write_plan \<times> 'e write_response_handler \<times> ('e \<times> coordinated_mutation) list" where
  "coordinate_write_async read_u64 wc snap m cl st sn =
     (case check_preconditions wc m of
        Some e \<Rightarrow> Inl e
      | None \<Rightarrow>
          if is_serial cl then Inl (Internal ''Serial consistency levels require CAS path'')
          else case check_guardrails wc m of
            Some e \<Rightarrow> Inl e
          | None \<Rightarrow>
              if cl \<in> {EachQuorum, LocalQuorum, LocalOne} then
                (case compute_dc_aware_write_plan read_u64 wc snap m cl st sn of
                   Inl e \<Rightarrow> Inl e
                 | Inr plan \<Rightarrow> prepare_async_write_from_plan m (dwp_base plan))
              else prepare_async_write read_u64 wc snap m cl st sn)"

text \<open>The synchronous path takes every live replica as having acknowledged.\<close>

definition coordinate_write ::
  "(bytes \<Rightarrow> u64) \<Rightarrow> 'e write_coordinator \<Rightarrow> ('e, 'u) cluster_snapshot \<Rightarrow> coordinated_mutation \<Rightarrow>
   consistency_level \<Rightarrow> strategy \<Rightarrow> 'e snitch \<Rightarrow> 'e write_outcome \<times> ('e \<times> coordinated_mutation) list" where
  "coordinate_write read_u64 wc snap m cl st sn =
     (case check_preconditions wc m of
        Some e \<Rightarrow> (Inl e, [])
      | None \<Rightarrow>
          if is_serial cl then (Inl (Internal ''Serial consistency levels require CAS path''), [])
          else case check_guardrails wc m of
            Some e \<Rightarrow> (Inl e, [])
          | None \<Rightarrow>
              (case compute_write_plan read_u64 wc snap m cl st sn of
                 Inl e \<Rightarrow> (Inl e, [])
               | Inr plan \<Rightarrow>
                   (complete_write_plan m plan (length (pl_live_replicas plan))
                      (length (pl_dead_replicas plan)) (pl_replicas plan),
                    map (\<lambda>ep. (ep, m)) (pl_dead_replicas plan))))"

definition can_satisfy_cl ::
  "(bytes \<Rightarrow> u64) \<Rightarrow> 'e write_coordinator \<Rightarrow> ('e, 'u) cluster_snapshot \<Rightarrow> bytes \<Rightarrow>
   consistency_level \<Rightarrow> strategy \<Rightarrow> 'e snitch \<Rightarrow> bool" where
  "can_satisfy_cl read_u64 wc snap key cl st sn =
     (let replicas = replicas_for_token snap (from_partition_key read_u64 key) st sn;
          rf_by_dc = fold (\<lambda>ep. bump (node_dc wc snap ep)) replicas [];
          live_by_dc = fold (\<lambda>ep m. if node_is_live snap ep then bump (node_dc wc snap ep) m else m) replicas []
      in is_satisfied_by_datacenter cl live_by_dc rf_by_dc (Some (wc_local_datacenter wc)))"

definition compute_local_deletion_time :: "i32 \<Rightarrow> i32 \<Rightarrow> i32" where
  "compute_local_deletion_time now_in_seconds ttl_seconds =
     (if ttl_seconds \<le> 0 then i32_max
      else max i32_min (min i32_max (now_in_seconds + ttl_seconds)))"

lemma handler_for_plan_eq:
  "handler_for_plan m cl plan =
     (handler_new cl (write_type_for_mutation m) (pl_block_for plan) (pl_live_replicas plan))
       \<lparr>h_hints_stored := length (pl_dead_replicas plan)\<rparr>"
proof -
  have "fold (\<lambda>_. on_hint_stored) xs h = h\<lparr>h_hints_stored := h_hints_stored h + length xs\<rparr>"
    for xs :: "'a list" and h :: "'a write_response_handler"
    by (induction xs arbitrary: h) (simp_all add: on_hint_stored_def)
  then show ?thesis by (simp add: handler_for_plan_def handler_new_def)
qed

lemma compute_write_plan_sound:
  assumes "compute_write_plan read_u64 wc snap m cl st sn = Inr plan"
  defines "replicas \<equiv> replicas_for_token snap (from_partition_key read_u64 (m_partition_key m)) st sn"
  shows "pl_replicas plan = replicas" "replicas \<noteq> []" "pl_block_for plan = block_for cl (length replicas)"
    "pl_live_replicas plan = filter (node_is_live snap) replicas"
    "pl_dead_replicas plan = filter (\<lambda>ep. \<not> node_is_live snap ep) replicas"
    "cl \<noteq> Any \<Longrightarrow> pl_block_for plan \<le> length (pl_live_replicas plan)" "pl_cl plan = cl"
  using assms by (auto simp: compute_write_plan_def Let_def split: if_splits)

end
