(* ===== verification/Write_Outcome.thy ===== *)
theory Write_Outcome
  imports Write_Path
begin

text \<open>
  The waiting side of a write, \<open>await_completion\<close>, for both handlers of
  \<open>write_response_handler.rs\<close>, and what its outcome means.  \<open>tracker\<close> collects the
  methods that the loop calls, so that the loop is written once and instantiated twice.
\<close>

section \<open>The waiter\<close>

record ('h, 'r) tracker =
  trk_met :: "'h \<Rightarrow> bool"
  trk_impossible :: "'h \<Rightarrow> bool"
  trk_result :: "'h \<Rightarrow> 'r"
  trk_failure :: "'h \<Rightarrow> 'r"
  trk_timeout :: "'h \<Rightarrow> 'r"

text \<open>
  The states of the waiting task: before the first check, at the head of the loop, after a
  check that failed and before \<open>notified()\<close> is registered, registered, and finished.
\<close>

datatype 'r phase = Entry | Looping | Checked | Waiting | Done 'r

datatype 'ev action = Deliver 'ev | Run | Deadline

fun run_waiter :: "('h, 'r) tracker \<Rightarrow> 'h \<Rightarrow> 'r phase \<Rightarrow> 'r phase" where
  "run_waiter T h Entry = (if trk_met T h then Done (trk_result T h) else Looping)"
| "run_waiter T h Looping =
     (if trk_met T h \<or> trk_impossible T h
      then Done (if trk_met T h then trk_result T h else trk_failure T h)
      else Checked)"
| "run_waiter T h Checked = Waiting"
| "run_waiter T h Waiting = Waiting"
| "run_waiter T h (Done r) = Done r"

fun await_step ::
  "('h, 'r) tracker \<Rightarrow> ('ev \<Rightarrow> 'h \<Rightarrow> 'h \<times> bool) \<Rightarrow> 'ev action \<Rightarrow> 'h \<times> 'r phase \<Rightarrow> 'h \<times> 'r phase" where
  "await_step T dlv (Deliver e) (h, ph) =
     (let (h', notify) = dlv e h in (h', if notify \<and> ph = Waiting then Looping else ph))"
| "await_step T dlv Run (h, ph) = (h, run_waiter T h ph)"
| "await_step T dlv Deadline (h, ph) =
     (h, case ph of Done r \<Rightarrow> Done r | _ \<Rightarrow> Done (trk_timeout T h))"

definition await_completion ::
  "('h, 'r) tracker \<Rightarrow> ('ev \<Rightarrow> 'h \<Rightarrow> 'h \<times> bool) \<Rightarrow> 'ev action list \<Rightarrow> 'h \<Rightarrow> 'h \<times> 'r phase" where
  "await_completion T dlv acts h = fold (await_step T dlv) acts (h, Entry)"

definition handler_tracker :: "('e write_response_handler, 'e write_outcome) tracker" where
  "handler_tracker =
     \<lparr>trk_met = is_cl_met, trk_impossible = is_cl_impossible, trk_result = make_result,
      trk_failure = make_failure_error, trk_timeout = make_timeout_error\<rparr>"

definition dc_tracker :: "('e dc_write_response_handler, 'e write_outcome) tracker" where
  "dc_tracker =
     \<lparr>trk_met = is_dc_cl_met, trk_impossible = is_dc_cl_impossible, trk_result = dc_make_result,
      trk_failure = dc_make_failure_error, trk_timeout = dc_make_timeout_error\<rparr>"

section \<open>What the waiter guarantees\<close>

text \<open>
  The contract between a handler and the waiter: once met, a level stays met, and the
  delivery that meets it or makes it impossible wakes the waiter.
\<close>

definition events_of :: "'ev action list \<Rightarrow> 'ev list" where
  "events_of acts = concat (map (\<lambda>a. case a of Deliver e \<Rightarrow> [e] | _ \<Rightarrow> []) acts)"

definition after :: "('ev \<Rightarrow> 'h \<Rightarrow> 'h \<times> bool) \<Rightarrow> 'ev list \<Rightarrow> 'h \<Rightarrow> 'h" where
  "after dlv es h = fold (\<lambda>e h. fst (dlv e h)) es h"

lemma events_of_simps [simp]:
  "events_of [] = []" "events_of (Deliver e # acts) = e # events_of acts"
  "events_of (Run # acts) = events_of acts" "events_of (Deadline # acts) = events_of acts"
  "events_of (acts @ acts') = events_of acts @ events_of acts'"
  by (simp_all add: events_of_def)

lemma after_simps [simp]:
  "after dlv [] h = h" "after dlv (es @ es') h = after dlv es' (after dlv es h)"
  "after dlv (e # es) h = after dlv es (fst (dlv e h))"
  by (simp_all add: after_def)

text \<open>A schedule in which no answer arrives between the waiter's check and its registration.\<close>

fun race_free ::
  "('h, 'r) tracker \<Rightarrow> ('ev \<Rightarrow> 'h \<Rightarrow> 'h \<times> bool) \<Rightarrow> 'ev action list \<Rightarrow> 'h \<times> 'r phase \<Rightarrow> bool" where
  "race_free T dlv [] s = True"
| "race_free T dlv (a # acts) s =
     ((case a of Deliver _ \<Rightarrow> snd s \<noteq> Checked | _ \<Rightarrow> True) \<and> race_free T dlv acts (await_step T dlv a s))"

lemma await_Deliver [simp]:
  "await_step T dlv (Deliver e) (h, ph)
     = (fst (dlv e h), if snd (dlv e h) \<and> ph = Waiting then Looping else ph)"
  by (simp add: case_prod_beta Let_def)

declare await_step.simps(1) [simp del]

lemma await_Done: "fold (await_step T dlv) acts (h, Done r) = (after dlv (events_of acts) h, Done r)"
proof (induction acts arbitrary: h)
  case (Cons a acts)
  then show ?case by (cases a) simp_all
qed simp

lemma await_handler: "fst (fold (await_step T dlv) acts (h, ph)) = after dlv (events_of acts) h"
proof (induction acts arbitrary: h ph)
  case (Cons a acts)
  then show ?case by (cases a) simp_all
qed simp

text \<open>An outcome is decided at one moment of the schedule, by the state of that moment.\<close>

lemma await_decided:
  assumes "fold (await_step T dlv) acts (h, ph) = (h', Done out)" "\<And>r. ph \<noteq> Done r"
  shows "\<exists>before later. acts = before @ later \<and>
    (let h1 = after dlv (events_of before) h in
       trk_met T h1 \<and> out = trk_result T h1 \<or>
       \<not> trk_met T h1 \<and> trk_impossible T h1 \<and> out = trk_failure T h1 \<or>
       Deadline \<in> set acts \<and> out = trk_timeout T h1)"
  using assms
proof (induction acts arbitrary: h ph)
  case (Cons a acts)
  obtain h1 ph1 where step: "await_step T dlv a (h, ph) = (h1, ph1)" by fastforce
  have h1: "h1 = after dlv (events_of [a]) h"
    using await_handler [of T dlv "[a]" h ph] step by simp
  show ?case
  proof (cases "\<exists>r. ph1 = Done r")
    case False
    then obtain before later where "acts = before @ later"
      "let h2 = after dlv (events_of before) h1 in
         trk_met T h2 \<and> out = trk_result T h2 \<or>
         \<not> trk_met T h2 \<and> trk_impossible T h2 \<and> out = trk_failure T h2 \<or>
         Deadline \<in> set acts \<and> out = trk_timeout T h2"
      using Cons.IH [of h1 ph1] Cons.prems(1) step by auto
    then show ?thesis
      using h1 by (intro exI [of _ "a # before"] exI [of _ later]) (cases a; auto simp: Let_def)
  next
    case True
    then obtain r where r: "ph1 = Done r" by blast
    then have "out = r" using Cons.prems(1) step by (simp add: await_Done)
    moreover have "trk_met T h \<and> r = trk_result T h \<or>
        \<not> trk_met T h \<and> trk_impossible T h \<and> r = trk_failure T h \<or> a = Deadline \<and> r = trk_timeout T h"
      using step r Cons.prems(2) [of r] by (cases a; cases ph) (simp_all split: if_splits)
    ultimately show ?thesis
      by (intro exI [of _ "[]"] exI [of _ "a # acts"]) (auto simp: Let_def)
  qed
qed simp

locale waiter =
  fixes T :: "('h, 'r) tracker" and dlv :: "'ev \<Rightarrow> 'h \<Rightarrow> 'h \<times> bool" and ok :: "'h \<Rightarrow> bool"
  assumes ok_deliver: "ok h \<Longrightarrow> ok (fst (dlv e h))"
    and met_notifies: "ok h \<Longrightarrow> trk_met T (fst (dlv e h)) \<Longrightarrow> trk_met T h \<or> snd (dlv e h)"
    and impossible_notifies:
      "ok h \<Longrightarrow> trk_impossible T (fst (dlv e h)) \<Longrightarrow> trk_impossible T h \<or> snd (dlv e h)"
begin

text \<open>Without the race, a registered waiter is never asleep over a decided write.\<close>

lemma never_sleeps_over_decision:
  assumes "race_free T dlv acts (h, ph)" "ok h"
    and "ph \<in> {Checked, Waiting} \<Longrightarrow> \<not> trk_met T h \<and> \<not> trk_impossible T h"
    and "fold (await_step T dlv) acts (h, ph) = (h', ph')" "ph' \<in> {Checked, Waiting}"
  shows "\<not> trk_met T h' \<and> \<not> trk_impossible T h'"
  using assms
proof (induction acts arbitrary: h ph)
  case (Cons a acts)
  obtain h1 ph1 where step: "await_step T dlv a (h, ph) = (h1, ph1)" by fastforce
  have "ok h1"
    using await_handler [of T dlv "[a]" h ph] step Cons.prems(2) ok_deliver by (cases a) auto
  moreover have "\<not> trk_met T h1 \<and> \<not> trk_impossible T h1" if "ph1 \<in> {Checked, Waiting}"
    using that step Cons.prems(1-3) met_notifies [of h] impossible_notifies [of h]
    by (cases a; cases ph) (auto split: if_splits)
  ultimately show ?case
    using Cons.IH [of h1 ph1] Cons.prems(1,4,5) step by simp
qed simp

lemma decision_is_returned:
  assumes "race_free T dlv acts (h, Entry)" "ok h"
    and "fold (await_step T dlv) acts (h, Entry) = (h', ph)" "\<And>r. ph \<noteq> Done r"
    and "trk_met T h' \<or> trk_impossible T h'"
  shows "fold (await_step T dlv) (acts @ [Run, Run]) (h, Entry)
    = (h', Done (if trk_met T h' then trk_result T h' else trk_failure T h'))"
  using never_sleeps_over_decision [OF assms(1,2) _ assms(3)] assms(3-5) by (cases ph) auto

end

section \<open>The two handlers meet the contract\<close>

lemma tracker_sels:
  "trk_met handler_tracker = is_cl_met" "trk_impossible handler_tracker = is_cl_impossible"
  "trk_result handler_tracker = make_result" "trk_failure handler_tracker = make_failure_error"
  "trk_met dc_tracker = is_dc_cl_met" "trk_impossible dc_tracker = is_dc_cl_impossible"
  "trk_result dc_tracker = dc_make_result" "trk_failure dc_tracker = dc_make_failure_error"
  by (simp_all add: handler_tracker_def dc_tracker_def)

lemmas handler_defs = on_response_def on_failure_def on_hint_stored_def is_cl_met_def
  is_cl_impossible_def h_remaining_def

interpretation plain: waiter handler_tracker deliver "\<lambda>h. h_cl h \<noteq> Any"
proof
  fix h :: "'e write_response_handler" and e
  assume cl: "h_cl h \<noteq> Any"
  show "h_cl (fst (deliver e h)) \<noteq> Any"
    using cl by (cases e) (auto simp: handler_defs Let_def)
  show "trk_met handler_tracker h \<or> snd (deliver e h)" if "trk_met handler_tracker (fst (deliver e h))"
    using cl that by (cases e) (auto simp: handler_tracker_def handler_defs Let_def split: if_splits)
  show "trk_impossible handler_tracker h \<or> snd (deliver e h)"
    if "trk_impossible handler_tracker (fst (deliver e h))"
    using that by (cases e) (auto simp: handler_tracker_def handler_defs Let_def split: if_splits)
qed

lemma get_bump: "or_default 0 (map_of (bump dc m) d) = or_default 0 (map_of m d) + (if d = dc then 1 else 0)"
  by (simp add: bump_def update_conv')

interpretation by_dc: waiter dc_tracker dc_deliver "\<lambda>_. True"
proof
  fix h :: "'e dc_write_response_handler" and e
  have failure_keeps: "is_dc_cl_met (h\<lparr>d_failures := m\<rparr>) = is_dc_cl_met h"
    and hint_keeps: "is_dc_cl_met (h\<lparr>d_hints_stored := n\<rparr>) = is_dc_cl_met h"
      "is_dc_cl_impossible (h\<lparr>d_hints_stored := n\<rparr>) = is_dc_cl_impossible h" for m n
    by (simp_all add: is_dc_cl_met_def is_dc_cl_impossible_def)
  have "is_dc_cl_impossible h" if "is_dc_cl_impossible (h\<lparr>d_acks := bump dc (d_acks h)\<rparr>)" for dc
    using that unfolding is_dc_cl_impossible_def list_ex_iff
    by (auto simp: get_bump Let_def split: if_splits intro!: bexI [rotated])
  then show "trk_impossible dc_tracker h \<or> snd (dc_deliver e h)"
    if "trk_impossible dc_tracker (fst (dc_deliver e h))"
    using that hint_keeps
    by (cases e) (auto simp: dc_tracker_def on_response_from_dc_def on_failure_from_dc_def
        dc_on_hint_stored_def Let_def)
  show "trk_met dc_tracker h \<or> snd (dc_deliver e h)" if "trk_met dc_tracker (fst (dc_deliver e h))"
    using that failure_keeps hint_keeps
    by (cases e) (auto simp: dc_tracker_def on_response_from_dc_def on_failure_from_dc_def
        dc_on_hint_stored_def Let_def)
qed simp

section \<open>What the client is told\<close>

fun acked :: "'e write_event list \<Rightarrow> 'e list" where
  "acked [] = []"
| "acked (Response ep # es) = ep # acked es"
| "acked (_ # es) = acked es"

fun failed :: "'e write_event list \<Rightarrow> 'e list" where
  "failed [] = []"
| "failed (Failure ep _ # es) = ep # failed es"
| "failed (_ # es) = failed es"

text \<open>Every contacted replica answers at most once, with an acknowledgement or a failure.\<close>

definition answers_once :: "'e write_event list \<Rightarrow> 'e list \<Rightarrow> bool" where
  "answers_once es contacted \<longleftrightarrow>
     distinct (acked es @ failed es) \<and> set (acked es @ failed es) \<subseteq> set contacted"

lemma acked_append [simp]: "acked (es @ es') = acked es @ acked es'"
  by (induction es rule: acked.induct) simp_all

lemma failed_append [simp]: "failed (es @ es') = failed es @ failed es'"
  by (induction es rule: failed.induct) simp_all

lemma after_fields:
  "h_cl (after deliver es h) = h_cl h" "h_required (after deliver es h) = h_required h"
  "h_total_replicas (after deliver es h) = h_total_replicas h"
  "h_acks_received (after deliver es h) = h_acks_received h + length (acked es)"
proof (atomize (full), induction es arbitrary: h)
  case (Cons e es)
  then show ?case
    by (cases e) (simp_all add: on_response_def on_failure_def on_hint_stored_def Let_def)
qed simp

lemma after_failures:
  assumes "distinct (failed es @ map fst (h_failures h))"
  shows "length (h_failures (after deliver es h)) = length (failed es) + length (h_failures h)"
  using assms
proof (induction es arbitrary: h)
  case (Cons e es)
  have new: "length (AList.update ep r m) = Suc (length m)" "fst ` set (AList.update ep r m) = insert ep (fst ` set m)"
    "distinct (map fst (AList.update ep r m)) = distinct (map fst m)"
    if "ep \<notin> fst ` set m" for ep and r :: request_failure_reason and m
    using that by (induction m) auto
  show ?case
    using Cons by (cases e) (auto simp: on_response_def on_failure_def on_hint_stored_def Let_def new)
qed simp

lemma coordinate_write_async_plan:
  assumes "coordinate_write_async read_u64 wc snap m cl st sn = Inr (plan, h0, hints)"
    "cl \<notin> {EachQuorum, LocalQuorum, LocalOne}"
  shows "compute_write_plan read_u64 wc snap m cl st sn = Inr plan" "h0 = handler_for_plan m cl plan"
    "hints = map (\<lambda>ep. (ep, m)) (pl_dead_replicas plan)"
  using assms by (auto simp: coordinate_write_async_def prepare_async_write_def
      split: option.splits if_splits sum.splits)

text \<open>
  C2. What the outcome of a write means at the levels ONE, TWO, THREE, QUORUM, ALL, SERIAL and
  LOCAL_SERIAL, which count answers over all datacenters, for every interleaving of answers,
  waiter and timeout in which each contacted replica answers at most once: a success was acknowledged
  by enough distinct natural replicas for its level, so that every read at a level which
  exceeds the replication factor together with it meets one of them; a failure is reported
  only when so many replicas have failed that the level cannot be reached any more; and
  nothing else is reported before the deadline.
\<close>

theorem write_outcome_sound:
  assumes "cluster_reachable snap" "cl \<notin> {Any, EachQuorum, LocalQuorum, LocalOne}"
    and "coordinate_write_async read_u64 wc snap m cl st sn = Inr (plan, h0, hints)"
    and "answers_once (events_of acts) (pl_live_replicas plan)"
    and "await_completion handler_tracker deliver acts h0 = (h, Done out)"
  defines "W \<equiv> set (acked (events_of acts))" and "rf \<equiv> length (pl_replicas plan)"
  shows "case out of
      Inr res \<Rightarrow>
        W \<subseteq> set (pl_replicas plan) \<and> is_satisfied cl (card W) rf \<and>
        (\<forall>rcl R. R \<subseteq> set (pl_replicas plan) \<and> is_satisfied rcl (card R) rf \<and>
           rf < block_for cl rf + block_for rcl rf \<longrightarrow> W \<inter> R \<noteq> {})
    | Inl e \<Rightarrow>
        (if is_Timeout e then Deadline \<in> set acts
         else is_WriteFailure e \<and>
           length (pl_live_replicas plan) < block_for cl rf + card (set (failed (events_of acts))))"
proof -
  let ?h0 = "handler_for_plan m cl plan"
  have async: "compute_write_plan read_u64 wc snap m cl st sn = Inr plan" "h0 = ?h0"
    using coordinate_write_async_plan [OF assms(3)] assms(2) by simp_all
  note plan = compute_write_plan_sound [OF async(1)]
  have once: "distinct (acked (events_of acts))" "distinct (failed (events_of acts))"
    "W \<subseteq> set (pl_live_replicas plan)"
    using assms(4) by (auto simp: answers_once_def W_def)
  have live: "set (pl_live_replicas plan) \<subseteq> set (pl_replicas plan)"
    by (auto simp: plan(1,4))
  obtain before later where acts: "acts = before @ later" and
    decided: "let h1 = after deliver (events_of before) ?h0 in
       is_cl_met h1 \<and> out = make_result h1 \<or>
       \<not> is_cl_met h1 \<and> is_cl_impossible h1 \<and> out = make_failure_error h1 \<or>
       Deadline \<in> set acts \<and> out = make_timeout_error h1"
    using await_decided [OF assms(5) [unfolded await_completion_def async(2)]]
    by (auto simp: handler_tracker_def)
  define h1 where "h1 = after deliver (events_of before) ?h0"
  have once1: "distinct (failed (events_of before))" using once(2) by (simp add: acts)
  have h1: "h_cl h1 = cl" "h_required h1 = block_for cl rf" "h_total_replicas h1 = length (pl_live_replicas plan)"
    "h_acks_received h1 = length (acked (events_of before))"
    "length (h_failures h1) = length (failed (events_of before))"
    using once1 by (simp_all add: h1_def after_fields after_failures handler_for_plan_eq handler_new_def
        plan(1,3) rf_def)
  have acks: "h_acks_received h1 \<le> card W"
    using distinct_card [OF once(1)] by (simp add: W_def h1(4) acts)
  consider "is_cl_met h1" "out = make_result h1"
    | "is_cl_impossible h1" "out = make_failure_error h1"
    | "Deadline \<in> set acts" "out = make_timeout_error h1"
    using decided unfolding h1_def [symmetric] Let_def by blast
  then show ?thesis
  proof cases
    case 1
    then have W: "is_satisfied cl (card W) rf"
      using acks assms(2) by (simp add: is_cl_met_def is_satisfied_def h1)
    have "W \<inter> R \<noteq> {}" if "R \<subseteq> set (pl_replicas plan)" "is_satisfied rcl (card R) rf"
      "rf < block_for cl rf + block_for rcl rf" for R rcl
      using that W once(3) live cluster_reachable_ok [OF assms(1)]
      by (intro placement.overlap [of "snap_ring snap" W st sn "from_partition_key read_u64 (m_partition_key m)"])
        (auto simp: is_satisfied_def cluster_ok_def plan(1) replicas_for_token_def rf_def)
    with 1 W once(3) live show ?thesis by (auto simp: make_result_def)
  next
    case 2
    have "length (failed (events_of before)) \<le> card (set (failed (events_of acts)))"
      using distinct_card [OF once(2)] by (simp add: acts)
    with 2 show ?thesis
      by (simp add: make_failure_error_def is_cl_impossible_def h_remaining_def h1)
  next
    case 3
    then show ?thesis by (simp add: make_timeout_error_def)
  qed
qed

text \<open>A cluster of three nodes, one of them dead, and a write at QUORUM.\<close>

definition sample_node :: "string \<Rightarrow> token \<Rightarrow> (string, nat) node_info" where
  "sample_node ep t = node_info_new 0 ep ''dc1'' ''r1'' [t]"

definition sample_cluster :: "(string, nat) cluster_snapshot" where
  "sample_cluster = cluster_step (MarkDead ''C'') (cluster_step (UpdateNode (sample_node ''C'' 30))
     (cluster_step (UpdateNode (sample_node ''B'' 20)) (cluster_new (sample_node ''A'' 10))))"

lemma sample_cluster_reachable: "cluster_reachable sample_cluster"
  unfolding sample_cluster_def
  by (rule cluster_reachable.step, rule cluster_reachable.step, rule cluster_reachable.step,
      rule cluster_reachable.start)

definition sample_wc :: "string write_coordinator" where
  "sample_wc = \<lparr>wc_local_endpoint = ''A'', wc_local_datacenter = ''dc1'', wc_is_bootstrapping = False,
     wc_max_mutation_size = 100, wc_permits = 1, wc_truncating_tables = {}\<rparr>"

definition sample_mutation :: coordinated_mutation where
  "sample_mutation = mutation_simple ''ks'' ''t'' [] [] 1"

definition sample_plan :: "string write_plan" where
  "sample_plan = \<lparr>pl_replicas = [''A'', ''B'', ''C''], pl_live_replicas = [''A'', ''B''],
     pl_dead_replicas = [''C''], pl_local_is_replica = True, pl_block_for = 2, pl_cl = Quorum\<rparr>"

definition sample_result :: "string write_result" where
  "sample_result = \<lparr>wr_acks_received = 2, wr_acks_required = 2,
     wr_contacted_replicas = [''A'', ''B''], wr_hints_stored = 1\<rparr>"

lemma sample_write:
  "coordinate_write_async (\<lambda>_. 0) sample_wc sample_cluster sample_mutation Quorum (SimpleStrategy 3) sample_snitch
    = Inr (sample_plan, handler_for_plan sample_mutation Quorum sample_plan, [(''C'', sample_mutation)])"
  by code_simp

theorem write_outcome_sound_witness:
  "is_satisfied Quorum (card {''A'', ''B''}) (length (pl_replicas sample_plan)) \<and>
   {''A'', ''B''} \<inter> {''B'', ''C''} \<noteq> {}"
proof -
  let ?acts = "[Deliver (Response ''A''), Run, Run, Run, Deliver (Response ''B''), Run]"
  have once: "answers_once (events_of ?acts) (pl_live_replicas sample_plan)" by code_simp
  have "await_completion handler_tracker deliver ?acts (handler_for_plan sample_mutation Quorum sample_plan)
      = (after deliver (events_of ?acts) (handler_for_plan sample_mutation Quorum sample_plan),
         Done (Inr sample_result))"
    by code_simp
  note write_outcome_sound [OF sample_cluster_reachable _ sample_write once this]
  then have "is_satisfied Quorum (card {''A'', ''B''}) (length (pl_replicas sample_plan)) \<and>
      (\<forall>rcl R. R \<subseteq> set (pl_replicas sample_plan) \<and> is_satisfied rcl (card R) (length (pl_replicas sample_plan)) \<and>
         length (pl_replicas sample_plan) < block_for Quorum (length (pl_replicas sample_plan))
           + block_for rcl (length (pl_replicas sample_plan)) \<longrightarrow> {''A'', ''B''} \<inter> R \<noteq> {})"
    by (simp, blast)
  then show ?thesis
    by (elim conjE allE [of _ Quorum] allE [of _ "{''B'', ''C''}"])
      (simp add: sample_plan_def is_satisfied_def block_for_def)
qed

text \<open>
  C18. No decided write is left waiting, at every level but ANY: if no answer arrives in the window between the
  waiter's check and its registration, then as soon as the level is met or out of reach the
  waiter returns the corresponding outcome after at most two of its own steps, without
  help from the deadline.
\<close>

theorem decided_write_returns:
  assumes "race_free handler_tracker deliver acts (h0, Entry)" "h_cl h0 \<noteq> Any"
    and "await_completion handler_tracker deliver acts h0 = (h, ph)" "\<And>r. ph \<noteq> Done r"
    and "is_cl_met h \<or> is_cl_impossible h"
  shows "await_completion handler_tracker deliver (acts @ [Run, Run]) h0
    = (h, Done (if is_cl_met h then make_result h else make_failure_error h))"
  using plain.decision_is_returned [OF assms(1,2) assms(3) [unfolded await_completion_def] assms(4)] assms(5)
  by (simp only: await_completion_def tracker_sels)

definition sample_handler :: "string write_response_handler" where
  "sample_handler = handler_new Quorum Simple 2 [''A'', ''B'', ''C'']"

theorem decided_write_returns_witness:
  "snd (await_completion handler_tracker deliver
       [Run, Run, Run, Deliver (Response ''A''), Deliver (Response ''B''), Run, Run] sample_handler)
     = Done (Inr \<lparr>wr_acks_received = 2, wr_acks_required = 2,
         wr_contacted_replicas = [''A'', ''B'', ''C''], wr_hints_stored = 0\<rparr>)"
proof -
  let ?acts = "[Run, Run, Run, Deliver (Response ''A''), Deliver (Response ''B'')]"
  have "race_free handler_tracker deliver ?acts (sample_handler, Entry)" "h_cl sample_handler \<noteq> Any"
    by code_simp+
  note returns = decided_write_returns [OF this]
  let ?h = "after deliver (events_of ?acts) sample_handler"
  have "await_completion handler_tracker deliver ?acts sample_handler = (?h, Looping)" "is_cl_met ?h"
    "make_result ?h = Inr \<lparr>wr_acks_received = 2, wr_acks_required = 2,
         wr_contacted_replicas = [''A'', ''B'', ''C''], wr_hints_stored = 0\<rparr>"
    by code_simp+
  with returns [of ?h Looping] show ?thesis by simp
qed

text \<open>The same for the handler by datacenter, at every level.\<close>

lemma decided_dc_write_returns:
  assumes "race_free dc_tracker dc_deliver acts (d0, Entry)"
    and "await_completion dc_tracker dc_deliver acts d0 = (d, ph)" "\<And>r. ph \<noteq> Done r"
    and "is_dc_cl_met d \<or> is_dc_cl_impossible d"
  shows "await_completion dc_tracker dc_deliver (acts @ [Run, Run]) d0
    = (d, Done (if is_dc_cl_met d then dc_make_result d else dc_make_failure_error d))"
  using by_dc.decision_is_returned [OF assms(1) TrueI assms(2) [unfolded await_completion_def] assms(3)] assms(4)
  by (simp only: await_completion_def tracker_sels)

section \<open>Where the client is told something else\<close>

text \<open>
  An acknowledgement that arrives between the check and the registration is not noticed: the
  write times out although its level is met.
\<close>

lemma lost_wakeup:
  "case await_completion handler_tracker deliver
      [Deliver (Response ''A''), Run, Run, Deliver (Response ''B''), Run, Run, Run, Deadline] sample_handler of
     (h, ph) \<Rightarrow> is_cl_met h \<and> ph = Done (make_timeout_error h)"
  by code_simp

text \<open>Acknowledgements are counted, not the replicas that send them.\<close>

lemma repeated_ack_meets_quorum:
  "snd (await_completion handler_tracker deliver
      [Deliver (Response ''A''), Deliver (Response ''A''), Run] sample_handler)
     = Done (Inr \<lparr>wr_acks_received = 2, wr_acks_required = 2,
         wr_contacted_replicas = [''A'', ''B'', ''C''], wr_hints_stored = 0\<rparr>)"
  by code_simp

text \<open>
  At level ANY a stored hint is enough, but a failed replica is recorded before its hint is
  stored, and the waiter does not count hints when it gives up; nor does storing a hint wake it.
\<close>

lemma any_fails_before_hint:
  "case await_completion handler_tracker deliver
      [Run, Run, Run, Deliver (Failure ''A'' Unknown), Run, Deliver HintStored]
      (handler_new Any Simple 1 [''A'']) of
     (h, ph) \<Rightarrow> is_cl_met h \<and> (case ph of Done (Inl e) \<Rightarrow> is_WriteFailure e | _ \<Rightarrow> False)"
  by code_simp

text \<open>
  The asynchronous path uses the plain handler for the levels by datacenter.  At EACH_QUORUM
  it waits for the sum of the quorums, which one datacenter can provide alone.
\<close>

definition two_dc_cluster :: "(string, nat) cluster_snapshot" where
  "two_dc_cluster = cluster_step (UpdateNode (node_info_new 0 ''E'' ''dc2'' ''r1'' [50]))
     (cluster_step (UpdateNode (node_info_new 0 ''D'' ''dc2'' ''r1'' [40]))
     (cluster_step (UpdateNode (node_info_new 0 ''C'' ''dc1'' ''r1'' [30]))
     (cluster_step (UpdateNode (node_info_new 0 ''B'' ''dc1'' ''r1'' [20]))
     (cluster_new (node_info_new 0 ''A'' ''dc1'' ''r1'' [10])))))"

definition two_dc_snitch :: "string snitch" where
  "two_dc_snitch = \<lparr>datacenter = (\<lambda>e. if e \<in> {''D'', ''E''} then ''dc2'' else ''dc1''), rack = (\<lambda>_. ''r1'')\<rparr>"

definition two_dc_strategy :: strategy where
  "two_dc_strategy = NetworkTopologyStrategy [(''dc1'', 3), (''dc2'', 1)]"

lemma each_quorum_without_second_dc:
  "case coordinate_write_async (\<lambda>_. 0) sample_wc two_dc_cluster sample_mutation EachQuorum two_dc_strategy two_dc_snitch of
     Inl e \<Rightarrow> False
   | Inr (plan, h, hints) \<Rightarrow>
       (case await_completion handler_tracker deliver
          [Deliver (Response ''A''), Deliver (Response ''B''), Deliver (Response ''C''), Run] h of
          (h', Done (Inr res)) \<Rightarrow> set (pl_live_replicas plan) = {''A'', ''B'', ''C'', ''D''}
        | _ \<Rightarrow> False)"
  by code_simp

text \<open>At LOCAL_QUORUM the replicas of the other datacenters get neither the write nor a hint.\<close>

lemma local_quorum_skips_remote_replicas:
  "case coordinate_write_async (\<lambda>_. 0) sample_wc two_dc_cluster sample_mutation LocalQuorum two_dc_strategy two_dc_snitch of
     Inl e \<Rightarrow> False
   | Inr (plan, h, hints) \<Rightarrow>
       ''D'' \<in> set (pl_replicas plan) \<and> ''D'' \<notin> set (pl_live_replicas plan) \<and> hints = []"
  by code_simp

end
