(* ===== verification/Cql_Types.thy ===== *)
theory Cql_Types
  imports Strings
begin

text \<open>
  The CQL types (\<open>types/src/native.rs\<close>): the enumeration, its protocol codes, its fixed
  sizes, its CQL syntax and the parser of that syntax.  \<open>CList\<close>, \<open>CSet\<close> and \<open>CMap\<close>
  are the variants \<open>List\<close>, \<open>Set\<close> and \<open>Map\<close>, \<open>CInt\<close> is \<open>Int\<close>; the variant \<open>DynamicComposite\<close>, whose
  comparators are read out of the values themselves, is left out.  Names are ASCII.

  The theorem is the round trip: every type that CQL syntax can express is read back from
  its name.
\<close>

section \<open>The types\<close>

datatype cql_type =
    Ascii | Bigint | Blob | Boolean | Counter | Decimal | Double | Float | CInt | Timestamp
  | Uuid | Varchar | Varint | Timeuuid | Inet | Date | Time | Smallint | Tinyint | Duration | Empty
  | CList cql_type bool
  | CSet cql_type bool
  | CMap cql_type cql_type bool
  | Tuple "cql_type list"
  | Composite "cql_type list"
  | Udt string string "string list" "cql_type list" bool
  | Reversed cql_type
  | Vector cql_type nat

definition protocol_id :: "cql_type \<Rightarrow> 16 word option" where
  "protocol_id ty =
     (case ty of
        Ascii \<Rightarrow> Some 0x0001 | Bigint \<Rightarrow> Some 0x0002 | Blob \<Rightarrow> Some 0x0003
      | Boolean \<Rightarrow> Some 0x0004 | Counter \<Rightarrow> Some 0x0005 | Decimal \<Rightarrow> Some 0x0006
      | Double \<Rightarrow> Some 0x0007 | Float \<Rightarrow> Some 0x0008 | CInt \<Rightarrow> Some 0x0009
      | Timestamp \<Rightarrow> Some 0x000B | Uuid \<Rightarrow> Some 0x000C | Varchar \<Rightarrow> Some 0x000D
      | Varint \<Rightarrow> Some 0x000E | Timeuuid \<Rightarrow> Some 0x000F | Inet \<Rightarrow> Some 0x0010
      | Date \<Rightarrow> Some 0x0011 | Time \<Rightarrow> Some 0x0012 | Smallint \<Rightarrow> Some 0x0013
      | Tinyint \<Rightarrow> Some 0x0014 | Duration \<Rightarrow> Some 0x0015
      | CList _ _ \<Rightarrow> Some 0x0020 | CMap _ _ _ \<Rightarrow> Some 0x0021 | CSet _ _ \<Rightarrow> Some 0x0022
      | Udt _ _ _ _ _ \<Rightarrow> Some 0x0030 | Tuple _ \<Rightarrow> Some 0x0031 | Vector _ _ \<Rightarrow> Some 0x0032
      | Empty \<Rightarrow> None | Reversed _ \<Rightarrow> None | Composite _ \<Rightarrow> None)"

fun join :: "string \<Rightarrow> string list \<Rightarrow> string" where
  "join sep [] = []"
| "join sep [x] = x"
| "join sep (x # xs) = x @ sep @ join sep xs"

definition frozen_name :: "bool \<Rightarrow> string \<Rightarrow> string" where
  "frozen_name frozen nm = (if frozen then ''frozen<'' @ nm @ ''>'' else nm)"

fun cql_name :: "cql_type \<Rightarrow> string" where
  "cql_name Ascii = ''ascii''"
| "cql_name Bigint = ''bigint''"
| "cql_name Blob = ''blob''"
| "cql_name Boolean = ''boolean''"
| "cql_name Counter = ''counter''"
| "cql_name Decimal = ''decimal''"
| "cql_name Double = ''double''"
| "cql_name Float = ''float''"
| "cql_name CInt = ''int''"
| "cql_name Timestamp = ''timestamp''"
| "cql_name Uuid = ''uuid''"
| "cql_name Varchar = ''text''"
| "cql_name Varint = ''varint''"
| "cql_name Timeuuid = ''timeuuid''"
| "cql_name Inet = ''inet''"
| "cql_name Date = ''date''"
| "cql_name Time = ''time''"
| "cql_name Smallint = ''smallint''"
| "cql_name Tinyint = ''tinyint''"
| "cql_name Duration = ''duration''"
| "cql_name Empty = ''empty''"
| "cql_name (CList inner frozen) = frozen_name frozen (''list<'' @ cql_name inner @ ''>'')"
| "cql_name (CSet inner frozen) = frozen_name frozen (''set<'' @ cql_name inner @ ''>'')"
| "cql_name (CMap key val frozen) =
     frozen_name frozen (''map<'' @ cql_name key @ '', '' @ cql_name val @ ''>'')"
| "cql_name (Tuple types) = ''tuple<'' @ join '', '' (map cql_name types) @ ''>''"
| "cql_name (Composite types) = ''CompositeType('' @ join '', '' (map cql_name types) @ '')''"
| "cql_name (Udt ks nm _ _ _) = ks @ ''.'' @ nm"
| "cql_name (Reversed inner) = cql_name inner"
| "cql_name (Vector inner dims) = ''vector<'' @ cql_name inner @ '', '' @ show_nat dims @ ''>''"

definition is_collection :: "cql_type \<Rightarrow> bool" where
  "is_collection ty = (case ty of CList _ _ \<Rightarrow> True | CSet _ _ \<Rightarrow> True | CMap _ _ _ \<Rightarrow> True | _ \<Rightarrow> False)"

definition is_multi_cell :: "cql_type \<Rightarrow> bool" where
  "is_multi_cell ty =
     (case ty of
        CList _ frozen \<Rightarrow> \<not> frozen | CSet _ frozen \<Rightarrow> \<not> frozen | CMap _ _ frozen \<Rightarrow> \<not> frozen
      | Udt _ _ _ _ multi \<Rightarrow> multi
      | Composite _ \<Rightarrow> True
      | _ \<Rightarrow> False)"

definition is_counter :: "cql_type \<Rightarrow> bool" where
  "is_counter ty \<longleftrightarrow> ty = Counter"

definition is_reversed :: "cql_type \<Rightarrow> bool" where
  "is_reversed ty = (case ty of Reversed _ \<Rightarrow> True | _ \<Rightarrow> False)"

definition unwrap_reversed :: "cql_type \<Rightarrow> cql_type" where
  "unwrap_reversed ty = (case ty of Reversed inner \<Rightarrow> inner | other \<Rightarrow> other)"

text \<open>
  Sizes are natural numbers: the product of a vector's size only leaves \<open>usize\<close> for
  values that no buffer holds.
\<close>

fun fixed_size :: "cql_type \<Rightarrow> nat option" where
  "fixed_size Tinyint = Some 1"
| "fixed_size Smallint = Some 2"
| "fixed_size CInt = Some 4"
| "fixed_size Float = Some 4"
| "fixed_size Date = Some 4"
| "fixed_size Bigint = Some 8"
| "fixed_size Double = Some 8"
| "fixed_size Timestamp = Some 8"
| "fixed_size Counter = Some 8"
| "fixed_size Time = Some 8"
| "fixed_size Uuid = Some 16"
| "fixed_size Timeuuid = Some 16"
| "fixed_size Boolean = Some 1"
| "fixed_size Empty = Some 0"
| "fixed_size (Vector inner dims) = map_option (\<lambda>s. s * dims) (fixed_size inner)"
| "fixed_size _ = None"

section \<open>The parser\<close>

definition simple_names :: "(string \<times> cql_type) list" where
  "simple_names =
     [(''ascii'', Ascii), (''bigint'', Bigint), (''blob'', Blob), (''boolean'', Boolean),
      (''counter'', Counter), (''decimal'', Decimal), (''double'', Double), (''float'', Float),
      (''int'', CInt), (''timestamp'', Timestamp), (''uuid'', Uuid), (''text'', Varchar),
      (''varchar'', Varchar), (''varint'', Varint), (''timeuuid'', Timeuuid), (''inet'', Inet),
      (''date'', Date), (''time'', Time), (''smallint'', Smallint), (''tinyint'', Tinyint),
      (''duration'', Duration), (''empty'', Empty)]"

definition from_cql_name :: "string \<Rightarrow> cql_type option" where
  "from_cql_name nm = map_of simple_names (to_lowercase nm)"

text \<open>The two scans for commas outside angle brackets, with the depth as their state.\<close>

fun split_first :: "int \<Rightarrow> string \<Rightarrow> (string \<times> string) option" where
  "split_first depth [] = None"
| "split_first depth (c # v) =
     (if c = CHR ''<'' then map_option (apfst (Cons c)) (split_first (depth + 1) v)
      else if c = CHR ''>'' then map_option (apfst (Cons c)) (split_first (depth - 1) v)
      else if c = CHR '','' \<and> depth = 0 then Some ([], v)
      else map_option (apfst (Cons c)) (split_first depth v))"

definition split_top_level_comma :: "string \<Rightarrow> (string \<times> string) option" where
  "split_top_level_comma v = split_first 0 v"

fun split_all :: "int \<Rightarrow> string \<Rightarrow> string \<Rightarrow> string list" where
  "split_all depth part [] = [part]"
| "split_all depth part (c # v) =
     (if c = CHR ''<'' then split_all (depth + 1) (part @ [c]) v
      else if c = CHR ''>'' then split_all (depth - 1) (part @ [c]) v
      else if c = CHR '','' \<and> depth = 0 then part # split_all depth [] v
      else split_all depth (part @ [c]) v)"

definition split_all_top_level_commas :: "string \<Rightarrow> string list" where
  "split_all_top_level_commas v = split_all 0 [] v"

definition freeze_cql :: "cql_type \<Rightarrow> cql_type" where
  "freeze_cql ty =
     (case ty of
        CList inner _ \<Rightarrow> CList inner True
      | CSet inner _ \<Rightarrow> CSet inner True
      | CMap k v _ \<Rightarrow> CMap k v True
      | Udt ks nm names types _ \<Rightarrow> Udt ks nm names types False
      | other \<Rightarrow> other)"

definition u32_max :: nat where "u32_max = 2 ^ 32 - 1"

text \<open>\<open>s.strip_prefix("list<").and_then(|r| r.strip_suffix('>'))\<close>\<close>

definition angle :: "string \<Rightarrow> string \<Rightarrow> string option" where
  "angle p v = Option.bind (strip_prefix p v) (strip_suffix (CHR ''>''))"

lemma angle_length:
  assumes "angle p v = Some w"
  shows "length w < length v"
proof -
  obtain y where "strip_prefix p v = Some y" "strip_suffix (CHR ''>'') y = Some w"
    using assms by (auto simp: angle_def bind_eq_Some_conv)
  then show ?thesis
    using strip_prefix_length [of p v y] strip_suffix_length [of _ y w] by simp
qed

lemma split_first_eq: "split_first d v = Some (a, b) \<Longrightarrow> v = a @ CHR '','' # b"
  by (induction v arbitrary: d a b) (auto split: if_splits)

lemma split_first_length:
  "split_first d v = Some (a, b) \<Longrightarrow> length a < length v \<and> length b < length v"
  by (auto dest: split_first_eq)

lemma split_all_length:
  "p \<in> set (split_all d part v) \<Longrightarrow> length p \<le> length part + length v"
  by (induction d part v rule: split_all.induct) (fastforce split: if_splits)+

function parse_cql_type :: "string \<Rightarrow> cql_type option" where
  "parse_cql_type v0 =
     (let v = trim v0 in
      if v = [] then None
      else case angle ''frozen<'' v of
        Some inner \<Rightarrow> map_option freeze_cql (parse_cql_type inner)
      | None \<Rightarrow> (case angle ''list<'' v of
        Some inner \<Rightarrow> map_option (\<lambda>t. CList t False) (parse_cql_type inner)
      | None \<Rightarrow> (case angle ''set<'' v of
        Some inner \<Rightarrow> map_option (\<lambda>t. CSet t False) (parse_cql_type inner)
      | None \<Rightarrow> (case angle ''map<'' v of
        Some inner \<Rightarrow>
          (case split_top_level_comma inner of
             None \<Rightarrow> None
           | Some (a, b) \<Rightarrow>
               (case parse_cql_type (trim a) of
                  None \<Rightarrow> None
                | Some k \<Rightarrow> map_option (\<lambda>t. CMap k t False) (parse_cql_type (trim b))))
      | None \<Rightarrow> (case angle ''tuple<'' v of
        Some inner \<Rightarrow>
          map_option Tuple (those (map (\<lambda>p. parse_cql_type (trim p)) (split_all_top_level_commas inner)))
      | None \<Rightarrow> (case angle ''vector<'' v of
        Some inner \<Rightarrow>
          (case split_top_level_comma inner of
             None \<Rightarrow> None
           | Some (a, b) \<Rightarrow>
               (case parse_cql_type (trim a) of
                  None \<Rightarrow> None
                | Some t \<Rightarrow>
                    (case parse_unsigned u32_max (trim b) of
                       None \<Rightarrow> None
                     | Some dims \<Rightarrow> if dims = 0 then None else Some (Vector t dims))))
      | None \<Rightarrow> from_cql_name v))))))"
  by pat_completeness auto

lemma parse_inner_length: "angle p (trim v) = Some inner \<Longrightarrow> length inner < length v"
  using angle_length [of p "trim v" inner] length_trim [of v] by simp

lemma parse_pair_length:
  assumes "angle p (trim v) = Some inner" "split_top_level_comma inner = Some (a, b)"
  shows "length (trim a) < length v" "length (trim b) < length v"
  using parse_inner_length [OF assms(1)] split_first_length [of 0 inner a b] assms(2)
    length_trim [of a] length_trim [of b]
  by (simp_all add: split_top_level_comma_def)

lemma parse_part_length:
  assumes "angle p (trim v) = Some inner" "a \<in> set (split_all_top_level_commas inner)"
  shows "length (trim a) < length v"
  using parse_inner_length [OF assms(1)] split_all_length [of a 0 "[]" inner] assms(2) length_trim [of a]
  by (simp add: split_all_top_level_commas_def)

termination parse_cql_type
  by (relation "measure length")
    (auto intro: parse_inner_length parse_pair_length parse_part_length)

declare parse_cql_type.simps [simp del]

section \<open>The round trip\<close>

text \<open>
  \<open>depth_after\<close> follows the depth that both scans keep, and is \<open>None\<close> when they meet a
  comma at depth 0.  A name crosses them unsplit.
\<close>

fun depth_after :: "int \<Rightarrow> string \<Rightarrow> int option" where
  "depth_after d [] = Some d"
| "depth_after d (c # v) =
     (if c = CHR ''<'' then depth_after (d + 1) v
      else if c = CHR ''>'' then depth_after (d - 1) v
      else if c = CHR '','' \<and> d = 0 then None
      else depth_after d v)"

lemma depth_after_append [simp]:
  "depth_after d (v @ w) = Option.bind (depth_after d v) (\<lambda>d'. depth_after d' w)"
  by (induction d v rule: depth_after.induct) auto

lemma split_first_skip:
  "depth_after d v = Some d' \<Longrightarrow> split_first d (v @ w) = map_option (apfst ((@) v)) (split_first d' w)"
proof (induction d v rule: depth_after.induct)
  case (1 d)
  then show ?case by (cases "split_first d' w") auto
next
  case (2 d c v)
  then show ?case
    by (cases "split_first d' w") (auto split: if_splits)
qed

lemma split_all_skip:
  "depth_after d v = Some d' \<Longrightarrow> split_all d part (v @ w) = split_all d' (part @ v) w"
  by (induction d v arbitrary: part rule: depth_after.induct) (auto split: if_splits)

fun cql_expressible :: "cql_type \<Rightarrow> bool" where
  "cql_expressible (CList t _) = cql_expressible t"
| "cql_expressible (CSet t _) = cql_expressible t"
| "cql_expressible (CMap k t _) = (cql_expressible k \<and> cql_expressible t)"
| "cql_expressible (Tuple ts) = (ts \<noteq> [] \<and> (\<forall>t \<in> set ts. cql_expressible t))"
| "cql_expressible (Vector t dims) = (cql_expressible t \<and> 0 < dims \<and> dims \<le> u32_max)"
| "cql_expressible (Composite _) = False"
| "cql_expressible (Udt _ _ _ _ _) = False"
| "cql_expressible (Reversed _) = False"
| "cql_expressible _ = True"

definition unsplit :: "string \<Rightarrow> bool" where
  "unsplit v \<longleftrightarrow> tight v \<and> (\<forall>d \<ge> 0. depth_after d v = Some d)"

lemma unsplit_tight [simp]: "unsplit v \<Longrightarrow> tight v"
  by (simp add: unsplit_def)

lemma unsplit_depth [simp]: "unsplit v \<Longrightarrow> 0 \<le> d \<Longrightarrow> depth_after d v = Some d"
  by (simp add: unsplit_def)

lemma join_Cons: "xs \<noteq> [] \<Longrightarrow> join sep (x # xs) = x @ sep @ join sep xs"
  by (cases xs) simp_all

lemma depth_join:
  "\<forall>x \<in> set xs. unsplit x \<Longrightarrow> 0 < d \<Longrightarrow> depth_after d (join '', '' xs) = Some d"
proof (induction xs)
  case (Cons x xs)
  then show ?case by (cases "xs = []") (simp_all add: join_Cons)
qed simp

lemma depth_digits: "list_all is_digit v \<Longrightarrow> depth_after d v = Some d"
  by (induction v) (auto simp: is_digit_def)

lemma tight_bracket: "tight (c # v @ [CHR ''>'']) \<longleftrightarrow> \<not> is_whitespace c"
  by (simp add: tight_def is_whitespace_def)

lemma unsplit_frozen: "unsplit v \<Longrightarrow> unsplit (frozen_name f v)"
  by (auto simp: unsplit_def frozen_name_def tight_def is_whitespace_def)

lemma unsplit_angle:
  "\<lbrakk>tight p; \<forall>d. depth_after d p = Some (d + 1); \<forall>d > 0. depth_after d v = Some d\<rbrakk>
   \<Longrightarrow> unsplit (p @ v @ ''>'')"
  by (auto simp: unsplit_def tight_def is_whitespace_def)

lemma unsplit_name: "cql_expressible t \<Longrightarrow> unsplit (cql_name t)"
proof (induction t rule: cql_name.induct)
  case (24 k t f)
  then show ?case
    using unsplit_frozen [OF unsplit_angle [of "''map<''" "cql_name k @ '', '' @ cql_name t"]]
    by (simp add: tight_def is_whitespace_def)
next
  case (25 ts)
  then show ?case
    using unsplit_angle [of "''tuple<''" "join '', '' (map cql_name ts)"] depth_join [of "map cql_name ts"]
    by (simp add: tight_def is_whitespace_def)
next
  case (29 t dims)
  then show ?case
    using unsplit_angle [of "''vector<''" "cql_name t @ '', '' @ show_nat dims"]
    by (simp add: tight_def is_whitespace_def depth_digits show_nat_digits)
next
  case (22 t f)
  then show ?case
    using unsplit_frozen [OF unsplit_angle [of "''list<''" "cql_name t"]]
    by (simp add: tight_def is_whitespace_def)
next
  case (23 t f)
  then show ?case
    using unsplit_frozen [OF unsplit_angle [of "''set<''" "cql_name t"]]
    by (simp add: tight_def is_whitespace_def)
qed (simp_all add: unsplit_def tight_def is_whitespace_def)

lemma angle_same [simp]: "angle p (p @ v @ ''>'') = Some v"
  by (simp add: angle_def strip_suffix_snoc [of "CHR ''>''" v])

lemma tight_angle [simp]: "tight p \<Longrightarrow> tight (p @ v @ ''>'')"
  by (simp add: tight_def is_whitespace_def)

lemmas angle_other = angle_def strip_prefix_def tight_def is_whitespace_def

lemma parse_frozen:
  "parse_cql_type (''frozen<'' @ v @ ''>'') = map_option freeze_cql (parse_cql_type v)"
  using angle_same [of "''frozen<''" v] tight_angle [of "''frozen<''" v]
  by (subst parse_cql_type.simps) (simp add: tight_def is_whitespace_def)

lemma parse_list:
  "parse_cql_type (''list<'' @ v @ ''>'') = map_option (\<lambda>t. CList t False) (parse_cql_type v)"
  using angle_same [of "''list<''" v] tight_angle [of "''list<''" v]
  by (subst parse_cql_type.simps) (simp add: angle_other)

lemma parse_set:
  "parse_cql_type (''set<'' @ v @ ''>'') = map_option (\<lambda>t. CSet t False) (parse_cql_type v)"
  using angle_same [of "''set<''" v] tight_angle [of "''set<''" v]
  by (subst parse_cql_type.simps) (simp add: angle_other)

lemma parse_frozen_name:
  "parse_cql_type v = Some t \<Longrightarrow>
   parse_cql_type (frozen_name f v) = Some (if f then freeze_cql t else t)"
  using parse_frozen [of v] by (simp add: frozen_name_def)

lemma split_pair:
  "unsplit a \<Longrightarrow> split_top_level_comma (a @ '', '' @ b) = Some (a, CHR '' '' # b)"
  using split_first_skip [of 0 a 0 "'', '' @ b"] by (simp add: split_top_level_comma_def)

lemma angle_hd: "p \<noteq> [] \<Longrightarrow> q \<noteq> [] \<Longrightarrow> hd p \<noteq> hd q \<Longrightarrow> angle p (q @ v) = None"
  by (cases p; cases q) (simp_all add: angle_def strip_prefix_def)

lemma parse_map:
  assumes "unsplit a" "tight b"
  shows "parse_cql_type (''map<'' @ (a @ '', '' @ b) @ ''>'') =
    (case parse_cql_type a of None \<Rightarrow> None
     | Some k \<Rightarrow> map_option (\<lambda>t. CMap k t False) (parse_cql_type b))" (is "parse_cql_type ?v = _")
proof -
  have "angle ''frozen<'' ?v = None" "angle ''list<'' ?v = None" "angle ''set<'' ?v = None"
    by (rule angle_hd; simp)+
  moreover have "trim ?v = ?v" "?v \<noteq> []"
    by (intro trim_tight tight_angle) (simp_all add: tight_def is_whitespace_def)
  moreover have "angle ''map<'' ?v = Some (a @ '', '' @ b)" by (rule angle_same)
  ultimately show ?thesis
    using split_pair [OF assms(1), of b] assms
    by (subst parse_cql_type.simps) (simp del: append.simps split: option.splits)
qed

lemma parse_vector:
  assumes "unsplit a" "0 < dims" "dims \<le> u32_max"
  shows "parse_cql_type (''vector<'' @ (a @ '', '' @ show_nat dims) @ ''>'') =
    map_option (\<lambda>t. Vector t dims) (parse_cql_type a)" (is "parse_cql_type ?v = _")
proof -
  have "angle ''frozen<'' ?v = None" "angle ''list<'' ?v = None" "angle ''set<'' ?v = None"
    "angle ''map<'' ?v = None" "angle ''tuple<'' ?v = None"
    by (rule angle_hd; simp)+
  moreover have "trim ?v = ?v" "?v \<noteq> []"
    by (intro trim_tight tight_angle) (simp_all add: tight_def is_whitespace_def)
  moreover have "angle ''vector<'' ?v = Some (a @ '', '' @ show_nat dims)" by (rule angle_same)
  moreover have "parse_unsigned u32_max (trim (CHR '' '' # show_nat dims)) = Some dims"
    using parse_show_nat [OF assms(3)] trim_blank_tight [OF tight_digits [OF show_nat_digits show_nat_ne]]
    by simp
  ultimately show ?thesis
    using split_pair [OF assms(1), of "show_nat dims"] assms
    by (subst parse_cql_type.simps) (simp del: append.simps split: option.splits)
qed

lemma split_join:
  "\<lbrakk>\<forall>x \<in> set xs. unsplit x; xs \<noteq> []; set part \<subseteq> {CHR '' ''}; length part \<le> 1\<rbrakk>
   \<Longrightarrow> map trim (split_all 0 part (join '', '' xs)) = xs"
proof (induction xs arbitrary: part)
  case (Cons x xs)
  have x: "trim (part @ x) = x"
    using Cons.prems by (cases part) auto
  show ?case
  proof (cases "xs = []")
    case True
    then show ?thesis using Cons.prems x split_all_skip [of 0 x 0 part "[]"] by simp
  next
    case False
    then show ?thesis
      using Cons.prems x Cons.IH [of "'' ''"] split_all_skip [of 0 x 0 part "'', '' @ join '', '' xs"]
      by (simp add: join_Cons)
  qed
qed simp

lemma parse_tuple:
  assumes "\<forall>x \<in> set xs. unsplit x" "xs \<noteq> []"
  shows "parse_cql_type (''tuple<'' @ join '', '' xs @ ''>'') = map_option Tuple (those (map parse_cql_type xs))"
proof -
  let ?v = "join '', '' xs"
  have "map (\<lambda>p. parse_cql_type (trim p)) (split_all_top_level_commas ?v) = map parse_cql_type xs"
    using arg_cong [OF split_join [OF assms, of "[]"], of "map parse_cql_type"]
    by (simp add: split_all_top_level_commas_def comp_def)
  moreover have "angle ''frozen<'' (''tuple<'' @ ?v @ ''>'') = None"
    "angle ''list<'' (''tuple<'' @ ?v @ ''>'') = None" "angle ''set<'' (''tuple<'' @ ?v @ ''>'') = None"
    "angle ''map<'' (''tuple<'' @ ?v @ ''>'') = None"
    by (rule angle_hd; simp)+
  moreover have "trim (''tuple<'' @ ?v @ ''>'') = ''tuple<'' @ ?v @ ''>''" "''tuple<'' @ ?v @ ''>'' \<noteq> []"
    by (intro trim_tight tight_angle) (simp_all add: tight_def is_whitespace_def)
  moreover have "angle ''tuple<'' (''tuple<'' @ ?v @ ''>'') = Some ?v" by (rule angle_same)
  ultimately show ?thesis
    by (subst parse_cql_type.simps) (simp del: append.simps)
qed

lemma those_map_Some: "\<forall>x \<in> set xs. f x = Some (g x) \<Longrightarrow> those (map f xs) = Some (map g xs)"
  by (induction xs) auto

lemma parse_scalar:
  assumes "(cql_name t, t) \<in> set simple_names" "tight (cql_name t)"
  shows "parse_cql_type (cql_name t) = Some t"
  using assms
  by (subst parse_cql_type.simps)
    (auto simp: simple_names_def from_cql_name_def to_lowercase_def angle_def strip_prefix_def tight_def)

lemma parse_name: "cql_expressible t \<Longrightarrow> parse_cql_type (cql_name t) = Some t"
proof (induction t rule: cql_name.induct)
  case (22 t f)
  then show ?case
    using parse_frozen_name [of "''list<'' @ cql_name t @ ''>''" "CList t False" f] parse_list [of "cql_name t"]
    by (simp add: freeze_cql_def)
next
  case (23 t f)
  then show ?case
    using parse_frozen_name [of "''set<'' @ cql_name t @ ''>''" "CSet t False" f] parse_set [of "cql_name t"]
    by (simp add: freeze_cql_def)
next
  case (24 k t f)
  then show ?case
    using parse_frozen_name [of "''map<'' @ (cql_name k @ '', '' @ cql_name t) @ ''>''" "CMap k t False" f]
      parse_map [of "cql_name k" "cql_name t"] unsplit_name [of k] unsplit_name [of t]
    by (simp add: freeze_cql_def)
next
  case (25 ts)
  then have "those (map parse_cql_type (map cql_name ts)) = Some ts"
    using those_map_Some [of ts "parse_cql_type \<circ> cql_name" id] by simp
  then show ?case
    using parse_tuple [of "map cql_name ts"] 25 unsplit_name by simp
next
  case (29 t dims)
  then show ?case using parse_vector [of "cql_name t" dims] unsplit_name [of t] by simp
qed ((rule parse_scalar; simp add: simple_names_def tight_def is_whitespace_def) | simp)+

text \<open>
  C27. Every type that the CQL syntax can express (scalars, frozen and unfrozen collections,
  non-empty tuples and vectors of non-zero dimension) is read back by the type parser from
  the name that the code prints for it.
\<close>

theorem cql_type_roundtrip:
  assumes "cql_expressible t"
  shows "parse_cql_type (cql_name t) = Some t"
  by (rule parse_name [OF assms])

theorem cql_type_roundtrip_witness:
  "parse_cql_type ''frozen<map<text, tuple<int, vector<float, 3>>>>'' =
     Some (CMap Varchar (Tuple [CInt, Vector Float 3]) True)"
proof -
  have "show_nat 3 = ''3''" by (subst show_nat.simps) (simp, code_simp)
  then show ?thesis
    using cql_type_roundtrip [of "CMap Varchar (Tuple [CInt, Vector Float 3]) True"]
    by (simp add: frozen_name_def u32_max_def)
qed

text \<open>What the syntax does not express is lost: the order of a clustering column and user types.\<close>

lemma reversed_name_loses_order:
  "parse_cql_type (cql_name (Reversed CInt)) = Some CInt"
  using parse_name [of CInt] by simp

lemma empty_tuple_not_parsed: "parse_cql_type (cql_name (Tuple [])) = None"
proof -
  have "parse_cql_type [] = None" by (subst parse_cql_type.simps) (simp add: trim_def)
  moreover have "trim [] = []" by (simp add: trim_def)
  ultimately show ?thesis
    by (subst parse_cql_type.simps)
      (simp add: trim_def is_whitespace_def angle_def strip_prefix_def strip_suffix_def
        split_all_top_level_commas_def)
qed

end
