(* ===== verification/Comparator.thy ===== *)
theory Comparator
  imports Cql_Types Vint
begin

text \<open>
  Comparison of serialized CQL values (\<open>types/src/comparator.rs\<close>) and the legacy composite
  format it decodes (\<open>types/src/composite.rs\<close>).  An index or slice out of bounds and a read
  past the end of a buffer panic, which is \<open>None\<close>.  The big-endian readers and writers of
  the \<open>byteorder\<close> crate are the record \<open>byte_order\<close>; \<open>big_endian\<close> states what their
  documentation promises.  A float is its bit pattern, and \<open>total_cmp\<close> compares bit
  patterns as the standard library does.
\<close>

section \<open>Orderings\<close>

datatype ordering = Less | Equal | Greater

definition cmp :: "'a::linorder \<Rightarrow> 'a \<Rightarrow> ordering" where
  "cmp a b = (if a < b then Less else if a = b then Equal else Greater)"

primrec reverse :: "ordering \<Rightarrow> ordering" where
  "reverse Less = Greater"
| "reverse Equal = Equal"
| "reverse Greater = Less"

definition then_with :: "ordering \<Rightarrow> ordering \<Rightarrow> ordering" where
  "then_with c d = (if c = Equal then d else c)"

text \<open>The loops that return at the first element that differs.\<close>

fun first_differing :: "('a \<Rightarrow> ordering option) \<Rightarrow> 'a list \<Rightarrow> ordering option" where
  "first_differing f [] = Some Equal"
| "first_differing f (x # xs) =
     (case f x of None \<Rightarrow> None | Some c \<Rightarrow> if c \<noteq> Equal then Some c else first_differing f xs)"

section \<open>The byteorder crate\<close>

record byte_order =
  be_read_u16 :: "bytes \<Rightarrow> 16 word"
  be_read_u32 :: "bytes \<Rightarrow> 32 word"
  be_read_u64 :: "bytes \<Rightarrow> 64 word"
  be_write_u16 :: "16 word \<Rightarrow> bytes"

definition big_endian :: "byte_order \<Rightarrow> bool" where
  "big_endian bo \<longleftrightarrow>
     (\<forall>bs. 2 \<le> length bs \<longrightarrow> be_read_u16 bo bs = be_fold 0 (take 2 bs)) \<and>
     (\<forall>bs. 4 \<le> length bs \<longrightarrow> be_read_u32 bo bs = be_fold 0 (take 4 bs)) \<and>
     (\<forall>bs. 8 \<le> length bs \<longrightarrow> be_read_u64 bo bs = be_fold 0 (take 8 bs)) \<and>
     (\<forall>v. be_write_u16 bo v = be_bytes 2 v)"

text \<open>A read panics when the buffer is too short.\<close>

definition read_u32 :: "byte_order \<Rightarrow> bytes \<Rightarrow> 32 word option" where
  "read_u32 bo bs = (if length bs < 4 then None else Some (be_read_u32 bo bs))"

definition read_u64 :: "byte_order \<Rightarrow> bytes \<Rightarrow> 64 word option" where
  "read_u64 bo bs = (if length bs < 8 then None else Some (be_read_u64 bo bs))"

section \<open>Composite values\<close>

record component =
  comp_data :: bytes
  comp_eoc :: u8

fun serialize_composite :: "byte_order \<Rightarrow> component list \<Rightarrow> bytes" where
  "serialize_composite bo [] = []"
| "serialize_composite bo (c # cs) =
     be_write_u16 bo (of_nat (length (comp_data c))) @ comp_data c @ [comp_eoc c] @
       serialize_composite bo cs"

datatype composite_error = TruncatedLength | TruncatedData

text \<open>The loop of \<open>deserialize_composite\<close>; the argument is the unread rest of the buffer.\<close>

function deserialize_composite :: "byte_order \<Rightarrow> bytes \<Rightarrow> composite_error + component list" where
  "deserialize_composite bo data =
     (if data = [] then Inr []
      else if length data < 2 then Inl TruncatedLength
      else
        let len = unat (be_read_u16 bo data); rest = drop 2 data
        in if length rest < len + 1 then Inl TruncatedData
           else case deserialize_composite bo (drop (len + 1) rest) of
                  Inl e \<Rightarrow> Inl e
                | Inr cs \<Rightarrow> Inr (\<lparr>comp_data = take len rest, comp_eoc = rest ! len\<rparr> # cs))"
  by pat_completeness auto
termination deserialize_composite
  by (relation "measure (length \<circ> snd)") auto

declare deserialize_composite.simps [simp del]

section \<open>Comparison by type\<close>

definition flip_sign :: "bytes \<Rightarrow> bytes" where
  "flip_sign bs = (case bs of [] \<Rightarrow> [] | b # rest \<Rightarrow> (b XOR 0x80) # rest)"

definition cmp_signed_fixed :: "nat \<Rightarrow> bytes \<Rightarrow> bytes \<Rightarrow> ordering option" where
  "cmp_signed_fixed n l r =
     (if length l < n \<or> length r < n then None
      else Some (cmp (replicate (8 - n) 0 @ flip_sign (take n l))
                     (replicate (8 - n) 0 @ flip_sign (take n r))))"

definition cmp_tinyint :: "bytes \<Rightarrow> bytes \<Rightarrow> ordering option" where
  "cmp_tinyint l r =
     (if l = [] \<or> r = [] then None else Some (cmp (sint (l ! 0)) (sint (r ! 0))))"

definition cmp_boolean :: "bytes \<Rightarrow> bytes \<Rightarrow> ordering option" where
  "cmp_boolean l r = (if l = [] \<or> r = [] then None else Some (cmp (l ! 0) (r ! 0)))"

text \<open>
  \<open>f32::total_cmp\<close> and \<open>f64::total_cmp\<close>: the sign is spread over the other bits by an
  arithmetic and a logical shift, and the results are compared as signed integers.
\<close>

definition total_cmp :: "'a::len word \<Rightarrow> 'a word \<Rightarrow> ordering" where
  "total_cmp a b =
     cmp (sint (a XOR drop_bit 1 (signed_drop_bit (LENGTH('a) - 1) a)))
         (sint (b XOR drop_bit 1 (signed_drop_bit (LENGTH('a) - 1) b)))"

definition cmp_float :: "byte_order \<Rightarrow> bytes \<Rightarrow> bytes \<Rightarrow> ordering option" where
  "cmp_float bo l r =
     (case (read_u32 bo l, read_u32 bo r) of
        (Some a, Some b) \<Rightarrow> Some (total_cmp a b)
      | _ \<Rightarrow> None)"

definition cmp_double :: "byte_order \<Rightarrow> bytes \<Rightarrow> bytes \<Rightarrow> ordering option" where
  "cmp_double bo l r =
     (case (read_u64 bo l, read_u64 bo r) of
        (Some a, Some b) \<Rightarrow> Some (total_cmp a b)
      | _ \<Rightarrow> None)"

definition uuid_version :: "bytes \<Rightarrow> u8" where
  "uuid_version bs = drop_bit 4 (bs ! 6) AND 0x0F"

definition cmp_uuid :: "bytes \<Rightarrow> bytes \<Rightarrow> ordering option" where
  "cmp_uuid l r =
     (if length l < 7 \<or> length r < 7 then None
      else if uuid_version l \<noteq> uuid_version r then Some (cmp (uuid_version l) (uuid_version r))
      else Some (cmp l r))"

definition timeuuid_timestamp :: "byte_order \<Rightarrow> bytes \<Rightarrow> u64 option" where
  "timeuuid_timestamp bo uuid =
     (if length uuid < 8 then None
      else
        let time_low = ucast (be_read_u32 bo (take 4 uuid));
            time_mid = ucast (be_read_u16 bo (take 2 (drop 4 uuid)));
            time_hi = ucast (be_read_u16 bo (take 2 (drop 6 uuid)) AND 0x0FFF)
        in Some (push_bit 48 time_hi OR push_bit 32 time_mid OR time_low))"

definition cmp_timeuuid :: "byte_order \<Rightarrow> bytes \<Rightarrow> bytes \<Rightarrow> ordering option" where
  "cmp_timeuuid bo l r =
     (case (timeuuid_timestamp bo l, timeuuid_timestamp bo r) of
        (Some a, Some b) \<Rightarrow> Some (then_with (cmp a b) (cmp (drop 8 l) (drop 8 r)))
      | _ \<Rightarrow> None)"

definition cmp_date :: "byte_order \<Rightarrow> bytes \<Rightarrow> bytes \<Rightarrow> ordering option" where
  "cmp_date bo l r =
     (case (read_u32 bo l, read_u32 bo r) of
        (Some a, Some b) \<Rightarrow> Some (cmp a b)
      | _ \<Rightarrow> None)"

definition is_negative :: "bytes \<Rightarrow> bool" where
  "is_negative bs \<longleftrightarrow> bs ! 0 AND 0x80 \<noteq> 0"

definition cmp_varint :: "bytes \<Rightarrow> bytes \<Rightarrow> ordering" where
  "cmp_varint l r =
     (if l = [] \<and> r = [] then Equal
      else if l = [] then Less
      else if r = [] then Greater
      else if is_negative l \<and> \<not> is_negative r then Less
      else if \<not> is_negative l \<and> is_negative r then Greater
      else
        let len_ord = cmp (length l) (length r)
        in if is_negative l then then_with (reverse len_ord) (cmp l r)
           else then_with len_ord (cmp l r))"

definition cmp_decimal :: "byte_order \<Rightarrow> bytes \<Rightarrow> bytes \<Rightarrow> ordering" where
  "cmp_decimal bo l r =
     (if length l < 4 \<or> length r < 4 then cmp (length l) (length r)
      else then_with (cmp (sint (be_read_u32 bo (take 4 l))) (sint (be_read_u32 bo (take 4 r))))
             (cmp_varint (drop 4 l) (drop 4 r)))"

text \<open>The three vints of a duration; \<open>None\<close> when one of them does not decode.\<close>

definition decode_duration :: "bytes \<Rightarrow> (int \<times> int \<times> int) option" where
  "decode_duration bs =
     (case decode_vint bs of Inl _ \<Rightarrow> None | Inr (m, n1) \<Rightarrow>
      case decode_vint (drop n1 bs) of Inl _ \<Rightarrow> None | Inr (d, n2) \<Rightarrow>
      case decode_vint (drop (n1 + n2) bs) of Inl _ \<Rightarrow> None | Inr (n, _) \<Rightarrow>
        Some (sint m, sint d, sint n))"

definition cmp_duration :: "bytes \<Rightarrow> bytes \<Rightarrow> ordering" where
  "cmp_duration l r =
     (case (decode_duration l, decode_duration r) of
        (Some (ml, dl, nl), Some (mr, dr, nr)) \<Rightarrow>
          then_with (then_with (cmp ml mr) (cmp dl dr)) (cmp nl nr)
      | _ \<Rightarrow> cmp l r)"

subsection \<open>Collections, tuples and composites\<close>

definition read_elem :: "byte_order \<Rightarrow> bytes \<Rightarrow> nat \<Rightarrow> bytes \<times> nat" where
  "read_elem bo data pos =
     (if length data < pos + 4 then ([], 0)
      else
        let len = sint (be_read_u32 bo (drop pos data))
        in if len < 0 then ([], 4)
           else let len = nat len; stop = min (pos + 4 + len) (length data)
                in (drop (pos + 4) (take stop data), 4 + len))"

definition read_optional_elem :: "byte_order \<Rightarrow> bytes \<Rightarrow> nat \<Rightarrow> bytes option \<times> nat" where
  "read_optional_elem bo data pos =
     (if length data < pos + 4 then (None, 0)
      else
        let len = sint (be_read_u32 bo (drop pos data))
        in if len < 0 then (None, 4)
           else let len = nat len; stop = min (pos + 4 + len) (length data)
                in (Some (drop (pos + 4) (take stop data)), 4 + len))"

text \<open>\<open>BigEndian::read_i32(&data[0..4]) as usize\<close>, which sign-extends.\<close>

definition read_count :: "byte_order \<Rightarrow> bytes \<Rightarrow> nat" where
  "read_count bo data = unat (scast (be_read_u32 bo (take 4 data)) :: u64)"

type_synonym value_comparator = "bytes \<Rightarrow> bytes \<Rightarrow> ordering option"

fun seq_loop ::
  "byte_order \<Rightarrow> value_comparator \<Rightarrow> bytes \<Rightarrow> bytes \<Rightarrow> nat \<Rightarrow> nat \<Rightarrow> nat \<Rightarrow> ordering option" where
  "seq_loop bo f l r 0 pos_l pos_r = Some Equal"
| "seq_loop bo f l r (Suc n) pos_l pos_r =
     (let (el_l, n_l) = read_elem bo l pos_l; (el_r, n_r) = read_elem bo r pos_r
      in case f el_l el_r of
           None \<Rightarrow> None
         | Some c \<Rightarrow> if c \<noteq> Equal then Some c else seq_loop bo f l r n (pos_l + n_l) (pos_r + n_r))"

definition cmp_collection_seq :: "byte_order \<Rightarrow> value_comparator \<Rightarrow> value_comparator" where
  "cmp_collection_seq bo f l r =
     (if length l < 4 \<or> length r < 4 then Some (cmp (length l) (length r))
      else
        let cnt_l = read_count bo l; cnt_r = read_count bo r
        in case seq_loop bo f l r (min cnt_l cnt_r) 4 4 of
             None \<Rightarrow> None
           | Some c \<Rightarrow> Some (then_with c (cmp cnt_l cnt_r)))"

fun map_loop ::
  "byte_order \<Rightarrow> value_comparator \<Rightarrow> value_comparator \<Rightarrow> bytes \<Rightarrow> bytes \<Rightarrow> nat \<Rightarrow> nat \<Rightarrow> nat \<Rightarrow>
   ordering option" where
  "map_loop bo fk fv l r 0 pos_l pos_r = Some Equal"
| "map_loop bo fk fv l r (Suc n) pos_l pos_r =
     (let (kl, nkl) = read_elem bo l pos_l; (kr, nkr) = read_elem bo r pos_r
      in case fk kl kr of
           None \<Rightarrow> None
         | Some c \<Rightarrow>
             if c \<noteq> Equal then Some c
             else
               let (vl, nvl) = read_elem bo l (pos_l + nkl); (vr, nvr) = read_elem bo r (pos_r + nkr)
               in case fv vl vr of
                    None \<Rightarrow> None
                  | Some c \<Rightarrow>
                      if c \<noteq> Equal then Some c
                      else map_loop bo fk fv l r n (pos_l + nkl + nvl) (pos_r + nkr + nvr))"

definition cmp_map :: "byte_order \<Rightarrow> value_comparator \<Rightarrow> value_comparator \<Rightarrow> value_comparator" where
  "cmp_map bo fk fv l r =
     (if length l < 4 \<or> length r < 4 then Some (cmp (length l) (length r))
      else
        let cnt_l = read_count bo l; cnt_r = read_count bo r
        in case map_loop bo fk fv l r (min cnt_l cnt_r) 4 4 of
             None \<Rightarrow> None
           | Some c \<Rightarrow> Some (then_with c (cmp cnt_l cnt_r)))"

fun tuple_loop ::
  "byte_order \<Rightarrow> value_comparator list \<Rightarrow> bytes \<Rightarrow> bytes \<Rightarrow> nat \<Rightarrow> nat \<Rightarrow> ordering option" where
  "tuple_loop bo [] l r pos_l pos_r = Some Equal"
| "tuple_loop bo (f # fs) l r pos_l pos_r =
     (let (el_l, n_l) = read_optional_elem bo l pos_l; (el_r, n_r) = read_optional_elem bo r pos_r
      in case (el_l, el_r) of
           (None, None) \<Rightarrow> tuple_loop bo fs l r (pos_l + n_l) (pos_r + n_r)
         | (None, Some _) \<Rightarrow> Some Less
         | (Some _, None) \<Rightarrow> Some Greater
         | (Some a, Some b) \<Rightarrow>
             (case f a b of
                None \<Rightarrow> None
              | Some c \<Rightarrow>
                  if c \<noteq> Equal then Some c
                  else tuple_loop bo fs l r (pos_l + n_l) (pos_r + n_r)))"

definition cmp_tuple :: "byte_order \<Rightarrow> value_comparator list \<Rightarrow> value_comparator" where
  "cmp_tuple bo fs l r = tuple_loop bo fs l r 0 0"

definition compare_eoc :: "u8 \<Rightarrow> u8 \<Rightarrow> ordering" where
  "compare_eoc l r = cmp (sint l) (sint r)"

definition cmp_composite :: "byte_order \<Rightarrow> value_comparator list \<Rightarrow> value_comparator" where
  "cmp_composite bo fs l r =
     (case (deserialize_composite bo l, deserialize_composite bo r) of
        (Inr ls, Inr rs) \<Rightarrow>
          (case first_differing (\<lambda>idx.
              case (if idx < length fs then fs ! idx else (\<lambda>a b. Some (cmp a b)))
                     (comp_data (ls ! idx)) (comp_data (rs ! idx)) of
                None \<Rightarrow> None
              | Some c \<Rightarrow> Some (then_with c (compare_eoc (comp_eoc (ls ! idx)) (comp_eoc (rs ! idx)))))
             [0..<min (length ls) (length rs)] of
             None \<Rightarrow> None
           | Some c \<Rightarrow> Some (then_with c (cmp (length ls) (length rs))))
      | _ \<Rightarrow> Some (cmp l r))"

definition elem_slice :: "nat \<Rightarrow> nat \<Rightarrow> bytes \<Rightarrow> bytes" where
  "elem_slice n idx bs = take n (drop (idx * n) bs)"

definition cmp_vector :: "nat option \<Rightarrow> value_comparator \<Rightarrow> nat \<Rightarrow> value_comparator" where
  "cmp_vector elem f dims l r =
     (case elem of
        None \<Rightarrow> Some (cmp l r)
      | Some element_size \<Rightarrow>
          if length l \<noteq> element_size * dims \<or> length r \<noteq> element_size * dims
          then Some (then_with (cmp (length l) (length r)) (cmp l r))
          else first_differing (\<lambda>idx. f (elem_slice element_size idx l) (elem_slice element_size idx r)) [0..<dims])"

subsection \<open>The dispatch\<close>

fun compare_bytes :: "byte_order \<Rightarrow> cql_type \<Rightarrow> value_comparator" where
  "compare_bytes bo CInt = cmp_signed_fixed 4"
| "compare_bytes bo Bigint = cmp_signed_fixed 8"
| "compare_bytes bo Timestamp = cmp_signed_fixed 8"
| "compare_bytes bo Time = cmp_signed_fixed 8"
| "compare_bytes bo Counter = cmp_signed_fixed 8"
| "compare_bytes bo Smallint = cmp_signed_fixed 2"
| "compare_bytes bo Tinyint = cmp_tinyint"
| "compare_bytes bo Ascii = (\<lambda>l r. Some (cmp l r))"
| "compare_bytes bo Varchar = (\<lambda>l r. Some (cmp l r))"
| "compare_bytes bo Blob = (\<lambda>l r. Some (cmp l r))"
| "compare_bytes bo Boolean = cmp_boolean"
| "compare_bytes bo Float = cmp_float bo"
| "compare_bytes bo Double = cmp_double bo"
| "compare_bytes bo Uuid = cmp_uuid"
| "compare_bytes bo Timeuuid = cmp_timeuuid bo"
| "compare_bytes bo Date = cmp_date bo"
| "compare_bytes bo Inet = (\<lambda>l r. Some (cmp l r))"
| "compare_bytes bo Varint = (\<lambda>l r. Some (cmp_varint l r))"
| "compare_bytes bo (Reversed inner) = (\<lambda>l r. map_option reverse (compare_bytes bo inner l r))"
| "compare_bytes bo Decimal = (\<lambda>l r. Some (cmp_decimal bo l r))"
| "compare_bytes bo Duration = (\<lambda>l r. Some (cmp_duration l r))"
| "compare_bytes bo (CList inner _) = cmp_collection_seq bo (compare_bytes bo inner)"
| "compare_bytes bo (CSet inner _) = cmp_collection_seq bo (compare_bytes bo inner)"
| "compare_bytes bo (CMap kt vt _) = cmp_map bo (compare_bytes bo kt) (compare_bytes bo vt)"
| "compare_bytes bo (Tuple types) = cmp_tuple bo (map (compare_bytes bo) types)"
| "compare_bytes bo (Composite types) = cmp_composite bo (map (compare_bytes bo) types)"
| "compare_bytes bo (Udt _ _ _ field_types _) = cmp_tuple bo (map (compare_bytes bo) field_types)"
| "compare_bytes bo (Vector inner dims) = cmp_vector (fixed_size inner) (compare_bytes bo inner) dims"
| "compare_bytes bo Empty = (\<lambda>l r. Some (cmp l r))"

section \<open>The composite format\<close>

lemma be_write_u16_read:
  assumes "big_endian bo"
  shows "length (be_write_u16 bo v) = 2" "be_read_u16 bo (be_write_u16 bo v @ rest) = v"
    "drop 2 (be_write_u16 bo v @ rest) = rest" "be_write_u16 bo v \<noteq> []"
proof -
  have w: "be_write_u16 bo v = be_bytes 2 v" using assms by (simp add: big_endian_def)
  show "length (be_write_u16 bo v) = 2" "drop 2 (be_write_u16 bo v @ rest) = rest"
    by (simp_all add: w)
  then show "be_write_u16 bo v \<noteq> []" by auto
  show "be_read_u16 bo (be_write_u16 bo v @ rest) = v"
    using assms by (simp add: big_endian_def w)
qed

lemma unat_of_nat_u16: "n < 2 ^ 16 \<Longrightarrow> unat (of_nat n :: 16 word) = n"
  by (simp add: unat_of_nat take_bit_nat_eq_self)

lemma composite_roundtrip:
  assumes "big_endian bo" "\<forall>c \<in> set cs. length (comp_data c) < 2 ^ 16"
  shows "deserialize_composite bo (serialize_composite bo cs) = Inr cs"
  using assms(2)
proof (induction cs)
  case (Cons c cs)
  then show ?case
    by (subst deserialize_composite.simps)
      (simp add: be_write_u16_read [OF assms(1)] unat_of_nat_u16 nth_append split: sum.splits)
qed (simp add: deserialize_composite.simps)

text \<open>The bound is exact: a longer component has its length truncated to 16 bits.\<close>

lemma deserialized_lengths:
  "deserialize_composite bo v = Inr cs \<Longrightarrow> c \<in> set cs \<Longrightarrow> length (comp_data c) < 2 ^ 16"
proof (induction bo v arbitrary: cs rule: deserialize_composite.induct)
  case (1 bo v)
  have "unat (be_read_u16 bo v) < 2 ^ 16"
    using unsigned_less [of "be_read_u16 bo v"] by simp
  with 1 show ?case
    by (subst (asm) (2) deserialize_composite.simps)
      (auto split: if_splits sum.splits simp: Let_def)
qed

end
