(* ===== verification/Byte_Order.thy ===== *)
theory Byte_Order
  imports Prelude "HOL-Library.Sublist"
begin

text \<open>
  The unsigned lexicographic order of byte strings: its relation to big-endian numbers,
  signed and unsigned, and how it behaves on strings that are not prefixes of one another.
\<close>

section \<open>Words and their sign bit\<close>

abbreviation sign_bit :: "'a::len word" where
  "sign_bit \<equiv> 2 ^ (LENGTH('a) - Suc 0)"

lemma xor_sign_eq_plus: "x XOR sign_bit = x + (sign_bit :: 'a::len word)"
proof -
  let ?s = "sign_bit :: 'a word"
  have "?s + ?s = 2 ^ Suc (LENGTH('a) - Suc 0)" by (simp only: power_Suc mult_2)
  also have "\<dots> = 0" by simp
  finally have carry: "?s + ?s = 0" .
  have "x AND ?s = (if bit x (LENGTH('a) - Suc 0) then ?s else 0)"
    by (rule bit_word_eqI) (auto simp: bit_and_iff bit_exp_iff)
  with carry have zero: "(x AND ?s) + (x AND ?s) = 0" by simp
  have "x OR ?s = (x XOR ?s) OR (x AND ?s)"
    by (rule bit_word_eqI) (auto simp: bit_or_iff bit_xor_iff bit_and_iff)
  also have "\<dots> = (x XOR ?s) + (x AND ?s)"
    by (rule disjunctive_add [symmetric]) (auto simp: bit_xor_iff bit_and_iff)
  finally have "x + ?s = (x AND ?s) + ((x XOR ?s) + (x AND ?s))"
    using word_plus_and_or [of x ?s] by simp
  also have "\<dots> = (x XOR ?s) + ((x AND ?s) + (x AND ?s))" by (simp only: ac_simps)
  finally show ?thesis by (simp only: zero add_0_right)
qed

lemma uint_flip_sign: "uint (x XOR sign_bit) = sint (x :: 'a::len word) + 2 ^ (LENGTH('a) - Suc 0)"
proof -
  have "sint x = take_bit LENGTH('a) (uint x + 2 ^ (LENGTH('a) - 1)) - 2 ^ (LENGTH('a) - 1)"
    using signed_take_bit_eq_take_bit_shift [of "LENGTH('a) - 1" "uint x"]
    by (simp add: sint_uint)
  moreover have "uint (sign_bit :: 'a word) = 2 ^ (LENGTH('a) - Suc 0)"
    by (rule uint_pow2) simp
  ultimately show ?thesis
    unfolding xor_sign_eq_plus uint_word_ariths by (simp add: take_bit_eq_mod)
qed

lemma flip_sign_less: "x XOR sign_bit < y XOR sign_bit \<longleftrightarrow> sint x < sint (y :: 'a::len word)"
  by (simp only: word_less_def uint_flip_sign) simp

section \<open>Big-endian values\<close>

primrec be_val :: "bytes \<Rightarrow> nat" where
  "be_val [] = 0"
| "be_val (b # bs) = unat b * 256 ^ length bs + be_val bs"

lemma be_val_bound: "be_val bs < 256 ^ length bs"
proof (induction bs)
  case (Cons b bs)
  have "unat b \<le> 255" using unsigned_less [of b, where ?'a = nat] by simp
  then have "unat b * 256 ^ length bs \<le> 255 * 256 ^ length bs" by simp
  with Cons.IH show ?case unfolding be_val.simps length_Cons power_Suc by linarith
qed simp

lemma digit_less:
  fixes a b x y n :: nat
  assumes "x < n" "y < n"
  shows "a * n + x < b * n + y \<longleftrightarrow> a < b \<or> a = b \<and> x < y"
proof -
  have lt: "a * n + x < b * n + y" if "a < b" "x < n" for a b x y
  proof -
    have "a * n + x < Suc a * n" using that by simp
    also have "\<dots> \<le> b * n" using that by (intro mult_le_mono1) simp
    finally show ?thesis by simp
  qed
  show ?thesis
    using lt [of a b x y] lt [of b a y x] assms by (cases a b rule: linorder_cases) auto
qed

lemma be_val_less: "length l = length r \<Longrightarrow> l < r \<longleftrightarrow> be_val l < be_val r"
proof (induction l r rule: list_induct2)
  case (Cons x xs y ys)
  then show ?case
    using digit_less [of "be_val xs" "256 ^ length xs" "be_val ys" "unat x" "unat y"]
      be_val_bound [of xs] be_val_bound [of ys]
    by (auto simp: word_less_nat_alt word_unat_eq_iff)
qed simp

lemma be_val_inj: "length l = length r \<Longrightarrow> be_val l = be_val r \<longleftrightarrow> l = r"
  using be_val_less [of l r] be_val_less [of r l] by (metis less_irrefl not_less_iff_gr_or_eq)

lemma be_val_be_bytes: "be_val (be_bytes n (v :: 'a::len word)) = unat (take_bit (8 * n) v)"
proof (induction n)
  case (Suc n)
  have "take_bit LENGTH('a) (unat v) = unat v" by (simp add: take_bit_nat_eq_self)
  then have byte: "unat (ucast (drop_bit (8 * n) v) :: u8) = take_bit 8 (drop_bit (8 * n) (unat v))"
    by (simp add: unsigned_ucast_eq unsigned_drop_bit_eq)
  have "take_bit (8 * Suc n) (unat v) =
      2 ^ (8 * n) * take_bit 8 (drop_bit (8 * n) (unat v)) + take_bit (8 * n) (unat v)"
    using bits_ident [of "8 * n" "take_bit (8 * Suc n) (unat v)"]
    by (simp add: drop_bit_take_bit push_bit_eq_mult ac_simps)
  moreover have "(256 :: nat) ^ n = 2 ^ (8 * n)" by (simp add: power_mult)
  ultimately show ?case
    using Suc byte by (simp add: unsigned_take_bit_eq ac_simps)
qed simp

lemma be_bytes_less:
  fixes v w :: "'a::len word"
  assumes "LENGTH('a) \<le> 8 * n"
  shows "be_bytes n v < be_bytes n w \<longleftrightarrow> v < w"
  using assms by (simp add: be_val_less be_val_be_bytes word_less_nat_alt take_bit_word_eq_self)

section \<open>Strings of which neither is a prefix of the other\<close>

abbreviation incomparable :: "'a list \<Rightarrow> 'a list \<Rightarrow> bool" where
  "incomparable x y \<equiv> \<not> prefix x y \<and> \<not> prefix y x"

lemma incomparable_append: "incomparable x y \<Longrightarrow> incomparable (x @ u) (y @ v)"
  by (auto simp: prefix_def append_eq_append_conv2)

lemma incomparable_less:
  fixes x y :: "'a::linorder list"
  shows "incomparable x y \<Longrightarrow> x @ u < y @ v \<longleftrightarrow> x < y"
proof (induction x arbitrary: y)
  case (Cons a x)
  then show ?case by (cases y) auto
qed simp

lemma uint_not: "uint (NOT a) = mask LENGTH('a) - uint (a :: 'a::len word)"
  by (simp add: unsigned_not_eq take_bit_not_eq_mask_diff take_bit_int_eq_self)

lemma not_less_word: "NOT a < NOT (b :: 'a::len word) \<longleftrightarrow> b < a"
  by (simp add: word_less_def uint_not)

lemma incomparable_map_not: "prefix (map NOT x) (map NOT y) \<longleftrightarrow> prefix x (y :: 'a::len word list)"
proof
  assume "prefix (map NOT x) (map NOT y)"
  then have "prefix (map NOT (map NOT x)) (map NOT (map NOT y))" by (rule map_mono_prefix)
  then show "prefix x y" by (simp add: comp_def)
qed (rule map_mono_prefix)

lemma incomparable_not_less:
  fixes x y :: "'a::len word list"
  shows "incomparable x y \<Longrightarrow> map NOT x < map NOT y \<longleftrightarrow> y < x"
proof (induction x arbitrary: y)
  case (Cons a x)
  then show ?case by (cases y) (auto simp: not_less_word)
qed simp

lemma equal_length_incomparable: "length x = length y \<Longrightarrow> x \<noteq> y \<Longrightarrow> incomparable x y"
  by (auto simp: prefix_def)

end
