(* ===== verification/Byte_Comparable.thy ===== *)
theory Byte_Comparable
  imports Comparator Byte_Order
begin

text \<open>
  The order-preserving encoding of CQL values (\<open>types/src/byte_comparable.rs\<close>), the
  sequences of encoded components, and the separators of index blocks.

  The locale \<open>order_code\<close> is the contract of an encoding: it maps the comparison of values
  to the lexicographic order of bytes, and no encoding is a proper prefix of another.  It
  gives the order of inverted and of concatenated encodings once, and is interpreted on
  \<open>compare_bytes\<close> and \<open>encode_byte_comparable\<close>.
\<close>

section \<open>Byte sources\<close>

record byte_source =
  bs_bytes :: bytes
  bs_offset :: nat

definition BYTE_SOURCE_END :: int where "BYTE_SOURCE_END = - 1"

definition byte_source_new :: "bytes \<Rightarrow> byte_source" where
  "byte_source_new bs = \<lparr>bs_bytes = bs, bs_offset = 0\<rparr>"

definition next_byte :: "byte_source \<Rightarrow> int \<times> byte_source" where
  "next_byte s =
     (if length (bs_bytes s) \<le> bs_offset s then (BYTE_SOURCE_END, s)
      else (uint (bs_bytes s ! bs_offset s), s\<lparr>bs_offset := bs_offset s + 1\<rparr>))"

definition byte_source_peek :: "byte_source \<Rightarrow> int" where
  "byte_source_peek s =
     (if bs_offset s < length (bs_bytes s) then uint (bs_bytes s ! bs_offset s) else BYTE_SOURCE_END)"

definition byte_source_reset :: "byte_source \<Rightarrow> byte_source" where
  "byte_source_reset s = s\<lparr>bs_offset := 0\<rparr>"

definition is_exhausted :: "byte_source \<Rightarrow> bool" where
  "is_exhausted s \<longleftrightarrow> length (bs_bytes s) \<le> bs_offset s"

definition byte_source_remaining :: "byte_source \<Rightarrow> bytes" where
  "byte_source_remaining s = drop (bs_offset s) (bs_bytes s)"

section \<open>The encoding\<close>

definition SEPARATOR :: u8 where "SEPARATOR = 0x40"
definition TERMINATOR :: u8 where "TERMINATOR = 0x38"

definition encode_signed_int :: "bytes \<Rightarrow> bytes" where
  "encode_signed_int data = (if data \<noteq> [] then data[0 := data ! 0 XOR 0x80] else data)"

definition decode_signed_int :: "bytes \<Rightarrow> bytes" where
  "decode_signed_int data = (if data \<noteq> [] then data[0 := data ! 0 XOR 0x80] else data)"

definition encode_float32 :: "byte_order \<Rightarrow> bytes \<Rightarrow> bytes" where
  "encode_float32 bo data =
     (if length data < 4 then data
      else
        let bits = be_read_u32 bo data;
            encoded = (if bits AND 0x80000000 \<noteq> 0 then NOT bits else bits XOR 0x80000000)
        in be_bytes 4 encoded)"

definition encode_float64 :: "byte_order \<Rightarrow> bytes \<Rightarrow> bytes" where
  "encode_float64 bo data =
     (if length data < 8 then data
      else
        let bits = be_read_u64 bo data;
            encoded = (if bits AND 0x8000000000000000 \<noteq> 0 then NOT bits else bits XOR 0x8000000000000000)
        in be_bytes 8 encoded)"

fun escape :: "bytes \<Rightarrow> bytes" where
  "escape [] = []"
| "escape (b # bs) = (if b = 0 then b # 0xFF # escape bs else b # escape bs)"

definition encode_byte_string :: "bytes \<Rightarrow> bytes" where
  "encode_byte_string data = escape data @ [0x00, 0x00]"

definition encode_uuid :: "bytes \<Rightarrow> bytes" where
  "encode_uuid data = (if length data \<noteq> 16 then data else uuid_version data # data)"

definition encode_varint :: "bytes \<Rightarrow> bytes" where
  "encode_varint data =
     (if data = [] then [0x80]
      else
        let negative = (data ! 0 AND 0x80 \<noteq> 0); len = of_nat (length data)
        in (if negative then 0x80 - len else 0x80 + len) # data)"

definition encode_vector :: "nat option \<Rightarrow> (bytes \<Rightarrow> bytes) \<Rightarrow> nat \<Rightarrow> bytes \<Rightarrow> bytes" where
  "encode_vector elem enc dims data =
     (case elem of
        None \<Rightarrow> data
      | Some element_size \<Rightarrow>
          if length data \<noteq> element_size * dims then data
          else concat (map (\<lambda>idx. enc (elem_slice element_size idx data)) [0..<dims]))"

fun encode_byte_comparable :: "byte_order \<Rightarrow> cql_type \<Rightarrow> bytes \<Rightarrow> bytes" where
  "encode_byte_comparable bo Tinyint = encode_signed_int"
| "encode_byte_comparable bo Smallint = encode_signed_int"
| "encode_byte_comparable bo CInt = encode_signed_int"
| "encode_byte_comparable bo Date = encode_signed_int"
| "encode_byte_comparable bo Bigint = encode_signed_int"
| "encode_byte_comparable bo Timestamp = encode_signed_int"
| "encode_byte_comparable bo Time = encode_signed_int"
| "encode_byte_comparable bo Counter = encode_signed_int"
| "encode_byte_comparable bo Float = encode_float32 bo"
| "encode_byte_comparable bo Double = encode_float64 bo"
| "encode_byte_comparable bo Ascii = encode_byte_string"
| "encode_byte_comparable bo Varchar = encode_byte_string"
| "encode_byte_comparable bo Blob = encode_byte_string"
| "encode_byte_comparable bo Uuid = encode_uuid"
| "encode_byte_comparable bo Timeuuid = encode_uuid"
| "encode_byte_comparable bo Boolean = (\<lambda>data. data)"
| "encode_byte_comparable bo Varint = encode_varint"
| "encode_byte_comparable bo (Reversed inner) = (\<lambda>data. map NOT (encode_byte_comparable bo inner data))"
| "encode_byte_comparable bo (Vector inner dims) =
     encode_vector (fixed_size inner) (encode_byte_comparable bo inner) dims"
| "encode_byte_comparable bo _ = (\<lambda>data. data)"

text \<open>The loop over the components, after the first one, and the terminator.\<close>

fun encode_components :: "bytes list \<Rightarrow> bytes" where
  "encode_components [] = [TERMINATOR]"
| "encode_components [c] = c @ [TERMINATOR]"
| "encode_components (c # cs) = c @ [SEPARATOR] @ encode_components cs"

definition encode_typed_components :: "byte_order \<Rightarrow> (cql_type \<times> bytes) list \<Rightarrow> bytes" where
  "encode_typed_components bo cs =
     encode_components (map (\<lambda>(ty, data). encode_byte_comparable bo ty data) cs)"

section \<open>Separators\<close>

definition common_length :: "bytes \<Rightarrow> bytes \<Rightarrow> nat" where
  "common_length previous nxt = length (takeWhile (\<lambda>(a, b). a = b) (zip previous nxt))"

text \<open>
  \<open>next[..=common]\<close> is in bounds: \<open>previous\<close> is smaller than \<open>next\<close> and not a prefix of
  it, so they differ inside both.
\<close>

definition separator_between :: "bytes \<Rightarrow> bytes \<Rightarrow> bytes" where
  "separator_between previous nxt =
     (if previous \<ge> nxt then nxt
      else
        let common = common_length previous nxt
        in if common = length previous then previous
           else
             let prev_byte = previous ! common; next_byte = nxt ! common
             in if prev_byte < 0xFF \<and> prev_byte + 1 < next_byte then take common previous @ [prev_byte + 1]
                else let separator = take (common + 1) nxt
                     in if separator \<le> previous then nxt else separator)"

fun rposition :: "('a \<Rightarrow> bool) \<Rightarrow> 'a list \<Rightarrow> nat option" where
  "rposition P [] = None"
| "rposition P (x # xs) =
     (case rposition P xs of Some i \<Rightarrow> Some (Suc i) | None \<Rightarrow> if P x then Some 0 else None)"

definition successor :: "bytes \<Rightarrow> bytes option" where
  "successor key =
     (case rposition (\<lambda>byte. byte \<noteq> 0xFF) key of
        None \<Rightarrow> None
      | Some idx \<Rightarrow> Some ((take (idx + 1) key)[idx := take (idx + 1) key ! idx + 1]))"

section \<open>Orderings\<close>

lemma cmp_simps [simp]:
  "cmp a b = Equal \<longleftrightarrow> a = b" "cmp a b = Less \<longleftrightarrow> a < b" "cmp a b = Greater \<longleftrightarrow> b < a" "cmp a a = Equal"
  by (auto simp: cmp_def)

lemma reverse_cmp [simp]: "reverse (cmp a b) = cmp b a"
  by (auto simp: cmp_def)

lemma then_with_simps [simp]:
  "then_with Equal d = d" "c \<noteq> Equal \<Longrightarrow> then_with c d = c"
  by (simp_all add: then_with_def)

lemma cmp_cong:
  "\<lbrakk>a < b \<longleftrightarrow> a' < b'; b < a \<longleftrightarrow> b' < a'\<rbrakk> \<Longrightarrow> cmp a b = cmp a' b'"
  by (cases a b rule: linorder_cases; cases a' b' rule: linorder_cases) (auto simp: cmp_def)

lemma cmp_Cons: "cmp (a # x) (b # y) = then_with (cmp a b) (cmp x y)"
  by (auto simp: cmp_def then_with_def)

lemma cmp_same_prefix [simp]: "cmp (u @ x) (u @ y) = cmp x (y :: 'a::linorder list)"
  by (induction u) (simp_all add: cmp_Cons)

lemma cmp_incomparable:
  fixes x y :: "'a::linorder list"
  assumes "incomparable x y"
  shows "cmp (x @ u) (y @ v) = cmp x y"
  using incomparable_less [of x y u v] incomparable_less [of y x v u] assms by (intro cmp_cong) auto

section \<open>The contract of an encoding\<close>

locale order_code =
  fixes c :: "'a \<Rightarrow> 'a \<Rightarrow> ordering option"
    and enc :: "'a \<Rightarrow> bytes"
    and valid :: "'a \<Rightarrow> bool"
  assumes preserves: "valid x \<Longrightarrow> valid y \<Longrightarrow> c x y = Some (cmp (enc x) (enc y))"
    and prefix_free: "valid x \<Longrightarrow> valid y \<Longrightarrow> enc x \<noteq> enc y \<Longrightarrow> incomparable (enc x) (enc y)"
begin

lemma inverted_preserves:
  assumes "valid x" "valid y"
  shows "map_option reverse (c x y) = Some (cmp (map NOT (enc x)) (map NOT (enc y)))"
proof (cases "enc x = enc y")
  case True
  then show ?thesis using preserves [OF assms] by (simp add: cmp_def)
next
  case False
  then have "incomparable (enc x) (enc y)" by (rule prefix_free [OF assms])
  then have "cmp (enc y) (enc x) = cmp (map NOT (enc x)) (map NOT (enc y))"
    using incomparable_not_less by (intro cmp_cong) blast+
  then show ?thesis using preserves [OF assms] by simp
qed

lemma inverted_prefix_free:
  assumes "valid x" "valid y" "map NOT (enc x) \<noteq> map NOT (enc y)"
  shows "incomparable (map NOT (enc x)) (map NOT (enc y))"
proof -
  have "enc x \<noteq> enc y" using assms(3) by auto
  then show ?thesis using prefix_free [OF assms(1,2)] by (simp add: incomparable_map_not)
qed

lemma enc_append:
  assumes "valid x" "valid y"
  shows "cmp (enc x @ u) (enc y @ v) = then_with (cmp (enc x) (enc y)) (cmp u v)"
  using prefix_free [OF assms] by (cases "enc x = enc y") (simp_all add: cmp_incomparable)

lemma concat_preserves:
  assumes "\<And>i. i \<in> set is \<Longrightarrow> valid (f i) \<and> valid (g i)"
  shows "first_differing (\<lambda>i. c (f i) (g i)) is
    = Some (cmp (concat (map (\<lambda>i. enc (f i)) is)) (concat (map (\<lambda>i. enc (g i)) is)))"
  using assms
proof (induction "is")
  case (Cons i "is")
  then show ?case
    using preserves [of "f i" "g i"] enc_append [of "f i" "g i"] by simp
qed simp

lemma concat_prefix_free:
  assumes "\<And>i. i \<in> set is \<Longrightarrow> valid (f i) \<and> valid (g i)"
    and "concat (map (\<lambda>i. enc (f i)) is) \<noteq> concat (map (\<lambda>i. enc (g i)) is)"
  shows "incomparable (concat (map (\<lambda>i. enc (f i)) is)) (concat (map (\<lambda>i. enc (g i)) is))"
  using assms
proof (induction "is")
  case (Cons i "is")
  show ?case
  proof (cases "enc (f i) = enc (g i)")
    case True
    then show ?thesis using Cons by simp
  next
    case False
    then show ?thesis
      using incomparable_append [OF prefix_free [of "f i" "g i"]] Cons.prems(1) by simp
  qed
qed simp

end

section \<open>The scalar encodings\<close>

lemma encode_signed_int_eq: "encode_signed_int = flip_sign"
  by (rule ext) (auto simp: encode_signed_int_def flip_sign_def split: list.splits)

lemma length_flip_sign [simp]: "length (flip_sign bs) = length bs"
  by (cases bs) (simp_all add: flip_sign_def)

lemma flip_sign_flip_sign [simp]: "flip_sign (flip_sign bs) = bs"
  by (cases bs) (simp_all add: flip_sign_def xor.assoc)

lemma decode_encode_signed_int: "decode_signed_int (encode_signed_int bs) = bs"
  using flip_sign_flip_sign [of bs]
  by (simp add: encode_signed_int_eq fun_cong [OF encode_signed_int_eq, unfolded encode_signed_int_def, folded decode_signed_int_def])

lemma code_of_fixed_length:
  assumes "\<And>x y. valid x \<Longrightarrow> valid y \<Longrightarrow> c x y = Some (cmp (enc x) (enc y))"
    and "\<And>x. valid x \<Longrightarrow> length (enc x) = n"
  shows "order_code c enc valid"
proof
  fix x y assume "valid x" "valid y" "enc x \<noteq> enc y"
  then show "incomparable (enc x) (enc y)"
    by (intro equal_length_incomparable) (simp_all add: assms(2))
qed (fact assms(1))

lemma code_signed_fixed:
  "order_code (cmp_signed_fixed n) encode_signed_int (\<lambda>bs. length bs = n)"
  by (rule code_of_fixed_length [where n = n])
    (simp_all add: cmp_signed_fixed_def encode_signed_int_eq)

lemma cmp_flip_sign: "cmp (a XOR sign_bit) (b XOR sign_bit) = cmp (sint a) (sint (b :: 'a::len word))"
  by (rule cmp_cong) (simp_all only: flip_sign_less)

lemma code_tinyint: "order_code cmp_tinyint encode_signed_int (\<lambda>bs. length bs = 1)"
proof (rule code_of_fixed_length [where n = 1])
  fix l r :: bytes assume "length l = 1" "length r = 1"
  then obtain a b where "l = [a]" "r = [b]"
    by (metis One_nat_def length_0_conv length_Suc_conv)
  then show "cmp_tinyint l r = Some (cmp (encode_signed_int l) (encode_signed_int r))"
    using cmp_flip_sign [of a b]
    by (simp add: cmp_tinyint_def encode_signed_int_eq flip_sign_def cmp_Cons then_with_def)
qed (simp add: encode_signed_int_eq)

lemma code_boolean: "order_code cmp_boolean (\<lambda>data. data) (\<lambda>bs. length bs = 1)"
proof (rule code_of_fixed_length [where n = 1])
  fix l r :: bytes assume "length l = 1" "length r = 1"
  then obtain a b where "l = [a]" "r = [b]"
    by (metis One_nat_def length_0_conv length_Suc_conv)
  then show "cmp_boolean l r = Some (cmp l r)"
    by (simp add: cmp_boolean_def cmp_Cons then_with_def)
qed simp

lemma code_uuid: "order_code cmp_uuid encode_uuid (\<lambda>bs. length bs = 16)"
  by (rule code_of_fixed_length [where n = 17])
    (simp_all add: cmp_uuid_def encode_uuid_def cmp_Cons then_with_def)

subsection \<open>Floating point numbers\<close>

definition float_code :: "'a::len word \<Rightarrow> 'a word" where
  "float_code a = (if bit a (LENGTH('a) - 1) then NOT a else a XOR sign_bit)"

lemma total_cmp_code: "total_cmp a b = cmp (float_code a) (float_code (b :: 'a::len word))"
proof -
  have "float_code x = (x XOR drop_bit 1 (signed_drop_bit (LENGTH('a) - 1) x)) XOR sign_bit" for x :: "'a word"
    by (rule bit_word_eqI)
      (auto simp: float_code_def bit_xor_iff bit_not_iff bit_drop_bit_eq bit_signed_drop_bit_iff bit_exp_iff
        split: if_splits dest: bit_imp_le_length)
  then show ?thesis by (simp add: total_cmp_def cmp_flip_sign)
qed

lemma and_exp_ne_0: "a AND 2 ^ n \<noteq> 0 \<longleftrightarrow> bit (a :: 'a::len word) n"
proof
  assume "bit a n"
  then have "bit (a AND 2 ^ n) n"
    using bit_imp_le_length [of a n] by (simp add: bit_and_iff bit_exp_iff)
  then show "a AND 2 ^ n \<noteq> 0" by (metis bit_0_eq bot_apply bot_bool_def)
next
  assume "a AND 2 ^ n \<noteq> 0"
  then obtain m where "bit (a AND 2 ^ n) m" by (metis bit_eqI bit_0_eq bot_apply bot_bool_def)
  then show "bit a n" by (auto simp: bit_and_iff bit_exp_iff)
qed

lemma encode_float32_eq:
  assumes "big_endian bo" "length bs = 4"
  shows "encode_float32 bo bs = be_bytes 4 (float_code (be_read_u32 bo bs))"
  using assms and_exp_ne_0 [of "be_read_u32 bo bs" 31]
  by (simp add: encode_float32_def float_code_def)

lemma encode_float64_eq:
  assumes "big_endian bo" "length bs = 8"
  shows "encode_float64 bo bs = be_bytes 8 (float_code (be_read_u64 bo bs))"
  using assms and_exp_ne_0 [of "be_read_u64 bo bs" 63]
  by (simp add: encode_float64_def float_code_def)

lemma cmp_be_bytes:
  fixes v w :: "'a::len word"
  assumes "LENGTH('a) \<le> 8 * n"
  shows "cmp (be_bytes n v) (be_bytes n w) = cmp v w"
  using assms by (intro cmp_cong) (simp_all add: be_bytes_less)

lemma code_float: "order_code (cmp_float bo) (encode_float32 bo) (\<lambda>bs. big_endian bo \<and> length bs = 4)"
  by (rule code_of_fixed_length [where n = 4])
    (auto simp: cmp_float_def read_u32_def encode_float32_eq total_cmp_code cmp_be_bytes)

lemma code_double: "order_code (cmp_double bo) (encode_float64 bo) (\<lambda>bs. big_endian bo \<and> length bs = 8)"
  by (rule code_of_fixed_length [where n = 8])
    (auto simp: cmp_double_def read_u64_def encode_float64_eq total_cmp_code cmp_be_bytes)

subsection \<open>Byte strings and variable-length integers\<close>

lemma encode_byte_string_simps [simp]:
  "encode_byte_string [] = [0, 0]"
  "encode_byte_string (b # bs) = (if b = 0 then [b, 0xFF] else [b]) @ encode_byte_string bs"
  by (simp_all add: encode_byte_string_def)

lemma cmp_byte_string: "cmp (encode_byte_string l) (encode_byte_string r) = cmp l r"
proof (induction l arbitrary: r)
  case Nil
  show ?case
    by (cases r) (auto simp: cmp_Cons cmp_def word_gt_0)
next
  case (Cons a l)
  show ?case
  proof (cases r)
    case Nil
    then show ?thesis by (auto simp: cmp_def word_gt_0)
  next
    case [simp]: (Cons b r')
    show ?thesis using Cons.IH [of r'] by (cases "a = b") (auto simp: cmp_Cons)
  qed
qed

lemma byte_string_incomparable: "l \<noteq> r \<Longrightarrow> incomparable (encode_byte_string l) (encode_byte_string r)"
proof (induction l arbitrary: r)
  case Nil
  then show ?case by (cases r) auto
next
  case (Cons a l)
  then show ?case by (cases r) auto
qed

lemma code_byte_string: "order_code (\<lambda>l r. Some (cmp l r)) encode_byte_string (\<lambda>_. True)"
proof
  fix l r :: bytes assume "encode_byte_string l \<noteq> encode_byte_string r"
  then have "l \<noteq> r" by auto
  then show "incomparable (encode_byte_string l) (encode_byte_string r)"
    by (rule byte_string_incomparable)
qed (simp add: cmp_byte_string)

text \<open>The prefix of an encoded varint, for lengths below 128.\<close>

definition varint_prefix :: "bytes \<Rightarrow> int" where
  "varint_prefix bs = (if is_negative bs then 128 - int (length bs) else 128 + int (length bs))"

lemma encode_varint_eq:
  assumes "bs \<noteq> []" "length bs < 128"
  obtains p where "encode_varint bs = p # bs" "uint p = varint_prefix bs"
proof
  let ?p = "if is_negative bs then 0x80 - of_nat (length bs) else 0x80 + of_nat (length bs) :: u8"
  show "encode_varint bs = ?p # bs"
    using assms by (simp add: encode_varint_def is_negative_def)
  show "uint ?p = varint_prefix bs"
    using assms
    by (cases "is_negative bs")
      (simp_all add: varint_prefix_def uint_word_ariths unsigned_of_nat take_bit_nat_eq_self
        take_bit_eq_mod zmod_int mod_pos_pos_trivial)
qed

lemma cmp_varint_prefix:
  assumes "l \<noteq> []" "r \<noteq> []"
  shows "cmp_varint l r = then_with (cmp (varint_prefix l) (varint_prefix r)) (cmp l r)"
  using assms
  by (auto simp: cmp_varint_def varint_prefix_def then_with_def cmp_def Let_def)

lemma code_varint:
  "order_code (\<lambda>l r. Some (cmp_varint l r)) encode_varint (\<lambda>bs. bs \<noteq> [] \<and> length bs < 128)"
proof
  fix l r :: bytes
  assume "l \<noteq> [] \<and> length l < 128" "r \<noteq> [] \<and> length r < 128"
  then obtain p q where pq: "encode_varint l = p # l" "uint p = varint_prefix l"
    "encode_varint r = q # r" "uint q = varint_prefix r" and ne: "l \<noteq> []" "r \<noteq> []"
    by (metis encode_varint_eq)
  have "cmp (varint_prefix l) (varint_prefix r) = cmp p q"
    by (rule cmp_cong) (simp_all add: word_less_def pq)
  then show "Some (cmp_varint l r) = Some (cmp (encode_varint l) (encode_varint r))"
    by (simp add: cmp_varint_prefix [OF ne] pq cmp_Cons)
  assume ne: "encode_varint l \<noteq> encode_varint r"
  have "length l = length r" if "p = q"
  proof -
    have "varint_prefix l = varint_prefix r" using that pq by simp
    then show ?thesis using \<open>l \<noteq> []\<close> \<open>r \<noteq> []\<close> by (auto simp: varint_prefix_def split: if_splits)
  qed
  then show "incomparable (encode_varint l) (encode_varint r)"
    using ne equal_length_incomparable [of l r] by (auto simp: pq)
qed

section \<open>The encoding preserves the order\<close>

text \<open>
  The serialized values of a type for which the encoding is claimed to preserve the order:
  values of the exact size for fixed-size types, non-empty varints of fewer than 128 bytes,
  and, recursively, reversed types and vectors of such values.
\<close>

fun comparable :: "cql_type \<Rightarrow> bytes \<Rightarrow> bool" where
  "comparable Tinyint bs = (length bs = 1)"
| "comparable Smallint bs = (length bs = 2)"
| "comparable CInt bs = (length bs = 4)"
| "comparable Bigint bs = (length bs = 8)"
| "comparable Timestamp bs = (length bs = 8)"
| "comparable Time bs = (length bs = 8)"
| "comparable Counter bs = (length bs = 8)"
| "comparable Float bs = (length bs = 4)"
| "comparable Double bs = (length bs = 8)"
| "comparable Ascii bs = True"
| "comparable Varchar bs = True"
| "comparable Blob bs = True"
| "comparable Uuid bs = (length bs = 16)"
| "comparable Boolean bs = (length bs = 1)"
| "comparable Varint bs = (bs \<noteq> [] \<and> length bs < 128)"
| "comparable Empty bs = (bs = [])"
| "comparable (Reversed inner) bs = comparable inner bs"
| "comparable (Vector inner dims) bs =
     (case fixed_size inner of
        None \<Rightarrow> False
      | Some n \<Rightarrow> length bs = n * dims \<and> (\<forall>idx \<in> set [0..<dims]. comparable inner (elem_slice n idx bs)))"
| "comparable _ bs = False"

definition comparable_value :: "byte_order \<Rightarrow> cql_type \<Rightarrow> bytes \<Rightarrow> bool" where
  "comparable_value bo ty bs \<longleftrightarrow> big_endian bo \<and> comparable ty bs"

lemma order_code_weaken:
  "order_code c enc valid \<Longrightarrow> (\<And>x. valid' x \<Longrightarrow> valid x) \<Longrightarrow> order_code c enc valid'"
  by (auto simp: order_code_def)

lemma code_reversed:
  assumes "order_code c enc valid"
  shows "order_code (\<lambda>l r. map_option reverse (c l r)) (\<lambda>d. map NOT (enc d)) valid"
  by unfold_locales
    (rule order_code.inverted_preserves [OF assms] order_code.inverted_prefix_free [OF assms]; assumption)+

lemma code_vector:
  assumes "order_code c enc valid"
  shows "order_code (cmp_vector (Some n) c dims) (encode_vector (Some n) enc dims)
    (\<lambda>bs. length bs = n * dims \<and> (\<forall>idx \<in> set [0..<dims]. valid (elem_slice n idx bs)))"
proof
  fix l r :: bytes
  assume l: "length l = n * dims \<and> (\<forall>idx \<in> set [0..<dims]. valid (elem_slice n idx l))"
    and r: "length r = n * dims \<and> (\<forall>idx \<in> set [0..<dims]. valid (elem_slice n idx r))"
  then have ok: "\<And>i. i \<in> set [0..<dims] \<Longrightarrow> valid (elem_slice n i l) \<and> valid (elem_slice n i r)" by blast
  from order_code.concat_preserves [OF assms, of "[0..<dims]" "\<lambda>i. elem_slice n i l" "\<lambda>i. elem_slice n i r", OF ok] l r
  show "cmp_vector (Some n) c dims l r = Some (cmp (encode_vector (Some n) enc dims l) (encode_vector (Some n) enc dims r))"
    by (simp add: cmp_vector_def encode_vector_def)
  assume "encode_vector (Some n) enc dims l \<noteq> encode_vector (Some n) enc dims r"
  with order_code.concat_prefix_free [OF assms, of "[0..<dims]" "\<lambda>i. elem_slice n i l" "\<lambda>i. elem_slice n i r", OF ok] l r
  show "incomparable (encode_vector (Some n) enc dims l) (encode_vector (Some n) enc dims r)"
    by (simp add: encode_vector_def)
qed

lemma code_none: "(\<And>x. \<not> valid x) \<Longrightarrow> order_code c enc valid"
  by (simp add: order_code_def)

lemmas scalar_codes =
  code_signed_fixed [THEN order_code_weaken] code_tinyint [THEN order_code_weaken]
  code_boolean [THEN order_code_weaken] code_uuid [THEN order_code_weaken]
  code_float [THEN order_code_weaken] code_double [THEN order_code_weaken]
  code_byte_string [THEN order_code_weaken] code_varint [THEN order_code_weaken]

lemma code_byte_comparable:
  "order_code (compare_bytes bo ty) (encode_byte_comparable bo ty) (comparable_value bo ty)"
proof (induction ty)
  case (Reversed inner)
  from order_code_weaken [OF code_reversed [OF this]] show ?case
    by (simp add: comparable_value_def)
next
  case (Vector inner dims)
  show ?case
  proof (cases "fixed_size inner")
    case (Some n)
    then show ?thesis
      by (simp only: compare_bytes.simps encode_byte_comparable.simps)
        (rule order_code_weaken [OF code_vector [OF Vector, of n dims]], auto simp: comparable_value_def)
  qed (unfold_locales, simp_all add: comparable_value_def)
next
  case Empty
  show ?case by unfold_locales (simp_all add: comparable_value_def)
qed (simp_all, ((rule scalar_codes; simp add: comparable_value_def)
      | (rule code_none; simp add: comparable_value_def))+)

interpretation codec: order_code "compare_bytes bo ty" "encode_byte_comparable bo ty" "comparable_value bo ty"
  for bo ty
  by (rule code_byte_comparable)

text \<open>
  C14. The byte-comparable encoding preserves the order of the types tinyint, smallint, int,
  bigint, counter, timestamp, time, float, double, ascii, varchar, blob, uuid, boolean, varint
  (non-empty and shorter than 128 bytes), empty, and of reversed types and fixed-size vectors
  over them: for two values of one such type, each of its type's size, the unsigned
  lexicographic order of their encodings is the order that the type's comparator gives their
  serializations, and two values that compare unequal have encodings of which neither is a
  prefix of the other.  Not covered are date, timeuuid, decimal, duration, inet, collections,
  tuples, user-defined types and composites.
\<close>

theorem byte_comparable_order:
  assumes "big_endian bo" "comparable ty l" "comparable ty r"
  shows "compare_bytes bo ty l r = Some (cmp (encode_byte_comparable bo ty l) (encode_byte_comparable bo ty r)) \<and>
    (compare_bytes bo ty l r \<noteq> Some Equal \<longrightarrow>
       incomparable (encode_byte_comparable bo ty l) (encode_byte_comparable bo ty r))"
  using codec.preserves [of bo ty l r] codec.prefix_free [of bo ty l r] assms
  by (simp add: comparable_value_def)

definition be_order :: byte_order where
  "be_order = \<lparr>be_read_u16 = \<lambda>bs. be_fold 0 (take 2 bs), be_read_u32 = \<lambda>bs. be_fold 0 (take 4 bs),
     be_read_u64 = \<lambda>bs. be_fold 0 (take 8 bs), be_write_u16 = be_bytes 2\<rparr>"

lemma big_endian_be_order [simp]: "big_endian be_order"
  by (simp add: big_endian_def be_order_def)

theorem byte_comparable_order_witness:
  "compare_bytes be_order (Vector Float 2) [0xBF, 0x80, 0, 0, 0x3F, 0x80, 0, 0] [0x3F, 0x80, 0, 0, 0xBF, 0x80, 0, 0]
     = Some Less"
proof -
  have "encode_byte_comparable be_order (Vector Float 2) [0xBF, 0x80, 0, 0, 0x3F, 0x80, 0, 0]
      = [0x40, 0x7F, 0xFF, 0xFF, 0xBF, 0x80, 0, 0]"
    "encode_byte_comparable be_order (Vector Float 2) [0x3F, 0x80, 0, 0, 0xBF, 0x80, 0, 0]
      = [0xBF, 0x80, 0, 0, 0x40, 0x7F, 0xFF, 0xFF]"
    "comparable (Vector Float 2) [0xBF, 0x80, 0, 0, 0x3F, 0x80, 0, 0]"
    "comparable (Vector Float 2) [0x3F, 0x80, 0, 0, 0xBF, 0x80, 0, 0]"
    by code_simp+
  with byte_comparable_order [OF big_endian_be_order this(3,4)] show ?thesis by (simp only: cmp_simps) simp
qed

text \<open>
  Two types for which the code claims the same and does not deliver it: a date is compared
  as an unsigned number and encoded as a signed one, and a time-based UUID is compared by
  its timestamp and encoded with its raw bytes, whose first four are the low part of the
  timestamp.
\<close>

lemma date_order_lost:
  "compare_bytes be_order Date [0x80, 0, 0, 0] [0, 0, 0, 1] = Some Greater"
  "encode_byte_comparable be_order Date [0x80, 0, 0, 0] < encode_byte_comparable be_order Date [0, 0, 0, 1]"
  by code_simp+

lemma timeuuid_order_lost:
  "compare_bytes be_order Timeuuid [0, 0, 0, 1, 0, 1, 0x10, 0, 0, 0, 0, 0, 0, 0, 0, 0] [0, 0, 0, 2, 0, 0, 0x10, 0, 0, 0, 0, 0, 0, 0, 0, 0]
     = Some Greater"
  "encode_byte_comparable be_order Timeuuid [0, 0, 0, 1, 0, 1, 0x10, 0, 0, 0, 0, 0, 0, 0, 0, 0]
     < encode_byte_comparable be_order Timeuuid [0, 0, 0, 2, 0, 0, 0x10, 0, 0, 0, 0, 0, 0, 0, 0, 0]"
  by code_simp+

section \<open>Keys of several components\<close>

text \<open>The comparison of clustering keys, component by component; a prefix sorts first.\<close>

fun compare_keys :: "byte_order \<Rightarrow> cql_type list \<Rightarrow> bytes list \<Rightarrow> bytes list \<Rightarrow> ordering option" where
  "compare_keys bo (t # ts) (l # ls) (r # rs) =
     (case compare_bytes bo t l r of
        None \<Rightarrow> None
      | Some c \<Rightarrow> if c \<noteq> Equal then Some c else compare_keys bo ts ls rs)"
| "compare_keys bo ts ls rs = Some (cmp (length ls) (length rs))"

fun key_ok :: "cql_type list \<Rightarrow> bytes list \<Rightarrow> bool" where
  "key_ok ts [] = True"
| "key_ok (t # ts) (d # ds) = (comparable t d \<and> key_ok ts ds)"
| "key_ok [] (d # ds) = False"

lemma key_ok_Nil [simp]: "key_ok [] ds \<longleftrightarrow> ds = []"
  by (cases ds) simp_all

lemma encode_components_Cons:
  "encode_components (c # cs) = c @ (if cs = [] then [TERMINATOR] else SEPARATOR # encode_components cs)"
  by (cases cs) simp_all

lemma compare_keys_Nil:
  "compare_keys bo ts [] rs = Some (cmp 0 (length rs))" "compare_keys bo ts ls [] = Some (cmp (length ls) 0)"
  by (cases ts; cases ls; simp)+

lemma separators_order: "TERMINATOR < SEPARATOR" "\<not> SEPARATOR < TERMINATOR" "SEPARATOR \<noteq> TERMINATOR"
  by (simp_all add: TERMINATOR_def SEPARATOR_def)

lemma typed_components_Cons:
  assumes "key_ok (t # ts) (d # ds)"
  shows "encode_typed_components bo (zip (t # ts) (d # ds)) = encode_byte_comparable bo t d @
    (if ds = [] then [TERMINATOR] else SEPARATOR # encode_typed_components bo (zip ts ds))"
proof -
  have "zip ts ds = [] \<longleftrightarrow> ds = []" using assms by (cases ds; cases ts) auto
  then show ?thesis by (simp add: encode_typed_components_def encode_components_Cons)
qed

text \<open>
  C15. Non-empty keys made of typed components of the types that the order of the encodings is
  shown for (no date, timeuuid, decimal, duration, inet, collection, tuple, user-defined type
  or composite) keep their order when they are encoded with separators and a terminator: the
  bytes compare as the keys do component by component, and a
  key that is a prefix of another sorts before it.
\<close>

theorem typed_components_order:
  assumes "big_endian bo" "key_ok ts ls" "key_ok ts rs" "ls \<noteq> []" "rs \<noteq> []"
  shows "compare_keys bo ts ls rs =
    Some (cmp (encode_typed_components bo (zip ts ls)) (encode_typed_components bo (zip ts rs)))"
  using assms
proof (induction bo ts ls rs rule: compare_keys.induct)
  case (1 bo t ts l ls r rs)
  have codec_ok: "comparable_value bo t l" "comparable_value bo t r"
    using 1 by (simp_all add: comparable_value_def)
  let ?tail = "\<lambda>ds. if ds = [] then [TERMINATOR] else SEPARATOR # encode_typed_components bo (zip ts ds)"
  have tails: "compare_keys bo ts ls rs = Some (cmp (?tail ls) (?tail rs))"
    if "compare_bytes bo t l r = Some Equal"
    using 1 that separators_order
    by (cases "ls = []"; cases "rs = []") (simp_all add: compare_keys_Nil cmp_Cons, simp_all add: cmp_def)
  have "cmp (encode_typed_components bo (zip (t # ts) (l # ls))) (encode_typed_components bo (zip (t # ts) (r # rs)))
      = then_with (cmp (encode_byte_comparable bo t l) (encode_byte_comparable bo t r)) (cmp (?tail ls) (?tail rs))"
    by (simp only: typed_components_Cons [OF "1.prems"(2)] typed_components_Cons [OF "1.prems"(3)]
        codec.enc_append [OF codec_ok])
  then show ?case
    using tails codec.preserves [OF codec_ok]
    by (cases "encode_byte_comparable bo t l = encode_byte_comparable bo t r") simp_all
qed auto

theorem typed_components_order_witness:
  "compare_keys be_order [Varchar, Reversed CInt] [[97], [0, 0, 0, 1]] [[97], [0xFF, 0, 0, 0]] = Some Less"
proof -
  have "key_ok [Varchar, Reversed CInt] [[97], [0, 0, 0, 1]]" "key_ok [Varchar, Reversed CInt] [[97], [0xFF, 0, 0, 0]]"
    by simp_all
  from typed_components_order [OF big_endian_be_order this] show ?thesis
    by (simp add: encode_typed_components_def encode_signed_int_def SEPARATOR_def TERMINATOR_def cmp_def)
qed

section \<open>Block separators\<close>

lemma lex_split:
  fixes l r :: "'a::linorder list"
  assumes "l < r" "\<not> prefix l r"
  obtains u a v b w where "l = u @ a # v" "r = u @ b # w" "a < b"
proof -
  have "\<exists>u a v b w. l = u @ a # v \<and> r = u @ b # w \<and> a < b"
    using assms
  proof (induction l arbitrary: r)
    case (Cons x l)
    then obtain y r' where r: "r = y # r'" by (cases r) auto
    show ?case
    proof (cases "x = y")
      case True
      with Cons r obtain u a v b w where "l = u @ a # v" "r' = u @ b # w" "a < b" by fastforce
      with True r show ?thesis by (metis append_Cons)
    next
      case False
      with Cons.prems(1) r show ?thesis by (metis Cons_less_Cons append_Nil)
    qed
  qed simp
  with that show thesis by blast
qed

lemma common_length_split: "a \<noteq> b \<Longrightarrow> common_length (u @ a # v) (u @ b # w) = length u"
  by (induction u) (simp_all add: common_length_def)

lemma common_length_prefix: "common_length p (p @ w) = length p"
  by (induction p) (simp_all add: common_length_def)

lemma byte_less_Suc:
  fixes a y :: u8
  assumes "a \<noteq> 0xFF"
  shows "y < a + 1 \<longleftrightarrow> y \<le> a"
proof -
  have "uint a \<noteq> 255" using assms word_uint_eq_iff [of a "0xFF"] by simp
  moreover have "uint a < 256" using uint_lt2p [of a] by simp
  ultimately have "uint (a + 1) = uint a + 1"
    by (simp add: uint_word_ariths)
  then show ?thesis by (simp add: word_less_def word_le_def zless_add1_eq order_le_less)
qed

lemma byte_not_max: "a < b \<Longrightarrow> a \<noteq> 0xFF" for a b :: u8
  using uint_lt2p [of b] by (auto simp: word_less_def)

lemma same_prefix_order [simp]:
  fixes x y :: "'a::linorder list"
  shows "u @ x < u @ y \<longleftrightarrow> x < y" "u @ x \<le> u @ y \<longleftrightarrow> x \<le> y"
  by (induction u) simp_all

text \<open>
  Between two keys of which the first is not a prefix of the second, the separator is what
  the documentation promises; before a prefix it is the first key itself.
\<close>

lemma separator_between_sound:
  assumes "previous < nxt"
  shows "if prefix previous nxt then separator_between previous nxt = previous
    else previous < separator_between previous nxt \<and> separator_between previous nxt \<le> nxt"
proof (cases "prefix previous nxt")
  case True
  then show ?thesis
    using assms by (auto simp: prefix_def separator_between_def common_length_prefix)
next
  case False
  with assms obtain u a v b w where [simp]: "previous = u @ a # v" "nxt = u @ b # w" and "a < b"
    by (rule lex_split)
  have "separator_between previous nxt = u @ (if a < 0xFF \<and> a + 1 < b then [a + 1] else [b])"
    using \<open>a < b\<close> less_imp_neq [OF \<open>a < b\<close>] less_not_sym [OF \<open>a < b\<close>]
    by (simp add: separator_between_def common_length_split nth_append Let_def)
  moreover have "a < a + 1"
    using byte_not_max [OF \<open>a < b\<close>] byte_less_Suc [of a a] by simp
  ultimately show ?thesis using False \<open>a < b\<close> less_imp_neq [OF \<open>a < b\<close>] by simp
qed

lemma separator_before_prefix: "separator_between [1] [1, 2] = [1]"
  by code_simp

lemma successor_simps:
  "successor [] = None"
  "successor (b # key) =
     (case successor key of Some s \<Rightarrow> Some (b # s) | None \<Rightarrow> if b \<noteq> 0xFF then Some [b + 1] else None)"
  by (simp_all add: successor_def split: option.splits)

lemma successor_exact:
  "case successor key of
     Some s \<Rightarrow> (key \<le> x \<and> x < s \<longleftrightarrow> prefix key x)
   | None \<Rightarrow> (key \<le> x \<longleftrightarrow> prefix key x)"
proof (induction key arbitrary: x)
  case Nil
  then show ?case by (simp add: successor_simps)
next
  case (Cons b key)
  show ?case
  proof (cases x)
    case [simp]: (Cons y ys)
    show ?thesis
      using Cons.IH [of ys] byte_less_Suc [of b y] byte_not_max [of b y]
      by (auto simp: successor_simps split: option.splits)
  qed (simp add: successor_simps split: option.splits)
qed

text \<open>
  The successor of a key is the exclusive end of the range of the key's extensions: the
  byte strings from the key up to its successor are exactly those that start with the key,
  and where there is no successor every string from the key on starts with it.
\<close>

theorem successor_bounds_prefix:
  "{x. key \<le> x \<and> (case successor key of Some s \<Rightarrow> x < s | None \<Rightarrow> True)} = {x. prefix key x}"
  using successor_exact [of key] by (cases "successor key") auto

section \<open>Integers\<close>

text \<open>The two's complement value of a big-endian byte string.\<close>

definition twos_value :: "bytes \<Rightarrow> int" where
  "twos_value bs = (if is_negative bs then int (be_val bs) - 256 ^ length bs else int (be_val bs))"

definition minimal_varint :: "bytes \<Rightarrow> bool" where
  "minimal_varint bs \<longleftrightarrow>
     bs \<noteq> [] \<and> (1 < length bs \<longrightarrow>
       \<not> (bs ! 0 = 0 \<and> \<not> bit (bs ! 1) 7) \<and> \<not> (bs ! 0 = 0xFF \<and> bit (bs ! 1) 7))"

lemma is_negative_bit: "is_negative bs \<longleftrightarrow> bit (bs ! 0) 7"
  using and_exp_ne_0 [of "bs ! 0" 7] by (simp add: is_negative_def)

lemma bit_7_iff: "bit b 7 \<longleftrightarrow> 128 \<le> unat b" for b :: u8
proof -
  have "b < 2 ^ 7 \<longleftrightarrow> (\<forall>i. bit b i \<longrightarrow> i < 7)" by (rule less_pow2_iff_bits) simp
  also have "\<dots> \<longleftrightarrow> \<not> bit b 7"
    using bit_imp_le_length [of b] by (fastforce simp: less_Suc_eq numeral_eq_Suc)
  finally show ?thesis by (simp add: word_less_nat_alt linorder_not_less [symmetric])
qed

lemma byte_bound: "unat b < 256" for b :: u8
  using unsigned_less [of b, where ?'a = nat] by simp

lemma bit_7_uint: "bit b 7 \<longleftrightarrow> 128 \<le> uint b" for b :: u8
proof -
  have "int (unat b) = uint b" by simp
  then show ?thesis unfolding bit_7_iff by linarith
qed

lemma twos_flip:
  assumes "bs \<noteq> []"
  shows "int (be_val (flip_sign bs)) = twos_value bs + 128 * 256 ^ (length bs - 1)"
proof -
  obtain b rest where bs: "bs = b # rest" using assms by (cases bs) auto
  have "b XOR 0x80 = b + 0x80" using xor_sign_eq_plus [of b] by simp
  then have "unat (b XOR 0x80) = (unat b + 128) mod 256" by (simp add: unat_word_ariths)
  also have "\<dots> = (if 128 \<le> unat b then unat b - 128 else unat b + 128)"
    using byte_bound [of b] by (auto simp: mod_if)
  finally have "int (unat (b XOR 0x80)) = (if 128 \<le> unat b then int (unat b) - 128 else int (unat b) + 128)"
    by (auto simp: of_nat_diff)
  then show ?thesis
    by (simp add: bs flip_sign_def twos_value_def is_negative_bit bit_7_iff algebra_simps)
qed

lemma cmp_signed_twos:
  assumes "length l = n" "length r = n" "0 < n"
  shows "cmp (flip_sign l) (flip_sign r) = cmp (twos_value l) (twos_value r)"
proof -
  have less: "flip_sign x < flip_sign y \<longleftrightarrow> twos_value x < twos_value y"
    if "length x = n" "length y = n" for x y
  proof -
    have "x \<noteq> []" "y \<noteq> []" using that assms(3) by auto
    then have "int (be_val (flip_sign x)) < int (be_val (flip_sign y)) \<longleftrightarrow> twos_value x < twos_value y"
      using that by (simp add: twos_flip del: of_nat_less_iff)
    then show ?thesis using that by (simp add: be_val_less)
  qed
  show ?thesis by (rule cmp_cong) (rule less [OF assms(1,2)] less [OF assms(2,1)])+
qed

lemma be_val_scaled:
  fixes q k :: int
  assumes "q \<le> k" "R < P" "0 < P"
  shows "q * P + R < (k + 1) * P"
proof -
  have "q * P \<le> k * P" using assms by (intro mult_right_mono) simp_all
  then show ?thesis using assms unfolding distrib_right mult_1 by linarith
qed

lemma twos_range:
  assumes "minimal_varint bs"
  defines "n \<equiv> length bs"
  shows "if is_negative bs
    then - (128 * 256 ^ (n - 1)) \<le> twos_value bs \<and> twos_value bs < 0 \<and>
      (1 < n \<longrightarrow> twos_value bs < - (128 * 256 ^ (n - 2)))
    else 0 \<le> twos_value bs \<and> twos_value bs < 128 * 256 ^ (n - 1) \<and>
      (1 < n \<longrightarrow> 128 * 256 ^ (n - 2) \<le> twos_value bs)"
proof (cases bs)
  case Nil
  then show ?thesis using assms by (simp add: minimal_varint_def)
next
  case b: (Cons b bs')
  show ?thesis
  proof (cases bs')
    case Nil
    then show ?thesis
      using uint_lt2p [of b] by (auto simp: b n_def twos_value_def is_negative_bit bit_7_uint)
  next
    case (Cons b' rest)
    define P R q :: int where "P = 256 ^ length rest" and "R = int (be_val rest)"
      and "q = int (unat b) * 256 + int (unat b')"
    have PR: "0 < P" "0 \<le> R" "R < P"
      using be_val_bound [of rest] by (simp_all add: P_def R_def)
    have val: "int (be_val bs) = q * P + R" "(256 :: int) ^ length bs = 65536 * P"
      "(256 :: int) ^ (n - 1) = 256 * P" "(256 :: int) ^ (n - 2) = P"
      by (simp_all add: b Cons q_def P_def R_def n_def algebra_simps)
    define x y where "x = uint b" and "y = uint b'"
    have xy: "0 \<le> x" "x < 256" "0 \<le> y" "y < 256" "q = x * 256 + y"
      using uint_lt2p [of b] uint_lt2p [of b'] by (simp_all add: x_def y_def q_def)
    have "if is_negative bs then 128 \<le> x \<and> (x \<noteq> 255 \<or> y < 128) else x < 128 \<and> (x \<noteq> 0 \<or> 128 \<le> y)"
      using assms(1)
      by (auto simp: minimal_varint_def b Cons is_negative_bit bit_7_uint word_uint_eq_iff x_def y_def)
    then have q: "if is_negative bs then 32768 \<le> q \<and> q \<le> 65407 else 128 \<le> q \<and> q \<le> 32767"
      using xy by (cases "is_negative bs") auto
    show ?thesis
    proof (cases "is_negative bs")
      case True
      with q PR be_val_scaled [of q 65407 R P] mult_right_mono [of 32768 q P]
      have "q * P + R < 65408 * P" "32768 * P \<le> q * P" by simp_all
      then show ?thesis
        using PR unfolding twos_value_def val if_P [OF True] by (intro conjI impI) linarith+
    next
      case False
      with q PR be_val_scaled [of q 32767 R P] mult_right_mono [of 128 q P]
      have "q * P + R < 32768 * P" "128 * P \<le> q * P" by simp_all
      then show ?thesis
        using PR unfolding twos_value_def val if_not_P [OF False] by (intro conjI impI) linarith+
    qed
  qed
qed

text \<open>A longer minimal varint lies further from zero.\<close>

lemma twos_longer:
  assumes "minimal_varint l" "minimal_varint r" "length l < length r"
  shows "\<not> is_negative r \<Longrightarrow> twos_value l < twos_value r" "is_negative r \<Longrightarrow> twos_value r < twos_value l"
proof -
  have ne: "l \<noteq> []" using assms(1) by (simp add: minimal_varint_def)
  define A B :: int where "A = 256 ^ (length l - 1)" and "B = 256 ^ (length r - 2)"
  have "0 < A" "A \<le> B"
    using assms(3) ne unfolding A_def B_def by (auto intro!: power_increasing)
  moreover have "- (128 * A) \<le> twos_value l" "twos_value l < 128 * A"
    using twos_range [OF assms(1)] \<open>0 < A\<close> by (auto simp: A_def split: if_splits)
  moreover have "1 < length r" using assms(3) ne by (cases l) auto
  then have "if is_negative r then twos_value r < - (128 * B) else 128 * B \<le> twos_value r"
    using twos_range [OF assms(2)] by (auto simp: B_def split: if_splits)
  ultimately show "\<not> is_negative r \<Longrightarrow> twos_value l < twos_value r"
    "is_negative r \<Longrightarrow> twos_value r < twos_value l"
    by (simp_all split: if_splits)
qed

lemma cmp_varint_twos:
  assumes "minimal_varint l" "minimal_varint r"
  shows "cmp_varint l r = cmp (twos_value l) (twos_value r)"
proof -
  have ne: "l \<noteq> []" "r \<noteq> []" using assms by (simp_all add: minimal_varint_def)
  consider "is_negative l \<noteq> is_negative r" | "is_negative l = is_negative r" "length l = length r"
    | "is_negative l = is_negative r" "length l \<noteq> length r" by blast
  then show ?thesis
  proof cases
    case 1
    then show ?thesis
      using twos_range [OF assms(1)] twos_range [OF assms(2)] ne
      by (auto simp: cmp_varint_def cmp_def split: if_splits)
  next
    case 2
    then have "cmp l r = cmp (twos_value l) (twos_value r)"
      by (intro cmp_cong) (auto simp: be_val_less twos_value_def)
    with 2 ne show ?thesis by (simp add: cmp_varint_def)
  next
    case 3
    then show ?thesis
      using twos_longer [OF assms] twos_longer [OF assms(2,1)] ne
      by (cases "is_negative r"; cases "length l < length r") (auto simp: cmp_varint_def cmp_def then_with_def)
  qed
qed

text \<open>
  C26. The comparators of the integer types order serialized integers by their value: two's
  complement at the fixed sizes, and minimal two's complement of any length for varints.
\<close>

theorem integer_comparison_exact:
  assumes "ty \<in> {Tinyint, Smallint, CInt, Bigint, Timestamp, Time, Counter, Varint}"
    and "if ty = Varint then minimal_varint l \<and> minimal_varint r
      else Some (length l) = fixed_size ty \<and> Some (length r) = fixed_size ty"
  shows "compare_bytes bo ty l r = Some (cmp (twos_value l) (twos_value r))"
proof (cases "ty = Varint")
  case True
  then show ?thesis using assms(2) by (simp add: cmp_varint_twos)
next
  case False
  then have ok: "comparable ty l" "comparable ty r" and len: "length l = length r" "0 < length l"
    and enc: "encode_byte_comparable bo ty = flip_sign"
    using assms by (auto simp: encode_signed_int_eq)
  have "compare_bytes bo ty l r = Some (cmp (flip_sign l) (flip_sign r))"
    using order_code.preserves [OF code_signed_fixed] order_code.preserves [OF code_tinyint] assms False
    by (auto simp: encode_signed_int_eq)
  then show ?thesis using cmp_signed_twos [OF refl len(1) [symmetric] len(2)] by simp
qed

theorem integer_comparison_exact_witness:
  "compare_bytes be_order Varint [0xFF, 0x7F] [0x80] = Some (cmp (- 129) (- 128 :: int))"
proof -
  have "twos_value [0xFF, 0x7F] = - 129" "twos_value [0x80] = - 128"
    by (simp_all add: twos_value_def is_negative_def)
  then show ?thesis
    using integer_comparison_exact [of Varint "[0xFF, 0x7F]" "[0x80]" be_order]
    by (simp add: minimal_varint_def bit_7_iff)
qed

end
