(* ===== verification/Varint_Text.thy ===== *)
theory Varint_Text
  imports Byte_Comparable
begin

text \<open>
  Arbitrary-precision integers and decimals as text (\<open>types/src/bigint.rs\<close>): the schoolbook
  conversion of a decimal string into a minimal big-endian two's complement byte string and
  back.  Loops over a byte string from its last byte are recursions that treat the tail
  first; the carry and the remainder are 16-bit words, as in the code.

  The theorem is that both directions are exact for every integer.
\<close>

section \<open>Text to varint\<close>

datatype marshal_error = EmptyString | NotAnInteger string | InvalidExponent string | ShortDecimal

text \<open>\<open>mag = mag * 10 + digit\<close>, without the final carry\<close>

fun mul10_add :: "bytes \<Rightarrow> 16 word \<Rightarrow> bytes \<times> 16 word" where
  "mul10_add [] carry = ([], carry)"
| "mul10_add (b # bs) carry =
     (let (bs', c) = mul10_add bs carry; prd = ucast b * 10 + c
      in (ucast prd # bs', drop_bit 8 prd))"

function push_carry :: "16 word \<Rightarrow> bytes \<Rightarrow> bytes" where
  "push_carry carry mag = (if carry = 0 then mag else push_carry (drop_bit 8 carry) (ucast carry # mag))"
  by pat_completeness auto
termination push_carry
proof (relation "measure (unat \<circ> fst)", simp_all)
  fix carry :: "16 word" assume "carry \<noteq> 0"
  then show "unat (drop_bit 8 carry) < unat carry"
    using div_less_dividend [of 256 "unat carry"] unat_eq_zero [of carry] by (simp add: drop_bit_eq_div unat_div)
qed

declare push_carry.simps [simp del]

definition add_digit :: "bytes \<Rightarrow> char \<Rightarrow> bytes" where
  "add_digit mag d = (let (mag', carry) = mul10_add mag (of_nat (digit_value d)) in push_carry carry mag')"

fun strip_zeros :: "bytes \<Rightarrow> bytes" where
  "strip_zeros (b # b' # bs) = (if b = 0 then strip_zeros (b' # bs) else b # b' # bs)"
| "strip_zeros bs = bs"

definition sign_byte :: "bytes \<Rightarrow> bytes" where
  "sign_byte mag = (if mag ! 0 AND 0x80 \<noteq> 0 then 0x00 # mag else mag)"

text \<open>The loop that adds one, and the carry out of it\<close>

fun add_one :: "bytes \<Rightarrow> bytes \<times> bool" where
  "add_one [] = ([], True)"
| "add_one (b # bs) =
     (let (bs', carry) = add_one bs in if carry then ((b + 1) # bs', b = 0xFF) else (b # bs', False))"

definition negate_bytes :: "bytes \<Rightarrow> bytes" where
  "negate_bytes mag = fst (add_one (map NOT mag))"

fun strip_ones :: "bytes \<Rightarrow> bytes" where
  "strip_ones (b # b' # bs) = (if b = 0xFF \<and> b' AND 0x80 \<noteq> 0 then strip_ones (b' # bs) else b # b' # bs)"
| "strip_ones bs = bs"

definition split_sign :: "string \<Rightarrow> bool \<times> string" where
  "split_sign v =
     (case v of
        [] \<Rightarrow> (False, v)
      | c # rest \<Rightarrow> if c = CHR ''-'' then (True, rest) else if c = CHR ''+'' then (False, rest) else (False, v))"

definition string_to_varint :: "string \<Rightarrow> marshal_error + bytes" where
  "string_to_varint v0 =
     (let v = trim v0 in
      if v = [] then Inl EmptyString
      else
        let (negative, digits) = split_sign v in
        if digits = [] \<or> \<not> list_all is_digit digits then Inl (NotAnInteger v)
        else
          let mag = foldl add_digit [0] digits in
          if \<not> negative then Inr (sign_byte (strip_zeros mag))
          else if list_all (\<lambda>b. b = 0) mag then Inr [0]
          else Inr (strip_ones (negate_bytes (sign_byte mag))))"

section \<open>Varint to text\<close>

text \<open>One pass of the division by ten, from the first byte, with the remainder before it\<close>

fun div10 :: "16 word \<Rightarrow> bytes \<Rightarrow> bytes \<times> 16 word" where
  "div10 remainder [] = ([], remainder)"
| "div10 remainder (b # bs) =
     (let dividend = push_bit 8 remainder OR ucast b;
          (bs', r) = div10 (dividend mod 10) bs
      in (ucast (dividend div 10) # bs', r))"

lemma byte_sum:
  fixes c :: "16 word" and b :: u8
  assumes "unat c < 10"
  shows "unat (push_bit 8 c OR ucast b) = unat c * 256 + unat b"
proof -
  have "push_bit 8 c OR ucast b = push_bit 8 c + ucast b"
    by (rule disjunctive_add [symmetric]) (auto simp: bit_push_bit_iff bit_ucast_iff dest: bit_imp_le_length)
  moreover have "unat (push_bit 8 c) = unat c * 256"
    using assms by (simp add: push_bit_eq_mult unat_word_ariths)
  moreover have "unat (ucast b :: 16 word) = unat b"
    using byte_bound [of b] by (simp add: unsigned_ucast_eq take_bit_nat_eq_self)
  ultimately show ?thesis
    using assms byte_bound [of b] by (simp add: unat_word_ariths)
qed

lemma div10_value:
  assumes "unat r < 10"
  shows "length (fst (div10 r bs)) = length bs \<and> unat (snd (div10 r bs)) < 10 \<and>
    be_val (fst (div10 r bs)) * 10 + unat (snd (div10 r bs)) = unat r * 256 ^ length bs + be_val bs"
  using assms
proof (induction bs arbitrary: r)
  case (Cons b bs)
  define d where "d = push_bit 8 r OR ucast b"
  have d: "unat d = unat r * 256 + unat b" using Cons.prems by (simp add: d_def byte_sum)
  have rem: "unat (d mod 10) = unat d mod 10" by (simp add: unat_mod)
  then have IH: "length (fst (div10 (d mod 10) bs)) = length bs" "unat (snd (div10 (d mod 10) bs)) < 10"
    "be_val (fst (div10 (d mod 10) bs)) * 10 + unat (snd (div10 (d mod 10) bs))
      = unat d mod 10 * 256 ^ length bs + be_val bs"
    using Cons.IH [of "d mod 10"] by simp_all
  have "unat d div 10 < 256" using d Cons.prems byte_bound [of b] by simp
  then have byte: "unat (ucast (d div 10) :: u8) = unat d div 10"
    by (simp add: unsigned_ucast_eq unat_div take_bit_nat_eq_self)
  define P where "P = (256 :: nat) ^ length bs"
  define q m where "q = unat d div 10" and "m = unat d mod 10"
  have "(q * 10 + m) * P = unat d * P" by (simp add: q_def m_def)
  then have "10 * (q * P) + m * P = 256 * (unat r * P) + unat b * P"
    unfolding d by (simp only: distrib_left distrib_right mult.assoc mult.commute mult.left_commute)
  then have "(q * P + be_val (fst (div10 (d mod 10) bs))) * 10 + unat (snd (div10 (d mod 10) bs))
      = unat r * (256 * P) + (unat b * P + be_val bs)"
    using IH(3) by (simp add: P_def [symmetric] m_def [symmetric])
  then show ?case
    using IH(1,2) byte by (simp add: d_def [symmetric] split_beta Let_def P_def q_def)
qed simp

lemma div10_eq:
  "be_val (fst (div10 0 bs)) = be_val bs div 10" "unat (snd (div10 0 bs)) = be_val bs mod 10"
proof -
  obtain q r where "fst (div10 0 bs) = q" "unat (snd (div10 0 bs)) = r" "r < 10" "be_val bs = be_val q * 10 + r"
    using div10_value [of 0 bs] by simp
  then show "be_val (fst (div10 0 bs)) = be_val bs div 10" "unat (snd (div10 0 bs)) = be_val bs mod 10"
    by simp_all
qed

lemma be_val_zero: "be_val bs = 0 \<longleftrightarrow> list_all (\<lambda>b. b = 0) bs"
  by (induction bs) (auto simp: unat_eq_zero)

function decimal_digits :: "bytes \<Rightarrow> string" where
  "decimal_digits mag =
     (let (mag', remainder) = div10 0 mag; digit = digit_char (unat remainder)
      in if list_all (\<lambda>b. b = 0) mag' then [digit] else digit # decimal_digits mag')"
  by pat_completeness auto
termination decimal_digits
proof (relation "measure be_val", simp_all)
  fix mag mag' :: bytes and r
  assume "(mag', r) = div10 0 mag" "\<not> list_all (\<lambda>b. b = 0) mag'"
  then have "be_val mag' = be_val mag div 10" "be_val mag' \<noteq> 0"
    using div10_eq(1) [of mag] be_val_zero [of mag'] by (metis fst_conv)+
  then show "be_val mag' < be_val mag" by (metis div_less_dividend div_0 gr0I one_less_numeral_iff semiring_norm(76))
qed

declare decimal_digits.simps [simp del]

definition varint_to_string :: "bytes \<Rightarrow> string" where
  "varint_to_string data =
     (if data = [] then ''0''
      else
        let negative = (data ! 0 AND 0x80 \<noteq> 0);
            mag = (if negative then negate_bytes data else data);
            s = rev (decimal_digits mag)
        in if negative then CHR ''-'' # s else s)"

lemma rev_decimal_digits: "rev (decimal_digits mag) = show_nat (be_val mag)"
proof (induction mag rule: decimal_digits.induct)
  case (1 mag)
  obtain mag' r where d: "div10 0 mag = (mag', r)" by (cases "div10 0 mag")
  then have vals: "be_val mag' = be_val mag div 10" "unat r = be_val mag mod 10"
    using div10_eq [of mag] by simp_all
  show ?case
  proof (cases "list_all (\<lambda>b. b = 0) mag'")
    case True
    then have "be_val mag < 10" using vals be_val_zero [of mag'] by auto
    then show ?thesis
      using True d vals by (subst decimal_digits.simps, subst show_nat.simps) simp
  next
    case False
    then have "\<not> be_val mag < 10" using vals be_val_zero [of mag'] by auto
    then show ?thesis
      using False d vals 1 by (subst decimal_digits.simps, subst show_nat.simps) simp
  qed
qed

section \<open>The values of the intermediate strings\<close>

lemma add_one_value:
  "length (fst (add_one bs)) = length bs \<and>
   be_val (fst (add_one bs)) + (if snd (add_one bs) then 256 ^ length bs else 0) = be_val bs + 1"
proof (induction bs)
  case (Cons b bs)
  have "unat (b + 1) + (if b = 0xFF then 256 else 0) = unat b + 1"
    using byte_bound [of b] by (auto simp: unat_word_ariths word_unat_eq_iff mod_if)
  then have "unat (b + 1) * 256 ^ length bs + (if b = 0xFF then 256 * 256 ^ length bs else 0)
      = unat b * 256 ^ length bs + 256 ^ length bs"
    by (cases "b = 0xFF") (simp_all flip: add_mult_distrib)
  with Cons show ?case by (cases "add_one bs") (auto split: if_splits)
qed simp

lemma be_val_not: "be_val (map NOT bs) + be_val bs + 1 = 256 ^ length bs"
proof (induction bs)
  case (Cons b bs)
  have "int (unat (NOT b)) + int (unat b) = 255"
    using uint_not [of b] by (simp add: mask_eq_exp_minus_1)
  then have "unat (NOT b) + unat b = 255" by linarith
  then have "unat (NOT b) * 256 ^ length bs + unat b * 256 ^ length bs = 255 * 256 ^ length bs"
    by (metis add_mult_distrib)
  with Cons show ?case by simp
qed simp

lemma negate_bytes_value:
  "length (negate_bytes bs) = length bs"
  "0 < be_val bs \<Longrightarrow> be_val (negate_bytes bs) = 256 ^ length bs - be_val bs"
proof -
  show "length (negate_bytes bs) = length bs"
    using add_one_value [of "map NOT bs"] by (simp add: negate_bytes_def)
  assume "0 < be_val bs"
  then show "be_val (negate_bytes bs) = 256 ^ length bs - be_val bs"
    using add_one_value [of "map NOT bs"] be_val_not [of bs] by (auto simp: negate_bytes_def split: if_splits)
qed

lemma mul10_add_value:
  assumes "unat c < 10"
  shows "length (fst (mul10_add bs c)) = length bs \<and> unat (snd (mul10_add bs c)) < 10 \<and>
    be_val (fst (mul10_add bs c)) + unat (snd (mul10_add bs c)) * 256 ^ length bs = 10 * be_val bs + unat c"
proof (induction bs)
  case (Cons b bs)
  obtain bs' c' where m: "mul10_add bs c = (bs', c')" by (cases "mul10_add bs c")
  define p where "p = (ucast b * 10 + c' :: 16 word)"
  have "unat (ucast b :: 16 word) = unat b"
    using byte_bound [of b] by (simp add: unsigned_ucast_eq take_bit_nat_eq_self)
  then have p: "unat p = unat b * 10 + unat c'"
    using byte_bound [of b] Cons by (simp add: p_def m unat_word_ariths)
  have byte: "unat (ucast p :: u8) = unat p mod 256"
    by (simp add: unsigned_ucast_eq take_bit_eq_mod)
  have carry: "unat (drop_bit 8 p) = unat p div 256"
    by (simp add: drop_bit_eq_div unat_div)
  define P where "P = (256 :: nat) ^ length bs"
  have "(unat p mod 256 + unat p div 256 * 256) * P = (unat b * 10 + unat c') * P"
    by (simp add: p)
  then have "unat p mod 256 * P + unat p div 256 * (256 * P) = 10 * (unat b * P) + unat c' * P"
    by (simp only: distrib_left distrib_right mult.assoc mult.commute mult.left_commute)
  moreover have "unat c' < 10" using Cons m by simp
  then have "unat p < 256 * 10" using p byte_bound [of b] by linarith
  then have "unat p div 256 < 10" by (simp add: less_mult_imp_div_less)
  ultimately show ?case
    using Cons by (simp add: m p_def [symmetric] byte carry P_def [symmetric])
qed (use assms in simp)

lemma push_carry_value:
  assumes "unat c < 256"
  shows "be_val (push_carry c mag) = unat c * 256 ^ length mag + be_val mag"
proof (cases "c = 0")
  case False
  have "unat (drop_bit 8 c) = 0" using assms by (simp add: drop_bit_eq_div unat_div)
  then have "drop_bit 8 c = 0" by (simp add: unat_eq_zero)
  moreover have "unat (ucast c :: u8) = unat c"
    using assms by (simp add: unsigned_ucast_eq take_bit_nat_eq_self)
  ultimately show ?thesis using False by (simp add: push_carry.simps)
qed (simp add: push_carry.simps)

lemma push_carry_ne: "mag \<noteq> [] \<Longrightarrow> push_carry c mag \<noteq> []"
  by (induction c mag rule: push_carry.induct) (subst push_carry.simps, simp)

lemma digit_value_less: "is_digit d \<Longrightarrow> digit_value d < 10"
  by (auto simp: is_digit_def digit_value_def)

lemma add_digit_value:
  assumes "is_digit d"
  shows "be_val (add_digit mag d) = be_val mag * 10 + digit_value d"
proof -
  have c: "unat (of_nat (digit_value d) :: 16 word) = digit_value d"
    using digit_value_less [OF assms] by (simp add: unat_of_nat take_bit_nat_eq_self)
  show ?thesis
    using mul10_add_value [of "of_nat (digit_value d)" mag] digit_value_less [OF assms]
    by (simp add: add_digit_def c split_beta push_carry_value)
qed

lemma add_digit_ne: "mag \<noteq> [] \<Longrightarrow> add_digit mag d \<noteq> []"
proof -
  assume "mag \<noteq> []"
  then have "fst (mul10_add mag c) \<noteq> []" for c by (cases mag) (simp_all add: split_beta Let_def)
  then show ?thesis by (simp add: add_digit_def split_beta push_carry_ne)
qed

lemma magnitude_value:
  "list_all is_digit ds \<Longrightarrow> be_val (foldl add_digit mag ds) = foldl (\<lambda>acc c. acc * 10 + digit_value c) (be_val mag) ds"
  by (induction ds arbitrary: mag) (simp_all add: add_digit_value)

lemma magnitude_ne: "mag \<noteq> [] \<Longrightarrow> foldl add_digit mag ds \<noteq> []"
  by (induction ds arbitrary: mag) (simp_all add: add_digit_ne)

lemma strip_zeros_value:
  "bs \<noteq> [] \<Longrightarrow> be_val (strip_zeros bs) = be_val bs \<and> strip_zeros bs \<noteq> [] \<and>
     (1 < length (strip_zeros bs) \<longrightarrow> strip_zeros bs ! 0 \<noteq> 0)"
  by (induction bs rule: strip_zeros.induct) auto

lemma is_negative_value:
  assumes "bs \<noteq> []"
  shows "is_negative bs \<longleftrightarrow> 128 * 256 ^ (length bs - 1) \<le> be_val bs"
proof -
  obtain b rest where bs: "bs = b # rest" using assms by (cases bs) auto
  have "128 \<le> unat b \<longleftrightarrow> 128 * 256 ^ length rest \<le> unat b * 256 ^ length rest + be_val rest"
  proof
    assume "128 \<le> unat b"
    then have "128 * 256 ^ length rest \<le> unat b * 256 ^ length rest" by simp
    then show "128 * 256 ^ length rest \<le> unat b * 256 ^ length rest + be_val rest" by linarith
  next
    assume le: "128 * 256 ^ length rest \<le> unat b * 256 ^ length rest + be_val rest"
    show "128 \<le> unat b"
    proof (rule ccontr)
      assume "\<not> 128 \<le> unat b"
      then show False
        using le digit_less [of "be_val rest" "256 ^ length rest" 0 "unat b" 128] be_val_bound [of rest] by simp
    qed
  qed
  then show ?thesis by (simp add: bs is_negative_bit bit_7_iff)
qed

lemma sign_byte_value:
  assumes "bs \<noteq> []"
  shows "be_val (sign_byte bs) = be_val bs" "sign_byte bs \<noteq> []" "\<not> is_negative (sign_byte bs)"
  using assms by (simp_all add: sign_byte_def is_negative_def)

lemma sign_byte_minimal:
  assumes "bs \<noteq> []" "1 < length bs \<longrightarrow> bs ! 0 \<noteq> 0"
  shows "minimal_varint (sign_byte bs)"
proof -
  have "bs ! 0 \<noteq> 0xFF" if "\<not> bit (bs ! 0) 7" using that by auto
  then show ?thesis
    using assms is_negative_bit [of bs] by (auto simp: minimal_varint_def sign_byte_def is_negative_def)
qed

lemma strip_ones_value:
  "\<lbrakk>bs \<noteq> []; is_negative bs\<rbrakk> \<Longrightarrow>
   twos_value (strip_ones bs) = twos_value bs \<and> minimal_varint (strip_ones bs)"
proof (induction bs rule: strip_ones.induct)
  case (1 b b' bs)
  show ?case
  proof (cases "b = 0xFF \<and> b' AND 0x80 \<noteq> 0")
    case True
    then have "is_negative (b' # bs)" by (simp add: is_negative_def)
    moreover have "twos_value (0xFF # b' # bs) = twos_value (b' # bs)"
      using calculation is_negative_bit [of "0xFF # b' # bs"] by (simp add: twos_value_def is_negative_def)
    ultimately show ?thesis using 1(1) True by simp
  next
    case False
    have "b \<noteq> 0" using "1.prems" by (auto simp: is_negative_def)
    with False show ?thesis
      using is_negative_bit [of "b' # bs"] by (auto simp: minimal_varint_def is_negative_def)
  qed
qed (auto simp: minimal_varint_def)

section \<open>The conversions are exact\<close>

definition show_int :: "int \<Rightarrow> string" where
  "show_int z = (if z < 0 then CHR ''-'' # show_nat (nat (- z)) else show_nat (nat z))"

lemma varint_to_string_exact:
  assumes "bs \<noteq> []"
  shows "varint_to_string bs = show_int (twos_value bs)"
proof (cases "is_negative bs")
  case True
  have "(0 :: nat) < 128 * 256 ^ (length bs - 1)" by simp
  then have pos: "0 < be_val bs" using is_negative_value [OF assms] True by (metis less_le_trans)
  have "be_val bs < 256 ^ length bs" by (rule be_val_bound)
  then have "twos_value bs < 0" "nat (- twos_value bs) = 256 ^ length bs - be_val bs"
    using True by (simp_all add: twos_value_def nat_diff_distrib nat_power_eq)
  then show ?thesis
    using True assms pos
    by (simp add: varint_to_string_def show_int_def rev_decimal_digits negate_bytes_value is_negative_def)
next
  case False
  then show ?thesis
    using assms
    by (simp add: varint_to_string_def show_int_def rev_decimal_digits is_negative_def twos_value_def)
qed

lemma positive_bytes:
  assumes "mag \<noteq> []"
  shows "minimal_varint (sign_byte (strip_zeros mag))" "twos_value (sign_byte (strip_zeros mag)) = int (be_val mag)"
  using strip_zeros_value [OF assms] sign_byte_value [of "strip_zeros mag"] sign_byte_minimal [of "strip_zeros mag"]
  by (auto simp: twos_value_def)

lemma negative_bytes:
  assumes "mag \<noteq> []" "0 < be_val mag"
  defines "bs \<equiv> strip_ones (negate_bytes (sign_byte mag))"
  shows "minimal_varint bs" "twos_value bs = - int (be_val mag)"
proof -
  let ?m = "sign_byte mag" and ?r = "negate_bytes (sign_byte mag)"
  note m = sign_byte_value [OF assms(1)]
  have r: "length ?r = length ?m" "be_val ?r = 256 ^ length ?m - be_val mag"
    using negate_bytes_value [of ?m] m assms(2) by simp_all
  then have ne: "?r \<noteq> []" using m(2) by auto
  have "be_val mag < 128 * 256 ^ (length ?m - 1)"
    using is_negative_value [OF m(2)] m(1,3) by simp
  moreover have "(256 :: nat) ^ length ?m = 256 * 256 ^ (length ?m - 1)"
    using m(2) by (metis One_nat_def Suc_pred length_greater_0_conv power_Suc)
  ultimately have "is_negative ?r"
    using is_negative_value [OF ne] r by simp
  moreover have "be_val mag \<le> 256 ^ length ?m"
    using be_val_bound [of ?m] m(1) by simp
  ultimately have "twos_value ?r = - int (be_val mag)"
    using r by (simp add: twos_value_def of_nat_diff)
  with strip_ones_value [OF ne \<open>is_negative ?r\<close>] show "minimal_varint bs" "twos_value bs = - int (be_val mag)"
    by (simp_all add: bs_def)
qed

lemma split_sign_digits: "list_all is_digit ds \<Longrightarrow> ds \<noteq> [] \<Longrightarrow> split_sign ds = (False, ds)"
  by (cases ds) (auto simp: split_sign_def is_digit_def)

lemma string_to_varint_unsigned:
  assumes "list_all is_digit ds" "ds \<noteq> []"
  obtains bs where "string_to_varint ds = Inr bs" "minimal_varint bs"
    "twos_value bs = int (foldl (\<lambda>acc c. acc * 10 + digit_value c) 0 ds)"
  using that positive_bytes [OF magnitude_ne, of "[0]" ds] assms
    magnitude_value [OF assms(1), of "[0]"] tight_digits [OF assms] split_sign_digits [OF assms]
  by (simp add: string_to_varint_def)

lemma string_to_varint_negative:
  assumes "list_all is_digit ds" "ds \<noteq> []"
  obtains bs where "string_to_varint (CHR ''-'' # ds) = Inr bs" "minimal_varint bs"
    "twos_value bs = - int (foldl (\<lambda>acc c. acc * 10 + digit_value c) 0 ds)"
proof -
  let ?mag = "foldl add_digit [0] ds"
  have "tight (CHR ''-'' # ds)"
    using tight_digits [OF assms] assms by (simp add: tight_def is_whitespace_def)
  then have eq: "string_to_varint (CHR ''-'' # ds) =
      (if list_all (\<lambda>b. b = 0) ?mag then Inr [0] else Inr (strip_ones (negate_bytes (sign_byte ?mag))))"
    using assms by (simp add: string_to_varint_def split_sign_def)
  have val: "be_val ?mag = foldl (\<lambda>acc c. acc * 10 + digit_value c) 0 ds"
    using magnitude_value [OF assms(1), of "[0]"] by simp
  show thesis
  proof (cases "list_all (\<lambda>b. b = 0) ?mag")
    case True
    then have "be_val ?mag = 0" by (simp add: be_val_zero)
    with True eq val that [of "[0]"] show thesis
      by (simp add: minimal_varint_def twos_value_def is_negative_def)
  next
    case False
    then have "0 < be_val ?mag" using be_val_zero [of ?mag] by simp
    with negative_bytes [OF magnitude_ne, of "[0]" ds] False eq val that show thesis by simp
  qed
qed

text \<open>
  C25. Varints are read from and written to decimal text exactly, for integers of any size:
  the text of an integer parses to its minimal two's complement bytes, and those bytes print
  as the same text.
\<close>

theorem varint_text_exact:
  "\<exists>bs. string_to_varint (show_int z) = Inr bs \<and> minimal_varint bs \<and> twos_value bs = z \<and>
     varint_to_string bs = show_int z"
proof -
  obtain bs where "string_to_varint (show_int z) = Inr bs" "minimal_varint bs" "twos_value bs = z"
  proof (cases "z < 0")
    case True
    with string_to_varint_negative [OF show_nat_digits show_nat_ne, of "nat (- z)"] that show thesis
      by (auto simp: show_int_def show_nat_value)
  next
    case False
    with string_to_varint_unsigned [OF show_nat_digits show_nat_ne, of "nat z"] that show thesis
      by (auto simp: show_int_def show_nat_value)
  qed
  moreover from this(2) have "bs \<noteq> []" by (simp add: minimal_varint_def)
  ultimately show ?thesis using varint_to_string_exact [of bs] by auto
qed

section \<open>Decimals\<close>

text \<open>
  A decimal is a 32-bit scale followed by the varint of the unscaled value.  Scales wrap
  around; \<open>None\<close> is the failed allocation of \<open>decimal_to_string\<close> at the least scale,
  whose negation wraps to itself.
\<close>

definition parse_i32 :: "string \<Rightarrow> int option" where
  "parse_i32 v =
     (let (negative, ds) = split_sign v;
          n = int (foldl (\<lambda>acc c. acc * 10 + digit_value c) 0 ds);
          z = (if negative then - n else n)
      in if ds = [] \<or> \<not> list_all is_digit ds \<or> \<not> in_i32 z then None else Some z)"

definition to_uppercase :: "string \<Rightarrow> string" where
  "to_uppercase = map (\<lambda>c. if 97 \<le> (of_char c :: nat) \<and> (of_char c :: nat) \<le> 122
     then char_of (of_char c - (32 :: nat)) else c)"

definition string_to_decimal :: "string \<Rightarrow> marshal_error + bytes" where
  "string_to_decimal v0 =
     (let v = trim v0; upper = to_uppercase v in
      case (case split_once (CHR ''E'') upper of
              Some (c, e) \<Rightarrow> (case parse_i32 e of None \<Rightarrow> Inl (InvalidExponent v) | Some x \<Rightarrow> Inr (c, x))
            | None \<Rightarrow> Inr (upper, 0)) of
        Inl err \<Rightarrow> Inl err
      | Inr (coeff, exp) \<Rightarrow>
          let (negative, coeff) = split_sign coeff;
              (int_part, frac_part) =
                (case split_once (CHR ''.'') coeff of Some p \<Rightarrow> p | None \<Rightarrow> (coeff, []));
              scale = (of_nat (length frac_part) - of_int exp :: 32 word);
              combined = (if negative then ''-'' else []) @ int_part @ frac_part
          in case string_to_varint combined of
               Inl err \<Rightarrow> Inl err
             | Inr unscaled \<Rightarrow> Inr (be_bytes 4 scale @ unscaled))"

definition decimal_to_string :: "bytes \<Rightarrow> (marshal_error + string) option" where
  "decimal_to_string data =
     (if length data < 4 then Some (Inl ShortDecimal)
      else
        let scale = sint (be_fold 0 (take 4 data) :: 32 word);
            unscaled_str = varint_to_string (drop 4 data)
        in if scale = i32_min then None
           else if scale \<le> 0 then Some (Inr (unscaled_str @ replicate (nat (- scale)) (CHR ''0'')))
           else
             let scale = nat scale;
                 (negative, digits) =
                   (case unscaled_str of
                      [] \<Rightarrow> (False, [])
                    | c # rest \<Rightarrow> if c = CHR ''-'' then (True, rest) else (False, c # rest));
                 sign = (if negative then ''-'' else [])
             in if length digits \<le> scale
                then Some (Inr (sign @ ''0.'' @ replicate (scale - length digits) (CHR ''0'') @ digits))
                else Some (Inr (sign @ take (length digits - scale) digits @ ''.'' @
                       drop (length digits - scale) digits)))"

text \<open>The plain notation of \<open>z / 10 ^ k\<close>, as the integer part and the fraction.\<close>

definition decimal_parts :: "nat \<Rightarrow> nat \<Rightarrow> string \<times> string" where
  "decimal_parts k m =
     (let ds = show_nat m in
      if length ds \<le> k then (''0'', replicate (k - length ds) (CHR ''0'') @ ds)
      else (take (length ds - k) ds, drop (length ds - k) ds))"

definition show_decimal :: "nat \<Rightarrow> int \<Rightarrow> string" where
  "show_decimal k z =
     (if z < 0 then ''-'' else []) @ fst (decimal_parts k (nat \<bar>z\<bar>)) @ ''.'' @ snd (decimal_parts k (nat \<bar>z\<bar>))"

lemma digits_value_zeros:
  "foldl (\<lambda>acc c. acc * 10 + digit_value c) 0 (replicate n (CHR ''0'') @ ds) =
   foldl (\<lambda>acc c. acc * 10 + digit_value c) 0 ds"
  by (induction n) (simp_all add: digit_value_def)

lemma decimal_parts_ok:
  assumes "decimal_parts k m = (ip, fp)"
  shows "list_all is_digit ip" "list_all is_digit fp" "ip \<noteq> []" "length fp = k"
    "foldl (\<lambda>acc c. acc * 10 + digit_value c) 0 (ip @ fp) = m"
proof -
  have zeros: "list_all is_digit (replicate n (CHR ''0''))" for n
    by (induction n) (simp_all add: is_digit_def)
  have ds: "list_all is_digit (show_nat m)" by (rule show_nat_digits)
  then have parts: "list_all is_digit (take n (show_nat m))" "list_all is_digit (drop n (show_nat m))" for n
    by (auto simp: list_all_iff dest: in_set_takeD in_set_dropD)
  from assms show "list_all is_digit ip" "list_all is_digit fp" "ip \<noteq> []" "length fp = k"
    using zeros ds parts zeros [of 1]
    by (auto simp: decimal_parts_def Let_def split: if_splits)
  show "foldl (\<lambda>acc c. acc * 10 + digit_value c) 0 (ip @ fp) = m"
    using assms show_nat_value [of m] digits_value_zeros [of "Suc (k - length (show_nat m))" "show_nat m"]
    by (auto simp: decimal_parts_def Let_def simp del: foldl_append split: if_splits)
qed

lemma digit_plain:
  "is_digit c \<Longrightarrow> c \<noteq> CHR ''-'' \<and> c \<noteq> CHR ''+'' \<and> c \<noteq> CHR ''.'' \<and> c \<noteq> CHR ''E'' \<and> \<not> is_whitespace c"
  by (auto simp: is_digit_def is_whitespace_def)

lemma to_uppercase_digits [simp]: "list_all is_digit ds \<Longrightarrow> to_uppercase ds = ds"
  by (induction ds) (auto simp: to_uppercase_def is_digit_def)

lemma to_uppercase_plain:
  "to_uppercase (v @ w) = to_uppercase v @ to_uppercase w" "to_uppercase [] = []"
  "to_uppercase (CHR ''.'' # v) = CHR ''.'' # to_uppercase v"
  "to_uppercase (CHR ''-'' # v) = CHR ''-'' # to_uppercase v"
  by (simp_all add: to_uppercase_def)

lemma split_once_here: "c \<notin> set v \<Longrightarrow> split_once c (v @ c # w) = Some (v, w)"
  by (induction v) (auto simp: split_once_def)

lemma parse_plain_decimal:
  fixes neg :: bool
  assumes "list_all is_digit ip" "list_all is_digit fp" "ip \<noteq> []" "fp \<noteq> []"
  defines "v \<equiv> (if neg then ''-'' else []) @ ip @ ''.'' @ fp"
  shows "string_to_decimal v = (case string_to_varint ((if neg then ''-'' else []) @ ip @ fp) of
      Inl err \<Rightarrow> Inl err
    | Inr bs \<Rightarrow> Inr (be_bytes 4 (of_nat (length fp) :: 32 word) @ bs))"
proof -
  have plain: "c \<noteq> CHR ''-'' \<and> c \<noteq> CHR ''+'' \<and> c \<noteq> CHR ''.'' \<and> c \<noteq> CHR ''E'' \<and> \<not> is_whitespace c"
    if "c \<in> set ip \<union> set fp" for c
    using that assms(1,2) digit_plain by (auto simp: list_all_iff)
  have "hd ip \<in> set ip" "last fp \<in> set fp" using assms(3,4) by simp_all
  with plain have "\<not> is_whitespace (hd ip)" "\<not> is_whitespace (last fp)" by blast+
  then have "tight v" using assms(3,4) by (simp add: v_def tight_def is_whitespace_def)
  moreover have "to_uppercase v = v"
    using assms(1,2) by (simp add: v_def to_uppercase_plain)
  moreover have "split_once (CHR ''E'') v = None"
    using plain by (auto simp: v_def split_once_def)
  moreover have "split_sign v = (neg, ip @ ''.'' @ fp)"
    using assms(3) plain [of "hd ip"] by (cases ip) (auto simp: v_def split_sign_def)
  moreover have "split_once (CHR ''.'') (ip @ ''.'' @ fp) = Some (ip, fp)"
    using split_once_here [of "CHR ''.''" ip fp] plain by auto
  ultimately show ?thesis by (simp add: string_to_decimal_def del: append.simps split: sum.splits)
qed

lemma show_int_digits:
  "(case show_int z of [] \<Rightarrow> (False, []) | c # rest \<Rightarrow> if c = CHR ''-'' then (True, rest) else (False, c # rest))
   = (z < 0, show_nat (nat \<bar>z\<bar>))"
proof -
  have "is_digit (hd (show_nat (nat z)))"
    using show_nat_digits [of "nat z"] hd_in_set [OF show_nat_ne] by (simp add: list_all_iff)
  then have "hd (show_nat (nat z)) \<noteq> CHR ''-''" using digit_plain by blast
  then show ?thesis by (cases "show_nat (nat z)") (auto simp: show_int_def)
qed

text \<open>Decimals with a fraction are read and printed exactly.\<close>

theorem decimal_text_roundtrip:
  assumes "0 < k" "k < 2 ^ 31"
  shows "\<exists>bs. string_to_decimal (show_decimal k z) = Inr (be_bytes 4 (of_nat k :: 32 word) @ bs) \<and>
    twos_value bs = z \<and>
    decimal_to_string (be_bytes 4 (of_nat k :: 32 word) @ bs) = Some (Inr (show_decimal k z))"
proof -
  obtain ip fp where parts: "decimal_parts k (nat \<bar>z\<bar>) = (ip, fp)" by (cases "decimal_parts k (nat \<bar>z\<bar>)")
  note ok = decimal_parts_ok [OF parts]
  have digits: "list_all is_digit (ip @ fp)" "ip @ fp \<noteq> []" using ok(1-3) by simp_all
  obtain bs where bs: "string_to_varint ((if z < 0 then ''-'' else []) @ ip @ fp) = Inr bs"
    "minimal_varint bs" "twos_value bs = z"
  proof (cases "z < 0")
    case True
    with string_to_varint_negative [OF digits] ok(5) that show thesis by auto
  next
    case False
    with string_to_varint_unsigned [OF digits] ok(5) that show thesis by auto
  qed
  have "fp \<noteq> []" using ok(4) assms(1) by auto
  with parse_plain_decimal [OF ok(1,2,3), where neg = "z < 0"] bs(1) ok(4)
  have read: "string_to_decimal (show_decimal k z) = Inr (be_bytes 4 (of_nat k :: 32 word) @ bs)"
    by (simp add: show_decimal_def parts)
  have scale: "sint (of_nat k :: 32 word) = int k"
    using sint_word_of_int_i32 [of "int k"] assms(2) by (simp add: in_i32_def)
  have "bs \<noteq> []" using bs(2) by (simp add: minimal_varint_def)
  then have "decimal_to_string (be_bytes 4 (of_nat k :: 32 word) @ bs) = Some (Inr (show_decimal k z))"
    using assms(1) scale show_int_digits [of z] varint_to_string_exact [of bs] bs(3)
    by (simp add: decimal_to_string_def show_decimal_def decimal_parts_def Let_def)
  with read bs(3) show ?thesis by blast
qed

lemma least_scale_panics: "decimal_to_string [0x80, 0, 0, 0, 1] = None"
  by code_simp

end
