(* ===== verification/Merkle.thy ===== *)
theory Merkle
  imports Tokens
begin

text \<open>
  Anti-entropy repair: the Merkle trees that replicas exchange (\<open>repair/src/merkle.rs\<close>),
  and the validator that builds them from partitions (\<open>repair/src/validator.rs\<close>).  MD5 is a
  parameter; a hasher that is updated several times hashes the concatenation.  Token arithmetic
  wraps at 64 bits as in the code.  The number of leaves, \<open>1u64 << depth\<close> in the code, is
  \<open>2 ^ depth\<close>, which describes depths below 64.

  The theorem is that over a range that does not wrap the diff of two validated trees finds
  every partition on which the replicas differ, provided MD5 does not collide on the strings
  that the two trees hash.
\<close>

section \<open>Trees\<close>

type_synonym tree_hash = bytes
type_synonym md5 = "bytes \<Rightarrow> tree_hash"

record merkle_leaf =
  leaf_start :: token
  leaf_end :: token
  leaf_hash :: tree_hash
  partition_count :: nat

record merkle_tree =
  mt_depth :: nat
  mt_range_start :: token
  mt_range_end :: token
  mt_leaves :: "merkle_leaf list"
  mt_internal :: "tree_hash list list"
  root_hash :: tree_hash

definition total_width :: "token \<Rightarrow> token \<Rightarrow> int" where
  "total_width start_raw end_raw =
     (if start_raw < end_raw then wrap_i64 (end_raw - start_raw) mod 2 ^ 128
      else (i64_max - start_raw) + (end_raw - i64_min) + 1)"

definition leaf_bound :: "token \<Rightarrow> int \<Rightarrow> nat \<Rightarrow> token" where
  "leaf_bound start_raw leaf_width i = wrap_i64 (start_raw + wrap_i64 (int i * leaf_width))"

definition leaf_ranges :: "token \<Rightarrow> token \<Rightarrow> nat \<Rightarrow> (token \<times> token) list" where
  "leaf_ranges start_raw end_raw depth =
     (let leaf_count = 2 ^ depth; leaf_width = total_width start_raw end_raw div 2 ^ depth
      in map (\<lambda>i. (leaf_bound start_raw leaf_width i,
                   if i = leaf_count - 1 then end_raw else leaf_bound start_raw leaf_width (i + 1)))
           [0..<leaf_count])"

definition token_in_range :: "token \<times> token \<Rightarrow> token \<Rightarrow> bool" where
  "token_in_range rg tok =
     (let (start, stop) = rg
      in if start \<le> stop then start \<le> tok \<and> tok < stop else start \<le> tok \<or> tok < stop)"

text \<open>One leaf takes the hashes from the cursor on while their tokens are in its range.\<close>

fun build_leaves :: "md5 \<Rightarrow> (token \<times> token) list \<Rightarrow> (token \<times> tree_hash) list \<Rightarrow> merkle_leaf list" where
  "build_leaves md5 [] ph = []"
| "build_leaves md5 (r # rs) ph =
     (let mine = takeWhile (\<lambda>(tok, _). token_in_range r tok) ph
      in \<lparr>leaf_start = fst r, leaf_end = snd r, leaf_hash = md5 (concat (map snd mine)),
          partition_count = length mine\<rparr> # build_leaves md5 rs (drop (length mine) ph))"

fun parent_level :: "md5 \<Rightarrow> tree_hash list \<Rightarrow> tree_hash list" where
  "parent_level md5 (a # b # hs) = md5 (a @ b) # parent_level md5 hs"
| "parent_level md5 [a] = [md5 a]"
| "parent_level md5 [] = []"

lemma length_parent_level: "length (parent_level md5 hs) = (length hs + 1) div 2"
  by (induction md5 hs rule: parent_level.induct) simp_all

text \<open>The internal levels, bottom-up, and the last level, which holds at most the root.\<close>

function build_levels :: "md5 \<Rightarrow> tree_hash list \<Rightarrow> tree_hash list list \<times> tree_hash list" where
  "build_levels md5 level =
     (if 1 < length level then
        let (levels, top) = build_levels md5 (parent_level md5 level) in (level # levels, top)
      else ([], level))"
  by pat_completeness auto
termination build_levels
  by (relation "measure (length \<circ> snd)") (auto simp: length_parent_level)

declare build_levels.simps [simp del]

definition merkle_build ::
  "md5 \<Rightarrow> token \<Rightarrow> token \<Rightarrow> nat \<Rightarrow> (token \<times> tree_hash) list \<Rightarrow> merkle_tree" where
  "merkle_build md5 range_start range_end depth partition_hashes =
     (let leaves = build_leaves md5 (leaf_ranges range_start range_end depth) partition_hashes;
          (levels, top) = build_levels md5 (map leaf_hash leaves)
      in \<lparr>mt_depth = depth, mt_range_start = range_start, mt_range_end = range_end,
          mt_leaves = leaves, mt_internal = levels,
          root_hash = (if length top = 1 then top ! 0 else replicate 16 0)\<rparr>)"

text \<open>\<open>None\<close> is the failed assertion on trees of different shape.\<close>

definition merkle_diff :: "merkle_tree \<Rightarrow> merkle_tree \<Rightarrow> (token \<times> token) list option" where
  "merkle_diff local remote =
     (if mt_depth local \<noteq> mt_depth remote \<or> length (mt_leaves local) \<noteq> length (mt_leaves remote) then None
      else if root_hash local = root_hash remote then Some []
      else Some (map (\<lambda>(l, _). (leaf_start l, leaf_end l))
             (filter (\<lambda>(l, r). leaf_hash l \<noteq> leaf_hash r) (zip (mt_leaves local) (mt_leaves remote)))))"

definition leaf_count :: "merkle_tree \<Rightarrow> nat" where
  "leaf_count t = length (mt_leaves t)"

definition total_partitions :: "merkle_tree \<Rightarrow> nat" where
  "total_partitions t = sum_list (map partition_count (mt_leaves t))"

definition hash_partition :: "md5 \<Rightarrow> bytes \<Rightarrow> bytes \<Rightarrow> tree_hash" where
  "hash_partition md5 partition_key data_hash = md5 (partition_key @ data_hash)"

section \<open>The validator\<close>

definition partition_input :: "bytes \<Rightarrow> bytes \<Rightarrow> bytes" where
  "partition_input partition_key data =
     be_bytes 4 (of_nat (length partition_key) :: 32 word) @ partition_key @ data"

definition hash_partition_data :: "md5 \<Rightarrow> bytes \<Rightarrow> bytes \<Rightarrow> tree_hash" where
  "hash_partition_data md5 partition_key data = md5 (partition_input partition_key data)"

definition validate_from_hashes ::
  "md5 \<Rightarrow> (token \<times> tree_hash) list \<Rightarrow> token \<times> token \<Rightarrow> nat \<Rightarrow> merkle_tree" where
  "validate_from_hashes md5 hashes rg depth =
     merkle_build md5 (fst rg) (snd rg) depth
       (filter (\<lambda>(tok, _). token_in_range rg tok) (sort_key fst hashes))"

definition validate ::
  "(bytes \<Rightarrow> u64) \<Rightarrow> md5 \<Rightarrow> (bytes \<times> bytes) list \<Rightarrow> token \<times> token \<Rightarrow> nat \<Rightarrow> merkle_tree" where
  "validate read_u64 md5 partitions rg depth =
     merkle_build md5 (fst rg) (snd rg) depth
       (sort_key fst
         (filter (\<lambda>(tok, _). token_in_range rg tok)
           (map (\<lambda>(key, data). (from_partition_key read_u64 key, hash_partition_data md5 key data)) partitions)))"

section \<open>The leaves partition the range\<close>

text \<open>Consecutive half-open ranges from \<open>lo\<close> to \<open>hi\<close>.\<close>

fun chain :: "token \<Rightarrow> (token \<times> token) list \<Rightarrow> token \<Rightarrow> bool" where
  "chain lo [] hi = (lo = hi)"
| "chain lo (r # rs) hi = (fst r = lo \<and> lo \<le> snd r \<and> chain (snd r) rs hi)"

lemma chain_map:
  assumes "\<And>i. m \<le> i \<Longrightarrow> i < n \<Longrightarrow> f i \<le> f (Suc i)" "m \<le> n"
  shows "chain (f m) (map (\<lambda>i. (f i, f (Suc i))) [m..<n]) (f n)"
  using assms
proof (induction "n - m" arbitrary: m)
  case (Suc k)
  then have "m < n" by simp
  then show ?case using Suc(1) [of "Suc m"] Suc(2-) by (simp add: upt_conv_Cons)
qed simp

lemma leaf_ranges_chain:
  assumes "in_i64 s" "in_i64 e" "s < e" "e - s \<le> i64_max"
  shows "chain s (leaf_ranges s e depth) e"
proof -
  define w where "w = (e - s) div 2 ^ depth"
  define f where "f = (\<lambda>i. if i = 2 ^ depth then e else s + int i * w)"
  have width: "total_width s e = e - s"
    using assms by (simp add: total_width_def in_i64_def)
  have w: "0 \<le> w" "2 ^ depth * w \<le> e - s"
    using assms(3) pos_mod_sign [of "2 ^ depth" "e - s"]
    by (simp_all add: w_def pos_imp_zdiv_nonneg_iff minus_mod_eq_mult_div [symmetric])
  have below: "int i * w \<le> e - s" if "i \<le> 2 ^ depth" for i
  proof -
    have "int i \<le> 2 ^ depth" using that by (metis of_nat_le_iff of_nat_numeral of_nat_power)
    then have "int i * w \<le> 2 ^ depth * w" using w(1) by (rule mult_right_mono)
    with w(2) show ?thesis by linarith
  qed
  have bound: "leaf_bound s w i = s + int i * w" if "i \<le> 2 ^ depth" for i
  proof -
    have "0 \<le> int i * w" using w(1) by simp
    then have "in_i64 (int i * w)" "in_i64 (s + int i * w)"
      using below [OF that] assms unfolding in_i64_def by linarith+
    then show ?thesis by (simp add: leaf_bound_def)
  qed
  have "leaf_ranges s e depth = map (\<lambda>i. (f i, f (Suc i))) [0..<2 ^ depth]"
    unfolding leaf_ranges_def Let_def width w_def [symmetric]
    by (auto simp: f_def bound simp del: of_nat_Suc)
  moreover have "f i \<le> f (Suc i)" if "i < 2 ^ depth" for i
    using below [of i] w(1) that by (auto simp: f_def distrib_right)
  ultimately show ?thesis
    using chain_map [of 0 "2 ^ depth" f] by (simp add: f_def)
qed

lemma chain_le: "chain lo rs hi \<Longrightarrow> lo \<le> hi \<and> (\<forall>r \<in> set rs. lo \<le> fst r \<and> fst r \<le> snd r)"
  by (induction lo rs hi rule: chain.induct) fastforce+

lemma chain_covers: "chain lo rs hi \<Longrightarrow> lo \<le> t \<Longrightarrow> t < hi \<Longrightarrow> \<exists>r \<in> set rs. token_in_range r t"
proof (induction lo rs hi rule: chain.induct)
  case (2 lo r rs hi)
  then show ?case
    by (cases "t < snd r") (auto simp: token_in_range_def split_beta)
qed simp

definition leaf_of :: "md5 \<Rightarrow> (token \<times> tree_hash) list \<Rightarrow> token \<times> token \<Rightarrow> merkle_leaf" where
  "leaf_of md5 ph r =
     (let mine = filter (\<lambda>(tok, _). token_in_range r tok) ph
      in \<lparr>leaf_start = fst r, leaf_end = snd r, leaf_hash = md5 (concat (map snd mine)),
          partition_count = length mine\<rparr>)"

lemma takeWhile_sorted:
  assumes "sorted (map fst ph)" "\<forall>(t, h) \<in> set ph. lo \<le> t" "lo \<le> (b :: int)"
  shows "takeWhile (\<lambda>(t, _). token_in_range (lo, b) t) ph = filter (\<lambda>(t, _). token_in_range (lo, b) t) ph"
    "drop (length (filter (\<lambda>(t, _). token_in_range (lo, b) t) ph)) ph = filter (\<lambda>(t, _). b \<le> t) ph"
proof -
  have "takeWhile (\<lambda>(t, _). token_in_range (lo, b) t) ph = filter (\<lambda>(t, _). token_in_range (lo, b) t) ph \<and>
      drop (length (filter (\<lambda>(t, _). token_in_range (lo, b) t) ph)) ph = filter (\<lambda>(t, _). b \<le> t) ph"
    using assms
  proof (induction ph)
    case (Cons x ph)
    obtain t h where x: "x = (t, h)" by (cases x)
    show ?case
    proof (cases "t < b")
      case True
      then show ?thesis using Cons by (auto simp: x token_in_range_def)
    next
      case False
      then have "\<forall>(t', h') \<in> set ph. \<not> t' < b" using Cons.prems(1) by (auto simp: x)
      then have "filter (\<lambda>(t, _). token_in_range (lo, b) t) ph = []" "filter (\<lambda>(t, _). b \<le> t) ph = ph"
        using assms(3) by (auto simp: filter_empty_conv filter_id_conv token_in_range_def)
      then show ?thesis using False assms(3) by (simp add: x token_in_range_def)
    qed
  qed simp
  then show "takeWhile (\<lambda>(t, _). token_in_range (lo, b) t) ph = filter (\<lambda>(t, _). token_in_range (lo, b) t) ph"
    "drop (length (filter (\<lambda>(t, _). token_in_range (lo, b) t) ph)) ph = filter (\<lambda>(t, _). b \<le> t) ph"
    by simp_all
qed

lemma build_leaves_filter:
  assumes "chain lo rs hi" "sorted (map fst ph)" "\<forall>(t, h) \<in> set ph. lo \<le> t \<and> t < hi"
  shows "build_leaves md5 rs ph = map (leaf_of md5 ph) rs"
  using assms
proof (induction md5 rs ph arbitrary: lo rule: build_leaves.induct)
  case (2 md5 r rs ph)
  let ?ph = "filter (\<lambda>(t, _). snd r \<le> t) ph"
  obtain b where r: "r = (lo, b)" "lo \<le> b" "chain b rs hi" using "2.prems"(1) by (cases r) auto
  note mine = takeWhile_sorted [of ph lo b]
  have low: "\<forall>(t, h) \<in> set ph. lo \<le> t" using "2.prems"(3) by auto
  have "sorted (map fst ?ph)" "\<forall>(t, h) \<in> set ?ph. b \<le> t \<and> t < hi"
    using "2.prems"(2,3) by (auto simp: r intro: sorted_filter)
  with 2(1) [OF refl, of b] mine [OF "2.prems"(2) low r(2)] r
  have IH: "build_leaves md5 rs ?ph = map (leaf_of md5 ?ph) rs" by simp
  have "filter (\<lambda>(t, _). token_in_range r' t) ?ph = filter (\<lambda>(t, _). token_in_range r' t) ph"
    if "r' \<in> set rs" for r'
    using chain_le [OF r(3)] that
    by (auto simp: token_in_range_def r split_beta intro!: filter_cong)
  then have "map (leaf_of md5 ?ph) rs = map (leaf_of md5 ph) rs" by (auto simp: leaf_of_def)
  then show ?case
    using IH mine [OF "2.prems"(2) low r(2)] by (simp add: r leaf_of_def Let_def)
qed simp

lemma merkle_build_leaves:
  assumes "in_i64 s" "in_i64 e" "s < e" "e - s \<le> i64_max"
    and "sorted (map fst ph)" "\<forall>(t, h) \<in> set ph. token_in_range (s, e) t"
  shows "mt_leaves (merkle_build md5 s e depth ph) = map (leaf_of md5 ph) (leaf_ranges s e depth)"
  using build_leaves_filter [OF leaf_ranges_chain [OF assms(1-4)] assms(5), of md5 depth] assms(3,6)
  by (auto simp: merkle_build_def Let_def token_in_range_def split_beta)

section \<open>Equal roots mean equal leaves\<close>

fun pair_inputs :: "tree_hash list \<Rightarrow> bytes list" where
  "pair_inputs (a # b # hs) = (a @ b) # pair_inputs hs"
| "pair_inputs [a] = [a]"
| "pair_inputs [] = []"

lemma parent_level_inputs: "parent_level md5 hs = map md5 (pair_inputs hs)"
  by (induction hs rule: pair_inputs.induct) simp_all

function level_inputs :: "md5 \<Rightarrow> tree_hash list \<Rightarrow> bytes list" where
  "level_inputs md5 level =
     (if 1 < length level then pair_inputs level @ level_inputs md5 (parent_level md5 level) else [])"
  by pat_completeness auto
termination level_inputs
  by (relation "measure (length \<circ> snd)") (auto simp: length_parent_level)

declare level_inputs.simps [simp del]

definition wide :: "tree_hash list \<Rightarrow> bool" where
  "wide hs \<longleftrightarrow> (\<forall>h \<in> set hs. length h = 16)"

lemma pair_inputs_inj:
  "\<lbrakk>wide xs; wide ys; length xs = length ys; pair_inputs xs = pair_inputs ys\<rbrakk> \<Longrightarrow> xs = ys"
proof (induction xs arbitrary: ys rule: pair_inputs.induct)
  case (1 a b xs)
  then obtain c d zs where "ys = c # d # zs" by (cases ys; cases "tl ys") auto
  with "1.prems" have "a = c" "b = d" "wide xs" "wide zs" "length xs = length zs"
    "pair_inputs xs = pair_inputs zs"
    by (simp_all add: wide_def)
  with \<open>ys = c # d # zs\<close> "1.IH" [of zs] show ?case by blast
next
  case (2 a)
  then show ?case by (cases ys) auto
qed simp

definition collision_free :: "md5 \<Rightarrow> bytes list \<Rightarrow> bool" where
  "collision_free md5 xs \<longleftrightarrow> (\<forall>x \<in> set xs. \<forall>y \<in> set xs. md5 x = md5 y \<longrightarrow> x = y)"

lemma collision_free_map:
  "\<lbrakk>collision_free md5 zs; set xs \<subseteq> set zs; set ys \<subseteq> set zs; map md5 xs = map md5 ys\<rbrakk> \<Longrightarrow> xs = ys"
  unfolding collision_free_def by (rule map_inj_on [of md5]) (auto simp: inj_on_def)

lemma collision_free_subset: "collision_free md5 zs \<Longrightarrow> set xs \<subseteq> set zs \<Longrightarrow> collision_free md5 xs"
  by (auto simp: collision_free_def)

text \<open>MD5 yields 16 bytes.\<close>

definition md5_width :: "md5 \<Rightarrow> bool" where
  "md5_width md5 \<longleftrightarrow> (\<forall>x. length (md5 x) = 16)"

lemma wide_map: "md5_width md5 \<Longrightarrow> wide (map md5 xs)"
  by (auto simp: wide_def md5_width_def)

lemma wide_parent_level: "md5_width md5 \<Longrightarrow> wide (parent_level md5 hs)"
  by (simp add: parent_level_inputs wide_map)

lemma levels_top: "\<not> 1 < length level \<Longrightarrow> snd (build_levels md5 level) = level"
  by (subst build_levels.simps) simp

lemma levels_rec:
  assumes "1 < length level"
  shows "level_inputs md5 level = pair_inputs level @ level_inputs md5 (parent_level md5 level)"
    "snd (build_levels md5 level) = snd (build_levels md5 (parent_level md5 level))"
proof -
  show "level_inputs md5 level = pair_inputs level @ level_inputs md5 (parent_level md5 level)"
    using assms by (subst level_inputs.simps) (simp only: if_True)
  show "snd (build_levels md5 level) = snd (build_levels md5 (parent_level md5 level))"
    using assms by (subst build_levels.simps) (simp add: split_beta)
qed

lemma levels_inj:
  assumes "md5_width md5" "wide xs" "wide ys" "length xs = length ys"
    and "collision_free md5 (level_inputs md5 xs @ level_inputs md5 ys)"
    and "snd (build_levels md5 xs) = snd (build_levels md5 ys)"
  shows "xs = ys"
  using assms
proof (induction md5 xs arbitrary: ys rule: build_levels.induct)
  case (1 md5 xs)
  show ?case
  proof (cases "1 < length xs")
    case True
    let ?px = "parent_level md5 xs" and ?py = "parent_level md5 ys"
    have True': "1 < length ys" using True "1.prems"(4) by simp
    note eqs = levels_rec [OF True] levels_rec [OF True']
    have "wide ?px" "wide ?py" "length ?px = length ?py"
      using "1.prems"(1,4) by (simp_all add: wide_parent_level length_parent_level)
    moreover have "collision_free md5 (level_inputs md5 ?px @ level_inputs md5 ?py)"
      by (rule collision_free_subset [OF "1.prems"(5)]) (auto simp: eqs)
    moreover have "snd (build_levels md5 ?px) = snd (build_levels md5 ?py)"
      using "1.prems"(6) by (simp only: eqs)
    ultimately have "?px = ?py" by (rule "1.IH" [OF True "1.prems"(1)])
    then have "map md5 (pair_inputs xs) = map md5 (pair_inputs ys)" by (simp only: parent_level_inputs)
    then have "pair_inputs xs = pair_inputs ys"
      by (rule collision_free_map [OF "1.prems"(5), rotated 2]) (simp_all add: eqs le_supI1 le_supI2)
    then show ?thesis by (rule pair_inputs_inj [OF "1.prems"(2,3,4)])
  next
    case False
    then show ?thesis using "1.prems"(4,6) levels_top [of xs md5] levels_top [of ys md5] by simp
  qed
qed

lemma levels_top_length: "level \<noteq> [] \<Longrightarrow> length (snd (build_levels md5 level)) = 1"
proof (induction md5 level rule: build_levels.induct)
  case (1 md5 level)
  show ?case
  proof (cases "1 < length level")
    case True
    then have "parent_level md5 level \<noteq> []" by (cases level; cases "tl level") auto
    with 1 True show ?thesis by (simp add: levels_rec)
  next
    case False
    then show ?thesis using "1.prems" by (cases level) (simp_all add: levels_top)
  qed
qed

section \<open>What the diff reports\<close>

definition hashes_in :: "(token \<times> tree_hash) list \<Rightarrow> token \<times> token \<Rightarrow> tree_hash list" where
  "hashes_in ph r = map snd (filter (\<lambda>(tok, _). token_in_range r tok) ph)"

definition tree_inputs :: "md5 \<Rightarrow> token \<times> token \<Rightarrow> nat \<Rightarrow> (token \<times> tree_hash) list \<Rightarrow> bytes list" where
  "tree_inputs md5 rg depth ph =
     (let ls = map (\<lambda>r. concat (hashes_in ph r)) (leaf_ranges (fst rg) (snd rg) depth)
      in ls @ level_inputs md5 (map md5 ls))"

lemma concat_wide_inj: "wide xs \<Longrightarrow> wide ys \<Longrightarrow> concat xs = concat ys \<Longrightarrow> xs = ys"
proof (induction xs arbitrary: ys)
  case Nil
  then show ?case by (cases ys) (auto simp: wide_def)
next
  case (Cons x xs)
  obtain y zs where ys: "ys = y # zs" using Cons.prems by (cases ys) (auto simp: wide_def)
  with Cons.prems have "wide xs" "wide zs" "length x = length y" "x @ concat xs = y @ concat zs"
    by (simp_all add: wide_def)
  then have "x = y" "xs = zs" using Cons.IH [of zs] by simp_all
  with ys show ?case by simp
qed

lemma wide_hashes_in: "wide (map snd ph) \<Longrightarrow> wide (hashes_in ph r)"
  by (auto simp: wide_def hashes_in_def)

lemma leaf_of_hash: "leaf_hash (leaf_of md5 ph r) = md5 (concat (hashes_in ph r))"
  "leaf_start (leaf_of md5 ph r) = fst r" "leaf_end (leaf_of md5 ph r) = snd r"
  by (simp_all add: leaf_of_def hashes_in_def Let_def)

lemma zip_map_same: "zip (map f xs) (map g xs) = map (\<lambda>x. (f x, g x)) xs"
  by (induction xs) simp_all

lemma leaf_ranges_ne: "leaf_ranges s e depth \<noteq> []"
  by (simp add: leaf_ranges_def Let_def)

lemma merkle_build_depth: "mt_depth (merkle_build md5 s e depth ph) = depth"
  by (simp add: merkle_build_def Let_def split_beta)

lemma merkle_build_root:
  "mt_leaves (merkle_build md5 s e depth ph) \<noteq> [] \<Longrightarrow>
   [root_hash (merkle_build md5 s e depth ph)] =
     snd (build_levels md5 (map leaf_hash (mt_leaves (merkle_build md5 s e depth ph))))"
proof -
  assume ne: "mt_leaves (merkle_build md5 s e depth ph) \<noteq> []"
  let ?ls = "build_leaves md5 (leaf_ranges s e depth) ph"
  have "length (snd (build_levels md5 (map leaf_hash ?ls))) = 1"
    using ne by (intro levels_top_length) (simp add: merkle_build_def Let_def split_beta)
  then show ?thesis
    by (cases "snd (build_levels md5 (map leaf_hash ?ls))") (simp_all add: merkle_build_def Let_def split_beta)
qed

lemma md5_hashes_in:
  assumes "collision_free md5 zs" "concat (hashes_in ph r) \<in> set zs" "concat (hashes_in ph' r) \<in> set zs"
    and "wide (map snd ph)" "wide (map snd ph')"
  shows "md5 (concat (hashes_in ph r)) = md5 (concat (hashes_in ph' r)) \<longleftrightarrow> hashes_in ph r = hashes_in ph' r"
proof
  assume "md5 (concat (hashes_in ph r)) = md5 (concat (hashes_in ph' r))"
  with assms(1-3) have "concat (hashes_in ph r) = concat (hashes_in ph' r)"
    by (simp add: collision_free_def)
  then show "hashes_in ph r = hashes_in ph' r"
    by (rule concat_wide_inj [OF wide_hashes_in [OF assms(4)] wide_hashes_in [OF assms(5)]])
qed simp

lemma merkle_diff_exact:
  assumes rg: "in_i64 s" "in_i64 e" "s < e" "e - s \<le> i64_max"
    and ph: "sorted (map fst ph)" "\<forall>(t, h) \<in> set ph. token_in_range (s, e) t" "wide (map snd ph)"
    and ph': "sorted (map fst ph')" "\<forall>(t, h) \<in> set ph'. token_in_range (s, e) t" "wide (map snd ph')"
    and md5: "md5_width md5"
      "collision_free md5 (tree_inputs md5 (s, e) depth ph @ tree_inputs md5 (s, e) depth ph')"
  shows "merkle_diff (merkle_build md5 s e depth ph) (merkle_build md5 s e depth ph') =
    Some (filter (\<lambda>r. hashes_in ph r \<noteq> hashes_in ph' r) (leaf_ranges s e depth))"
proof -
  define rs where "rs = leaf_ranges s e depth"
  define inp where "inp = (\<lambda>ph. map (\<lambda>r. concat (hashes_in ph r)) rs)"
  define t where "t = merkle_build md5 s e depth ph"
  define t' where "t' = merkle_build md5 s e depth ph'"
  have inputs: "tree_inputs md5 (s, e) depth ph0 = inp ph0 @ level_inputs md5 (map md5 (inp ph0))" for ph0
    by (simp add: tree_inputs_def inp_def rs_def Let_def)
  have leaves: "mt_leaves t = map (leaf_of md5 ph) rs" "mt_leaves t' = map (leaf_of md5 ph') rs"
    unfolding t_def t'_def rs_def by (rule merkle_build_leaves [OF rg ph(1,2)] merkle_build_leaves [OF rg ph'(1,2)])+
  have hashes: "map leaf_hash (map (leaf_of md5 ph0) rs) = map md5 (inp ph0)" for ph0
    by (simp add: leaf_of_hash inp_def)
  have ne: "rs \<noteq> []" by (simp add: rs_def leaf_ranges_ne)
  have roots: "[root_hash t] = snd (build_levels md5 (map md5 (inp ph)))"
    "[root_hash t'] = snd (build_levels md5 (map md5 (inp ph')))"
    using merkle_build_root [of md5 s e depth ph] merkle_build_root [of md5 s e depth ph'] ne
    unfolding t_def [symmetric] t'_def [symmetric] leaves hashes by simp_all
  have same: "md5 (concat (hashes_in ph r)) = md5 (concat (hashes_in ph' r)) \<longleftrightarrow> hashes_in ph r = hashes_in ph' r"
    if "r \<in> set rs" for r
    using that by (intro md5_hashes_in [OF md5(2) _ _ ph(3) ph'(3)]) (simp_all add: inputs inp_def)
  have diff: "filter (\<lambda>(l, r). leaf_hash l \<noteq> leaf_hash r) (zip (mt_leaves t) (mt_leaves t')) =
      map (\<lambda>r. (leaf_of md5 ph r, leaf_of md5 ph' r)) (filter (\<lambda>r. hashes_in ph r \<noteq> hashes_in ph' r) rs)"
    unfolding leaves zip_map_same filter_map using same by (simp add: comp_def leaf_of_hash cong: filter_cong)
  have "hashes_in ph r = hashes_in ph' r" if root: "root_hash t = root_hash t'" and r: "r \<in> set rs" for r
  proof -
    have "collision_free md5 (level_inputs md5 (map md5 (inp ph)) @ level_inputs md5 (map md5 (inp ph')))"
      by (rule collision_free_subset [OF md5(2)]) (auto simp: inputs)
    moreover have "length (map md5 (inp ph)) = length (map md5 (inp ph'))" by (simp add: inp_def)
    ultimately have "map md5 (inp ph) = map md5 (inp ph')"
      using levels_inj wide_map [OF md5(1)] md5(1) roots root by metis
    then show ?thesis using same [OF r] r by (simp add: inp_def)
  qed
  moreover have "mt_depth t = mt_depth t'" by (simp add: t_def t'_def merkle_build_depth)
  moreover have "length (mt_leaves t) = length (mt_leaves t')" by (simp add: leaves)
  ultimately have "merkle_diff t t' = Some (filter (\<lambda>r. hashes_in ph r \<noteq> hashes_in ph' r) rs)"
    unfolding merkle_diff_def diff by (auto simp: comp_def leaf_of_hash filter_empty_conv)
  then show ?thesis by (simp add: t_def t'_def rs_def)
qed

text \<open>The hashes that the validator hands to the tree, and the strings hashed on the way.\<close>

definition partition_hashes ::
  "(bytes \<Rightarrow> u64) \<Rightarrow> md5 \<Rightarrow> (bytes \<times> bytes) list \<Rightarrow> token \<times> token \<Rightarrow> (token \<times> tree_hash) list" where
  "partition_hashes read_u64 md5 ps rg =
     sort_key fst
       (filter (\<lambda>(tok, _). token_in_range rg tok)
         (map (\<lambda>(key, data). (from_partition_key read_u64 key, hash_partition_data md5 key data)) ps))"

definition validate_inputs ::
  "(bytes \<Rightarrow> u64) \<Rightarrow> md5 \<Rightarrow> (bytes \<times> bytes) list \<Rightarrow> token \<times> token \<Rightarrow> nat \<Rightarrow> bytes list" where
  "validate_inputs read_u64 md5 ps rg depth =
     map (\<lambda>(key, data). partition_input key data) ps @
     tree_inputs md5 rg depth (partition_hashes read_u64 md5 ps rg)"

lemma validate_build:
  "validate read_u64 md5 ps rg depth =
   merkle_build md5 (fst rg) (snd rg) depth (partition_hashes read_u64 md5 ps rg)"
  by (simp add: validate_def partition_hashes_def)

lemma partition_hashes_ok:
  "sorted (map fst (partition_hashes read_u64 md5 ps rg))"
  "\<forall>(t, h) \<in> set (partition_hashes read_u64 md5 ps rg). token_in_range rg t"
  "md5_width md5 \<Longrightarrow> wide (map snd (partition_hashes read_u64 md5 ps rg))"
  by (auto simp: partition_hashes_def wide_def md5_width_def hash_partition_data_def)

lemma sort_key_map: "sort_key f (map g xs) = map g (sort_key (\<lambda>x. f (g x)) xs)"
proof (induction xs)
  case (Cons x xs)
  have "insort_key f (g x) (map g ys) = map g (insort_key (\<lambda>x. f (g x)) x ys)" for ys
    by (induction ys) simp_all
  with Cons show ?case by simp
qed simp

lemma hashes_in_partition_hashes:
  "hashes_in (partition_hashes read_u64 md5 ps rg) r =
   map (\<lambda>p. hash_partition_data md5 (fst p) (snd p))
     (sort_key (\<lambda>p. from_partition_key read_u64 (fst p))
       (filter (\<lambda>p. token_in_range rg (from_partition_key read_u64 (fst p)) \<and>
                    token_in_range r (from_partition_key read_u64 (fst p))) ps))"
proof -
  have "hashes_in (partition_hashes read_u64 md5 ps rg) r =
    map snd (sort_key fst (filter (\<lambda>x. token_in_range rg (fst x) \<and> token_in_range r (fst x))
      (map (\<lambda>p. (from_partition_key read_u64 (fst p), hash_partition_data md5 (fst p) (snd p))) ps)))"
    unfolding hashes_in_def partition_hashes_def split_beta filter_sort filter_filter
    by (rule arg_cong [of _ _ "\<lambda>xs. map snd (sort_key fst xs)"]) (auto intro!: filter_cong)
  also have "\<dots> = map snd (sort_key fst (map (\<lambda>p. (from_partition_key read_u64 (fst p), hash_partition_data md5 (fst p) (snd p)))
      (filter (\<lambda>p. token_in_range rg (from_partition_key read_u64 (fst p)) \<and>
                   token_in_range r (from_partition_key read_u64 (fst p))) ps)))"
    by (simp add: filter_map comp_def)
  finally show ?thesis by (simp add: sort_key_map comp_def)
qed

lemma partition_input_inj:
  assumes "partition_input k d = partition_input k' d'" "length k < 2 ^ 32" "length k' < 2 ^ 32"
  shows "k = k' \<and> d = d'"
proof -
  define h where "h = (\<lambda>n. be_bytes 4 (of_nat n :: 32 word))"
  have len: "length (h n) = 4" and read: "be_fold 0 (h n) = (of_nat n :: 32 word)" for n
    by (simp_all add: h_def)
  have "h (length k) @ k @ d = h (length k') @ k' @ d'"
    using assms(1) by (simp only: partition_input_def h_def)
  then have heads: "h (length k) = h (length k')" and tails: "k @ d = k' @ d'"
    using append_eq_append_conv [of "h (length k)" "h (length k')" "k @ d" "k' @ d'"] len by auto
  have "(of_nat (length k) :: 32 word) = of_nat (length k')"
    using heads read [of "length k"] read [of "length k'"] by simp
  then have "unat (of_nat (length k) :: 32 word) = unat (of_nat (length k') :: 32 word)" by (rule arg_cong)
  with assms(2,3) have "length k = length k'" by (simp add: unat_of_nat take_bit_nat_eq_self)
  with tails show ?thesis by simp
qed

lemma validate_diff:
  fixes read_u64 md5 s e
  defines "tok \<equiv> \<lambda>p. from_partition_key read_u64 (fst p)"
  defines "part \<equiv> \<lambda>ps r. sort_key tok (filter (\<lambda>p. token_in_range (s, e) (tok p) \<and> token_in_range r (tok p)) ps)"
  assumes rg: "in_i64 s" "in_i64 e" "s < e" "e - s \<le> i64_max"
    and md5: "md5_width md5"
      "collision_free md5 (validate_inputs read_u64 md5 ps (s, e) depth @ validate_inputs read_u64 md5 ps' (s, e) depth)"
    and keys: "\<forall>p \<in> set (ps @ ps'). length (fst p) < 2 ^ 32"
  shows "merkle_diff (validate read_u64 md5 ps (s, e) depth) (validate read_u64 md5 ps' (s, e) depth) =
    Some (filter (\<lambda>r. part ps r \<noteq> part ps' r) (leaf_ranges s e depth))"
proof -
  let ?h = "\<lambda>p. hash_partition_data md5 (fst p) (snd p)"
  note ok = partition_hashes_ok
  have mem: "partition_input (fst p) (snd p) \<in>
      set (validate_inputs read_u64 md5 ps (s, e) depth @ validate_inputs read_u64 md5 ps' (s, e) depth)"
    if "p \<in> set (ps @ ps')" for p
    using that by (auto simp: validate_inputs_def split_beta)
  have inj: "p = q" if "p \<in> set (ps @ ps')" "q \<in> set (ps @ ps')" "?h p = ?h q" for p q
  proof -
    have "partition_input (fst p) (snd p) = partition_input (fst q) (snd q)"
      using md5(2) mem [OF that(1)] mem [OF that(2)] that(3)
      unfolding collision_free_def hash_partition_data_def by blast
    from partition_input_inj [OF this] keys that(1,2) show "p = q" by (simp add: prod_eq_iff)
  qed
  have "map ?h (part ps r) = map ?h (part ps' r) \<longleftrightarrow> part ps r = part ps' r" for r
    by (rule inj_on_map_eq_map, rule inj_on_subset [of ?h "set (ps @ ps')"])
      (rule inj_onI, rule inj, auto simp: part_def)
  then have same: "hashes_in (partition_hashes read_u64 md5 ps (s, e)) r = hashes_in (partition_hashes read_u64 md5 ps' (s, e)) r
    \<longleftrightarrow> part ps r = part ps' r" for r
    by (simp add: hashes_in_partition_hashes part_def tok_def)
  have "collision_free md5 (tree_inputs md5 (s, e) depth (partition_hashes read_u64 md5 ps (s, e)) @
      tree_inputs md5 (s, e) depth (partition_hashes read_u64 md5 ps' (s, e)))"
    by (rule collision_free_subset [OF md5(2)]) (auto simp: validate_inputs_def)
  from merkle_diff_exact [OF rg ok(1) ok(2) ok(3) [OF md5(1)] ok(1) ok(2) ok(3) [OF md5(1)] md5(1) this]
  show ?thesis by (simp add: validate_build same)
qed

lemma sort_key_set:
  assumes "distinct (map f xs)" "distinct (map f ys)" "set xs = set ys"
  shows "sort_key f xs = sort_key f ys"
proof (rule map_sorted_distinct_set_unique [where f = f])
  show "inj_on f (set (sort_key f xs) \<union> set (sort_key f ys))"
    using assms by (simp add: distinct_map)
  show "distinct (map f (sort_key f xs))" "distinct (map f (sort_key f ys))"
    using assms by (simp_all add: distinct_map)
qed (simp_all add: assms(3))

text \<open>
  The diff of the trees that two replicas validate over a range that does not wrap and is
  at most half of the ring wide reports leaves of the range; every partition in the range that
  one replica has and the other has not, or has with other data, lies in a reported leaf; and
  if partitions have distinct tokens every reported leaf holds such a partition.  The strings
  hashed by the two validations are assumed not to collide, and keys to be shorter than
  \<open>2 ^ 32\<close> bytes.
\<close>

lemma merkle_diff_finds_differences:
  fixes read_u64 md5 ps ps'
  defines "tok \<equiv> \<lambda>p. from_partition_key read_u64 (fst p)"
  defines "differ \<equiv> (set ps - set ps') \<union> (set ps' - set ps)"
  assumes rg: "in_i64 s" "in_i64 e" "s < e" "e - s \<le> i64_max"
    and md5: "md5_width md5"
      "collision_free md5 (validate_inputs read_u64 md5 ps (s, e) depth @ validate_inputs read_u64 md5 ps' (s, e) depth)"
    and keys: "\<forall>p \<in> set (ps @ ps'). length (fst p) < 2 ^ 32"
  shows "\<exists>rs. merkle_diff (validate read_u64 md5 ps (s, e) depth) (validate read_u64 md5 ps' (s, e) depth) = Some rs \<and>
    set rs \<subseteq> set (leaf_ranges s e depth) \<and>
    (\<forall>p \<in> differ. token_in_range (s, e) (tok p) \<longrightarrow> (\<exists>r \<in> set rs. token_in_range r (tok p))) \<and>
    (distinct (map tok ps) \<and> distinct (map tok ps') \<longrightarrow> (\<forall>r \<in> set rs. \<exists>p \<in> differ. token_in_range r (tok p)))"
proof -
  define inr where "inr = (\<lambda>r p. token_in_range (s, e) (tok p) \<and> token_in_range r (tok p))"
  define part where "part = (\<lambda>ps r. sort_key tok (filter (inr r) ps))"
  define rs where "rs = filter (\<lambda>r. part ps r \<noteq> part ps' r) (leaf_ranges s e depth)"
  have "merkle_diff (validate read_u64 md5 ps (s, e) depth) (validate read_u64 md5 ps' (s, e) depth) = Some rs"
    using validate_diff [OF rg md5 keys] unfolding rs_def part_def inr_def tok_def .
  moreover have "\<exists>r \<in> set rs. token_in_range r (tok p)" if p: "p \<in> differ" "token_in_range (s, e) (tok p)" for p
  proof -
    obtain r where r: "r \<in> set (leaf_ranges s e depth)" "token_in_range r (tok p)"
      using chain_covers [OF leaf_ranges_chain [OF rg], of "tok p" depth] p(2) rg(3)
      by (auto simp: token_in_range_def)
    have "set (part ps r) \<noteq> set (part ps' r)"
      using p r(2) by (auto simp: differ_def part_def inr_def)
    then have "part ps r \<noteq> part ps' r" by metis
    with r show ?thesis unfolding rs_def by (intro bexI [of _ r]) simp_all
  qed
  moreover have "\<exists>p \<in> differ. token_in_range r (tok p)"
    if "distinct (map tok ps) \<and> distinct (map tok ps')" "r \<in> set rs" for r
  proof (rule ccontr)
    assume none: "\<not> ?thesis"
    have "set (filter (inr r) ps) = set (filter (inr r) ps')"
      using none by (auto simp: differ_def inr_def)
    then have "part ps r = part ps' r"
      unfolding part_def using that(1) by (intro sort_key_set) (simp_all add: distinct_map_filter)
    with that(2) show False by (simp add: rs_def)
  qed
  ultimately show ?thesis by (intro exI [of _ rs]) (auto simp: rs_def)
qed

section \<open>Ranges on which validation goes wrong\<close>

text \<open>
  The hashes are sorted by token, while the leaves of a range that wraps start at its left
  bound: the cursor passes the low tokens in the last leaves and never reaches the high ones.
\<close>

lemma wrapping_range_drops_partitions:
  "total_partitions (merkle_build md5 50 (- 50) 1 [(- 60, h), (60, h')]) = 1"
  "token_in_range (50, - 50) (- 60)" "token_in_range (50, - 50) 60"
  by (simp_all add: total_partitions_def merkle_build_def split_beta leaf_ranges_def Let_def total_width_def
    leaf_bound_def wrap_i64_def token_in_range_def upt_rec numeral_2_eq_2)

text \<open>A range that starts where it ends is the whole ring for the tree and empty for the validator.\<close>

lemma full_ring_validates_nothing:
  "validate read_u64 md5 ps (t, t) depth = validate read_u64 md5 [] (t, t) depth"
  by (simp add: validate_def token_in_range_def split_beta filter_map comp_def)

text \<open>Over the whole ring from the least token the width overflows and one leaf covers all but one token.\<close>

lemma full_width_overflows:
  "total_width i64_min i64_max = 2 ^ 128 - 1" "leaf_ranges i64_min i64_max 2 ! 0 = (i64_min, i64_max)"
  by code_simp+

end
