(* ===== verification/Repair_Job.thy ===== *)
theory Repair_Job
  imports Merkle "HOL-Library.Product_Lexorder"
begin

text \<open>
  The comparison of the trees of all replicas of a table (\<open>repair/src/job.rs\<close>) and the
  asymmetric planner (\<open>repair/src/asymmetric.rs\<close>).  A map from endpoints to trees is a list
  in the order of its iteration; \<open>None\<close> is the panic on trees of different shape.  The planner
  orders endpoints by the text of their address, which is the parameter \<open>key\<close>.

  The symmetric plan streams every differing partition both ways.  The asymmetric plan sends
  the data of one replica with the fewest disagreements to the replicas with more; it is
  exact when the replicas with the fewest disagreements agree with each other, and leaves
  differences behind otherwise.
\<close>

section \<open>The repair job\<close>

record 'e diff_result =
  endpoint_a :: 'e
  endpoint_b :: 'e
  mismatched_ranges :: "(token \<times> token) list"

record 'e sync_task_descriptor =
  sync_source :: 'e
  sync_target :: 'e
  sync_ranges :: "(token \<times> token) list"
  sync_keyspace :: string
  sync_table :: string

record 'e repair_job_result =
  trees_received :: nat
  job_diffs :: "'e diff_result list"
  sync_tasks :: "'e sync_task_descriptor list"

text \<open>The inner loop compares one tree with those after it.\<close>

fun diffs_with :: "'e \<Rightarrow> merkle_tree \<Rightarrow> ('e \<times> merkle_tree) list \<Rightarrow> 'e diff_result list option" where
  "diffs_with a tree_a [] = Some []"
| "diffs_with a tree_a ((b, tree_b) # trees) =
     (case merkle_diff tree_a tree_b of
        None \<Rightarrow> None
      | Some mismatched \<Rightarrow>
          map_option
            (\<lambda>ds. if mismatched = [] then ds
                  else \<lparr>endpoint_a = a, endpoint_b = b, mismatched_ranges = mismatched\<rparr> # ds)
            (diffs_with a tree_a trees))"

fun compute_diffs :: "('e \<times> merkle_tree) list \<Rightarrow> 'e diff_result list option" where
  "compute_diffs [] = Some []"
| "compute_diffs ((a, tree_a) # trees) =
     (case diffs_with a tree_a trees of
        None \<Rightarrow> None
      | Some ds \<Rightarrow> map_option (\<lambda>rest. ds @ rest) (compute_diffs trees))"

definition create_sync_plan ::
  "'e diff_result list \<Rightarrow> string \<Rightarrow> string \<Rightarrow> 'e sync_task_descriptor list" where
  "create_sync_plan diffs keyspace table =
     concat (map (\<lambda>d.
       if mismatched_ranges d = [] then []
       else [\<lparr>sync_source = endpoint_a d, sync_target = endpoint_b d, sync_ranges = mismatched_ranges d,
              sync_keyspace = keyspace, sync_table = table\<rparr>,
             \<lparr>sync_source = endpoint_b d, sync_target = endpoint_a d, sync_ranges = mismatched_ranges d,
              sync_keyspace = keyspace, sync_table = table\<rparr>]) diffs)"

definition run_repair_job ::
  "('e \<times> merkle_tree) list \<Rightarrow> string \<Rightarrow> string \<Rightarrow> 'e repair_job_result option" where
  "run_repair_job trees keyspace table =
     map_option (\<lambda>diffs. \<lparr>trees_received = length trees, job_diffs = diffs,
       sync_tasks = create_sync_plan diffs keyspace table\<rparr>) (compute_diffs trees)"

section \<open>Every pair is compared once\<close>

fun pairs_of :: "'a list \<Rightarrow> ('a \<times> 'a) list" where
  "pairs_of [] = []"
| "pairs_of (x # xs) = map (Pair x) xs @ pairs_of xs"

lemma pairs_of_subset: "(x, y) \<in> set (pairs_of xs) \<Longrightarrow> x \<in> set xs \<and> y \<in> set xs"
  by (induction xs) auto

lemma pairs_of_complete: "x \<in> set xs \<Longrightarrow> y \<in> set xs \<Longrightarrow> x \<noteq> y \<Longrightarrow> (x, y) \<in> set (pairs_of xs) \<or> (y, x) \<in> set (pairs_of xs)"
  by (induction xs) auto

lemma pairs_of_once: "distinct xs \<Longrightarrow> distinct (pairs_of xs) \<and> (\<forall>(x, y) \<in> set (pairs_of xs). (y, x) \<notin> set (pairs_of xs))"
  by (induction xs) (auto simp: distinct_map inj_on_def dest: pairs_of_subset)

definition pair_diff :: "('e \<times> merkle_tree) \<times> ('e \<times> merkle_tree) \<Rightarrow> 'e diff_result list" where
  "pair_diff p =
     (case merkle_diff (snd (fst p)) (snd (snd p)) of
        Some (r # rs) \<Rightarrow> [\<lparr>endpoint_a = fst (fst p), endpoint_b = fst (snd p), mismatched_ranges = r # rs\<rparr>]
      | _ \<Rightarrow> [])"

lemma diffs_with_eq:
  "\<forall>(b, tb) \<in> set trees. merkle_diff ta tb \<noteq> None \<Longrightarrow>
   diffs_with a ta trees = Some (concat (map (\<lambda>x. pair_diff ((a, ta), x)) trees))"
  by (induction a ta trees rule: diffs_with.induct) (auto simp: pair_diff_def split: list.splits)

lemma compute_diffs_eq:
  "\<forall>(a, ta) \<in> set trees. \<forall>(b, tb) \<in> set trees. merkle_diff ta tb \<noteq> None \<Longrightarrow>
   compute_diffs trees = Some (concat (map pair_diff (pairs_of trees)))"
proof (induction trees rule: compute_diffs.induct)
  case (2 a ta trees)
  have first: "diffs_with a ta trees = Some (concat (map (\<lambda>x. pair_diff ((a, ta), x)) trees))"
    using 2(2) by (intro diffs_with_eq) auto
  have "compute_diffs trees = Some (concat (map pair_diff (pairs_of trees)))"
    using 2(2) by (intro "2.IH" [OF first]) auto
  with first show ?case by (simp add: comp_def)
qed simp

lemma sync_plan_task:
  "t \<in> set (create_sync_plan ds ks tbl) \<longleftrightarrow>
   (\<exists>d \<in> set ds. mismatched_ranges d \<noteq> [] \<and> sync_ranges t = mismatched_ranges d \<and>
      sync_keyspace t = ks \<and> sync_table t = tbl \<and> sync_task_descriptor.more t = () \<and>
      (sync_source t = endpoint_a d \<and> sync_target t = endpoint_b d \<or>
       sync_source t = endpoint_b d \<and> sync_target t = endpoint_a d))"
  by (auto simp: create_sync_plan_def split: if_splits intro!: bexI sync_task_descriptor.equality)

lemma pair_diff_in:
  "d \<in> set (pair_diff ((a, ta), (b, tb))) \<longleftrightarrow>
   (\<exists>rs. merkle_diff ta tb = Some rs \<and> rs \<noteq> [] \<and> d = \<lparr>endpoint_a = a, endpoint_b = b, mismatched_ranges = rs\<rparr>)"
  by (cases "merkle_diff ta tb"; cases "the (merkle_diff ta tb)") (auto simp: pair_diff_def)

text \<open>The tasks of a job are the non-empty diffs of the pairs, both ways.\<close>

definition job_tasks :: "('e \<times> merkle_tree) list \<Rightarrow> string \<Rightarrow> string \<Rightarrow> 'e sync_task_descriptor list" where
  "job_tasks trees ks tbl = create_sync_plan (concat (map pair_diff (pairs_of trees))) ks tbl"

lemma run_repair_job_eq:
  "\<forall>(a, ta) \<in> set trees. \<forall>(b, tb) \<in> set trees. merkle_diff ta tb \<noteq> None \<Longrightarrow>
   run_repair_job trees ks tbl = Some \<lparr>trees_received = length trees,
     job_diffs = concat (map pair_diff (pairs_of trees)), sync_tasks = job_tasks trees ks tbl\<rparr>"
  by (simp add: run_repair_job_def compute_diffs_eq job_tasks_def)

lemma job_tasks_both_ways:
  assumes "((a, ta), (b, tb)) \<in> set (pairs_of trees)" "merkle_diff ta tb = Some rs" "rs \<noteq> []"
  shows "\<lparr>sync_source = a, sync_target = b, sync_ranges = rs, sync_keyspace = ks, sync_table = tbl\<rparr> \<in> set (job_tasks trees ks tbl)"
    "\<lparr>sync_source = b, sync_target = a, sync_ranges = rs, sync_keyspace = ks, sync_table = tbl\<rparr> \<in> set (job_tasks trees ks tbl)"
proof -
  have "\<lparr>endpoint_a = a, endpoint_b = b, mismatched_ranges = rs\<rparr> \<in> set (concat (map pair_diff (pairs_of trees)))"
    using assms by (auto intro!: bexI [OF _ assms(1)] simp: pair_diff_in)
  with assms(3)
  show "\<lparr>sync_source = a, sync_target = b, sync_ranges = rs, sync_keyspace = ks, sync_table = tbl\<rparr> \<in> set (job_tasks trees ks tbl)"
    "\<lparr>sync_source = b, sync_target = a, sync_ranges = rs, sync_keyspace = ks, sync_table = tbl\<rparr> \<in> set (job_tasks trees ks tbl)"
    unfolding job_tasks_def sync_plan_task by (auto intro!: bexI)
qed

lemma job_tasks_only:
  "t \<in> set (job_tasks trees ks tbl) \<Longrightarrow>
   \<exists>a ta b tb. ((a, ta), (b, tb)) \<in> set (pairs_of trees) \<and> merkle_diff ta tb = Some (sync_ranges t) \<and>
     (sync_source t = a \<and> sync_target t = b \<or> sync_source t = b \<and> sync_target t = a)"
  unfolding sync_plan_task job_tasks_def by (fastforce simp: pair_diff_in)

lemma pairs_of_map: "pairs_of (map f xs) = map (\<lambda>(x, y). (f x, f y)) (pairs_of xs)"
  by (induction xs) (simp_all add: comp_def)

lemma repair_job_pairs:
  assumes diff: "\<And>x y. x \<in> set reps \<Longrightarrow> y \<in> set reps \<Longrightarrow> \<exists>rs. merkle_diff (tree x) (tree y) = Some rs \<and> P rs x y"
    and sym: "\<And>rs x y. P rs x y \<Longrightarrow> P rs y x"
  shows "\<exists>res. run_repair_job (map (\<lambda>x. (ep x, tree x)) reps) ks tbl = Some res \<and>
    (\<forall>x \<in> set reps. \<forall>y \<in> set reps. x \<noteq> y \<longrightarrow>
      (\<exists>rs. P rs x y \<and> (rs \<noteq> [] \<longrightarrow>
        (\<exists>t \<in> set (sync_tasks res). sync_source t = ep x \<and> sync_target t = ep y \<and> sync_ranges t = rs)))) \<and>
    (\<forall>t \<in> set (sync_tasks res). \<exists>x \<in> set reps. \<exists>y \<in> set reps.
       sync_source t = ep x \<and> sync_target t = ep y \<and> P (sync_ranges t) x y)"
proof -
  let ?trees = "map (\<lambda>x. (ep x, tree x)) reps"
  let ?tasks = "set (job_tasks ?trees ks tbl)"
  have pair: "((ep x, tree x), (ep y, tree y)) \<in> set (pairs_of ?trees)" if "(x, y) \<in> set (pairs_of reps)" for x y
    using that by (force simp: pairs_of_map)
  have there: "\<exists>rs. P rs x y \<and> (rs \<noteq> [] \<longrightarrow> (\<exists>t \<in> ?tasks. sync_source t = ep x \<and> sync_target t = ep y \<and> sync_ranges t = rs))"
    if xy: "x \<in> set reps" "y \<in> set reps" "x \<noteq> y" for x y
    using pairs_of_complete [OF xy]
  proof
    assume xy': "(x, y) \<in> set (pairs_of reps)"
    obtain rs where rs: "merkle_diff (tree x) (tree y) = Some rs" "P rs x y" using diff xy by blast
    with job_tasks_both_ways(1) [OF pair [OF xy'] rs(1)] show ?thesis by (intro exI [of _ rs]) force
  next
    assume yx: "(y, x) \<in> set (pairs_of reps)"
    obtain rs where rs: "merkle_diff (tree y) (tree x) = Some rs" "P rs y x" using diff xy by blast
    with job_tasks_both_ways(2) [OF pair [OF yx] rs(1)] sym show ?thesis by (intro exI [of _ rs]) force
  qed
  have only: "\<exists>x \<in> set reps. \<exists>y \<in> set reps. sync_source t = ep x \<and> sync_target t = ep y \<and> P (sync_ranges t) x y"
    if t: "t \<in> ?tasks" for t
  proof -
    obtain x y where xy: "(x, y) \<in> set (pairs_of reps)" "merkle_diff (tree x) (tree y) = Some (sync_ranges t)"
      "sync_source t = ep x \<and> sync_target t = ep y \<or> sync_source t = ep y \<and> sync_target t = ep x"
      using job_tasks_only [OF t] by (auto simp: pairs_of_map)
    then have "x \<in> set reps" "y \<in> set reps" "P (sync_ranges t) x y"
      using pairs_of_subset [OF xy(1)] diff [of x y] by auto
    with xy(3) sym show ?thesis by blast
  qed
  have "\<forall>(a, ta) \<in> set ?trees. \<forall>(b, tb) \<in> set ?trees. merkle_diff ta tb \<noteq> None"
    using diff by fastforce
  from run_repair_job_eq [OF this, of ks tbl] there only show ?thesis by simp
qed

text \<open>What the diff of two validated replicas is for, and that the validator's trees provide it.\<close>

type_synonym 'e replica_data = "'e \<times> (bytes \<times> bytes) list"

definition differ :: "'e replica_data \<Rightarrow> 'e replica_data \<Rightarrow> (bytes \<times> bytes) set" where
  "differ x y = (set (snd x) - set (snd y)) \<union> (set (snd y) - set (snd x))"

definition diff_exact ::
  "(bytes \<times> bytes \<Rightarrow> token) \<Rightarrow> token \<times> token \<Rightarrow> (token \<times> token) list \<Rightarrow> 'e replica_data \<Rightarrow> 'e replica_data \<Rightarrow> bool" where
  "diff_exact tok rg rs x y \<longleftrightarrow>
     (\<forall>p \<in> differ x y. token_in_range rg (tok p) \<longrightarrow> (\<exists>r \<in> set rs. token_in_range r (tok p))) \<and>
     (distinct (map tok (snd x)) \<and> distinct (map tok (snd y)) \<longrightarrow>
        (\<forall>r \<in> set rs. \<exists>p \<in> differ x y. token_in_range r (tok p)))"

lemma differ_commute: "differ x y = differ y x"
  by (auto simp: differ_def)

lemma diff_exact_sym: "diff_exact tok rg rs x y \<Longrightarrow> diff_exact tok rg rs y x"
  unfolding diff_exact_def differ_commute [of y x] by blast

lemma validated_diff_exact:
  fixes read_u64 md5 s e depth
  defines "tree \<equiv> \<lambda>x. validate read_u64 md5 (snd x) (s, e) depth"
  assumes rg: "in_i64 s" "in_i64 e" "s < e" "e - s \<le> i64_max"
    and md5: "md5_width md5"
      "collision_free md5 (concat (map (\<lambda>(ep, ps). validate_inputs read_u64 md5 ps (s, e) depth) reps))"
    and keys: "\<forall>(ep, ps) \<in> set reps. \<forall>p \<in> set ps. length (fst p) < 2 ^ 32"
    and xy: "x \<in> set reps" "y \<in> set reps"
  shows "\<exists>rs. merkle_diff (tree x) (tree y) = Some rs \<and>
    diff_exact (\<lambda>p. from_partition_key read_u64 (fst p)) (s, e) rs x y"
proof -
  have "set (validate_inputs read_u64 md5 (snd x) (s, e) depth @ validate_inputs read_u64 md5 (snd y) (s, e) depth)
    \<subseteq> set (concat (map (\<lambda>(ep, ps). validate_inputs read_u64 md5 ps (s, e) depth) reps))"
    using xy by (auto simp: split_beta intro: bexI [of _ x] bexI [of _ y])
  note free = collision_free_subset [OF md5(2) this]
  have "\<forall>p \<in> set (snd x @ snd y). length (fst p) < 2 ^ 32"
    using bspec [OF keys xy(1)] bspec [OF keys xy(2)] by (auto simp: split_beta)
  from merkle_diff_finds_differences [OF rg md5(1) free this]
  show ?thesis unfolding diff_exact_def differ_def tree_def by (elim exE conjE) (intro exI conjI)
qed

lemma diff_exact_finds:
  assumes "diff_exact tok rg rs x y" "p \<in> differ x y" "token_in_range rg (tok p)"
  shows "rs \<noteq> [] \<and> (\<exists>r \<in> set rs. token_in_range r (tok p))"
  using assms unfolding diff_exact_def by (metis empty_iff list.set(1))

lemma diff_exact_sound:
  "\<lbrakk>diff_exact tok rg rs x y; distinct (map tok (snd x)); distinct (map tok (snd y)); r \<in> set rs\<rbrakk> \<Longrightarrow>
   \<exists>p \<in> differ x y. token_in_range r (tok p)"
  unfolding diff_exact_def by blast

text \<open>
  C8. A repair job over the trees that all replicas validated on one range never panics, when
  the range does not wrap and is at most \<open>i64::MAX\<close> wide, the trees have a depth below 64, MD5
  does not collide on the strings hashed and keys are shorter than 4 GiB; and its plan streams every difference both ways: for a partition in the range that one replica
  has and another has not, or has with other data, there are tasks in both directions between
  the two with a range that holds the partition's token.  If partitions have distinct tokens,
  every range of every task holds a partition on which its source and its target differ.
\<close>

theorem repair_job_streams_differences:
  fixes read_u64 md5 and reps :: "('e \<times> (bytes \<times> bytes) list) list"
  defines "tok \<equiv> \<lambda>p. from_partition_key read_u64 (fst p)"
  assumes rg: "in_i64 s" "in_i64 e" "s < e" "e - s \<le> i64_max"
    and md5: "md5_width md5"
      "collision_free md5 (concat (map (\<lambda>(ep, ps). validate_inputs read_u64 md5 ps (s, e) depth) reps))"
    and keys: "\<forall>(ep, ps) \<in> set reps. \<forall>p \<in> set ps. length (fst p) < 2 ^ 32"
    and "depth < 64"
  shows "\<exists>res. run_repair_job (map (\<lambda>(ep, ps). (ep, validate read_u64 md5 ps (s, e) depth)) reps) ks tbl = Some res \<and>
    (\<forall>(a, psa) \<in> set reps. \<forall>(b, psb) \<in> set reps. a \<noteq> b \<longrightarrow>
      (\<forall>p \<in> set psa - set psb. token_in_range (s, e) (tok p) \<longrightarrow>
        (\<exists>t \<in> set (sync_tasks res). sync_source t = a \<and> sync_target t = b \<and>
           (\<exists>r \<in> set (sync_ranges t). token_in_range r (tok p))) \<and>
        (\<exists>t \<in> set (sync_tasks res). sync_source t = b \<and> sync_target t = a \<and>
           (\<exists>r \<in> set (sync_ranges t). token_in_range r (tok p))))) \<and>
    ((\<forall>(ep, ps) \<in> set reps. distinct (map tok ps)) \<longrightarrow>
      (\<forall>t \<in> set (sync_tasks res). \<forall>r \<in> set (sync_ranges t). \<exists>psa psb.
         (sync_source t, psa) \<in> set reps \<and> (sync_target t, psb) \<in> set reps \<and>
         (\<exists>p \<in> (set psa - set psb) \<union> (set psb - set psa). token_in_range r (tok p))))"
proof -
  let ?tree = "\<lambda>x. validate read_u64 md5 (snd x) (s, e) depth"
  have trees: "(\<lambda>(ep, ps). (ep, validate read_u64 md5 ps (s, e) depth)) = (\<lambda>x. (fst x, ?tree x))"
    by (rule ext) (simp add: split_beta)
  from repair_job_pairs [of reps ?tree "diff_exact tok (s, e)" fst ks tbl, OF
      validated_diff_exact [OF rg md5 keys, folded tok_def]] diff_exact_sym
  obtain res where run: "run_repair_job (map (\<lambda>x. (fst x, ?tree x)) reps) ks tbl = Some res"
    and there: "\<And>x y. \<lbrakk>x \<in> set reps; y \<in> set reps; x \<noteq> y\<rbrakk> \<Longrightarrow> \<exists>rs. diff_exact tok (s, e) rs x y \<and> (rs \<noteq> [] \<longrightarrow>
        (\<exists>t \<in> set (sync_tasks res). sync_source t = fst x \<and> sync_target t = fst y \<and> sync_ranges t = rs))"
    and only: "\<And>t. t \<in> set (sync_tasks res) \<Longrightarrow> \<exists>x \<in> set reps. \<exists>y \<in> set reps.
       sync_source t = fst x \<and> sync_target t = fst y \<and> diff_exact tok (s, e) (sync_ranges t) x y"
    by blast
  have task: "\<exists>t \<in> set (sync_tasks res). sync_source t = a \<and> sync_target t = b \<and>
      (\<exists>r \<in> set (sync_ranges t). token_in_range r (tok p))"
    if xy: "(a, psa) \<in> set reps" "(b, psb) \<in> set reps" "a \<noteq> b"
      and p: "p \<in> differ (a, psa) (b, psb)" "token_in_range (s, e) (tok p)" for a b psa psb p
  proof -
    from there [OF xy(1,2)] xy(3) obtain rs where rs: "diff_exact tok (s, e) rs (a, psa) (b, psb)"
      "rs \<noteq> [] \<longrightarrow> (\<exists>t \<in> set (sync_tasks res). sync_source t = a \<and> sync_target t = b \<and> sync_ranges t = rs)"
      by auto
    with diff_exact_finds [OF rs(1) p] show ?thesis by blast
  qed
  have sound: "\<exists>psa psb. (sync_source t, psa) \<in> set reps \<and> (sync_target t, psb) \<in> set reps \<and>
      (\<exists>p \<in> (set psa - set psb) \<union> (set psb - set psa). token_in_range r (tok p))"
    if ok: "\<forall>(ep, ps) \<in> set reps. distinct (map tok ps)" and t: "t \<in> set (sync_tasks res)" "r \<in> set (sync_ranges t)" for t r
  proof -
    obtain x y where xy: "x \<in> set reps" "y \<in> set reps" "sync_source t = fst x" "sync_target t = fst y"
      "diff_exact tok (s, e) (sync_ranges t) x y"
      using only [OF t(1)] by blast
    have "\<exists>p \<in> differ x y. token_in_range r (tok p)"
      using diff_exact_sound [OF xy(5) _ _ t(2)] bspec [OF ok xy(1)] bspec [OF ok xy(2)] by (simp add: split_beta)
    with xy show ?thesis by (intro exI [of _ "snd x"] exI [of _ "snd y"]) (simp add: differ_def)
  qed
  have both: "(\<exists>t \<in> set (sync_tasks res). sync_source t = a \<and> sync_target t = b \<and> (\<exists>r \<in> set (sync_ranges t). token_in_range r (tok p))) \<and>
      (\<exists>t \<in> set (sync_tasks res). sync_source t = b \<and> sync_target t = a \<and> (\<exists>r \<in> set (sync_ranges t). token_in_range r (tok p)))"
    if "(a, psa) \<in> set reps" "(b, psb) \<in> set reps" "a \<noteq> b" "p \<in> set psa - set psb" "token_in_range (s, e) (tok p)"
    for a b psa psb p
    using task [of a psa b psb p] task [of b psb a psa p] that by (simp add: differ_def)
  show ?thesis
    unfolding trees by (intro exI [of _ res] conjI [OF run] conjI impI ballI, clarify, rule both)
      (assumption | rule DiffI sound)+
qed

text \<open>For the witness MD5 is the length and the first bytes that are not zero.\<close>

definition sample_md5 :: md5 where
  "sample_md5 bs = take 16 (of_nat (length bs) # filter (\<lambda>b. b \<noteq> 0) bs @ replicate 16 0)"

definition replica_a :: "(bytes \<times> bytes) list" where
  "replica_a = [([1], [7]), ([2], [5])]"

definition replica_b :: "(bytes \<times> bytes) list" where
  "replica_b = [([2], [5]), ([1], [8])]"

lemma sample_md5_width: "md5_width sample_md5"
  by (auto simp: md5_width_def sample_md5_def min_def)

lemma collision_free_distinct: "distinct (map md5 (remdups xs)) \<Longrightarrow> collision_free md5 xs"
  by (auto simp: collision_free_def distinct_map inj_on_def)

lemma sample_inputs:
  "validate_inputs le_value sample_md5 replica_a (7000000000000000000, 9000000000000000000) 1 =
     [[0, 0, 0, 1, 1, 7], [0, 0, 0, 1, 2, 5],
      [6, 1, 2, 5, 0, 0, 0, 0, 0, 0, 0, 0, 0, 0, 0, 0],
      [6, 1, 1, 7, 0, 0, 0, 0, 0, 0, 0, 0, 0, 0, 0, 0],
      [16, 6, 1, 2, 5, 0, 0, 0, 0, 0, 0, 0, 0, 0, 0, 0, 16, 6, 1, 1, 7, 0, 0, 0, 0, 0, 0, 0, 0, 0, 0, 0]]"
  "validate_inputs le_value sample_md5 replica_b (7000000000000000000, 9000000000000000000) 1 =
     [[0, 0, 0, 1, 2, 5], [0, 0, 0, 1, 1, 8],
      [6, 1, 2, 5, 0, 0, 0, 0, 0, 0, 0, 0, 0, 0, 0, 0],
      [6, 1, 1, 8, 0, 0, 0, 0, 0, 0, 0, 0, 0, 0, 0, 0],
      [16, 6, 1, 2, 5, 0, 0, 0, 0, 0, 0, 0, 0, 0, 0, 0, 16, 6, 1, 1, 8, 0, 0, 0, 0, 0, 0, 0, 0, 0, 0, 0]]"
  by code_simp+

lemma sample_collision_free:
  "collision_free sample_md5 (concat (map (\<lambda>(ep, ps). validate_inputs le_value sample_md5 ps
     (7000000000000000000, 9000000000000000000) 1) [(1 :: nat, replica_a), (2, replica_b)]))"
  unfolding list.map concat.simps prod.case sample_inputs
  by (rule collision_free_distinct) code_simp

theorem repair_job_streams_differences_witness:
  "\<exists>res. run_repair_job (map (\<lambda>(ep, ps). (ep, validate le_value sample_md5 ps (7000000000000000000, 9000000000000000000) 1))
       [(1 :: nat, replica_a), (2, replica_b)]) ''ks'' ''t'' = Some res \<and>
     (\<exists>t \<in> set (sync_tasks res). sync_source t = 1 \<and> sync_target t = 2 \<and>
        (\<exists>r \<in> set (sync_ranges t). token_in_range r (from_partition_key le_value [1])))"
proof -
  let ?reps = "[(1 :: nat, replica_a), (2, replica_b)]"
  have rg: "in_i64 7000000000000000000" "in_i64 9000000000000000000" "7000000000000000000 < (9000000000000000000 :: int)"
    "9000000000000000000 - 7000000000000000000 \<le> i64_max"
    by (simp_all add: in_i64_def)
  have keys: "\<forall>(ep, ps) \<in> set ?reps. \<forall>p \<in> set ps. length (fst p) < 2 ^ 32" "(1 :: nat) < 64"
    by (simp_all add: replica_a_def replica_b_def)
  from repair_job_streams_differences [OF rg sample_md5_width sample_collision_free keys, of "''ks''" "''t''"]
  obtain res where run: "run_repair_job (map (\<lambda>(ep, ps). (ep, validate le_value sample_md5 ps
      (7000000000000000000, 9000000000000000000) 1)) ?reps) ''ks'' ''t'' = Some res"
    and both: "\<forall>(a, psa) \<in> set ?reps. \<forall>(b, psb) \<in> set ?reps. a \<noteq> b \<longrightarrow>
      (\<forall>p \<in> set psa - set psb. token_in_range (7000000000000000000, 9000000000000000000) (from_partition_key le_value (fst p)) \<longrightarrow>
        (\<exists>t \<in> set (sync_tasks res). sync_source t = a \<and> sync_target t = b \<and>
           (\<exists>r \<in> set (sync_ranges t). token_in_range r (from_partition_key le_value (fst p)))) \<and>
        (\<exists>t \<in> set (sync_tasks res). sync_source t = b \<and> sync_target t = a \<and>
           (\<exists>r \<in> set (sync_ranges t). token_in_range r (from_partition_key le_value (fst p)))))"
    by (elim exE conjE)
  have p: "([1], [7]) \<in> set replica_a - set replica_b" by (simp add: replica_a_def replica_b_def)
  have "token_in_range (7000000000000000000, 9000000000000000000) (from_partition_key le_value [1])" by code_simp
  moreover have mem: "(1 :: nat, replica_a) \<in> set ?reps" "(2, replica_b) \<in> set ?reps" "(1 :: nat) \<noteq> 2" by simp_all
  ultimately have "\<exists>t \<in> set (sync_tasks res). sync_source t = 1 \<and> sync_target t = 2 \<and>
      (\<exists>r \<in> set (sync_ranges t). token_in_range r (from_partition_key le_value [1]))"
    using bspec [OF mp [OF bspec [OF bspec [OF both mem(1), unfolded prod.case] mem(2), unfolded prod.case] mem(3)] p,
      unfolded fst_conv] by blast
  with run show ?thesis by blast
qed

section \<open>The asymmetric planner\<close>

record 'e endpoint_pair =
  pair_left :: 'e
  pair_right :: 'e

definition endpoint_pair_new :: "('e \<Rightarrow> 'k::linorder) \<Rightarrow> 'e \<Rightarrow> 'e \<Rightarrow> 'e endpoint_pair" where
  "endpoint_pair_new key a b =
     (if key a \<le> key b then \<lparr>pair_left = a, pair_right = b\<rparr> else \<lparr>pair_left = b, pair_right = a\<rparr>)"

definition pair_contains :: "'e endpoint_pair \<Rightarrow> 'e \<Rightarrow> bool" where
  "pair_contains p endpoint \<longleftrightarrow> pair_left p = endpoint \<or> pair_right p = endpoint"

text \<open>Hash sets are lists without repetition.\<close>

record 'e range_difference =
  rd_range :: token_range
  rd_endpoints :: "'e list"
  rd_pairs :: "'e endpoint_pair list"

type_synonym 'e range_map = "'e range_difference list"

fun add_difference ::
  "('e \<Rightarrow> 'k::linorder) \<Rightarrow> 'e range_map \<Rightarrow> token_range \<Rightarrow> 'e \<Rightarrow> 'e \<Rightarrow> 'e range_map" where
  "add_difference key [] rg a b =
     [\<lparr>rd_range = rg, rd_endpoints = List.insert b [a], rd_pairs = [endpoint_pair_new key a b]\<rparr>]"
| "add_difference key (entry # entries) rg a b =
     (if rd_range entry = rg then
        entry\<lparr>rd_endpoints := List.insert b (List.insert a (rd_endpoints entry)),
              rd_pairs := List.insert (endpoint_pair_new key a b) (rd_pairs entry)\<rparr> # entries
      else entry # add_difference key entries rg a b)"

definition sorted_endpoints :: "('e \<Rightarrow> 'k::linorder) \<Rightarrow> 'e list \<Rightarrow> 'e list" where
  "sorted_endpoints key endpoints = remdups_adj (sort_key key endpoints)"

definition sorted_pairs :: "('e \<Rightarrow> 'k::linorder) \<Rightarrow> 'e endpoint_pair list \<Rightarrow> 'e endpoint_pair list" where
  "sorted_pairs key pairs = sort_key (\<lambda>p. (key (pair_left p), key (pair_right p))) pairs"

definition endpoints_for_range :: "('e \<Rightarrow> 'k::linorder) \<Rightarrow> 'e range_map \<Rightarrow> token_range \<Rightarrow> 'e list option" where
  "endpoints_for_range key entries rg =
     map_option (\<lambda>entry. sorted_endpoints key (rd_endpoints entry)) (find (\<lambda>entry. rd_range entry = rg) entries)"

definition ranges_for_endpoint :: "'e range_map \<Rightarrow> 'e \<Rightarrow> token_range list" where
  "ranges_for_endpoint entries endpoint =
     map rd_range (filter (\<lambda>entry. endpoint \<in> set (rd_endpoints entry)) entries)"

record 'e pair_difference =
  pd_pair :: "'e endpoint_pair"
  pd_ranges :: "token_range list"

record 'e difference_holder =
  dh_pair_ranges :: "'e pair_difference list"
  dh_range_map :: "'e range_map"

definition difference_holder_new :: "'e difference_holder" where
  "difference_holder_new = \<lparr>dh_pair_ranges = [], dh_range_map = []\<rparr>"

definition push_range :: "token_range \<Rightarrow> token_range list \<Rightarrow> token_range list" where
  "push_range rg ranges = (if rg \<in> set ranges then ranges else ranges @ [rg])"

fun add_pair_ranges :: "'e endpoint_pair \<Rightarrow> token_range list \<Rightarrow> 'e pair_difference list \<Rightarrow> 'e pair_difference list" where
  "add_pair_ranges pair ranges [] = [\<lparr>pd_pair = pair, pd_ranges = fold push_range ranges []\<rparr>]"
| "add_pair_ranges pair ranges (entry # entries) =
     (if pd_pair entry = pair then entry\<lparr>pd_ranges := fold push_range ranges (pd_ranges entry)\<rparr> # entries
      else entry # add_pair_ranges pair ranges entries)"

definition add_diff ::
  "('e \<Rightarrow> 'k::linorder) \<Rightarrow> 'e difference_holder \<Rightarrow> 'e \<Rightarrow> 'e \<Rightarrow> token_range list \<Rightarrow> 'e difference_holder" where
  "add_diff key holder a b ranges =
     \<lparr>dh_pair_ranges = add_pair_ranges (endpoint_pair_new key a b) ranges (dh_pair_ranges holder),
      dh_range_map = fold (\<lambda>rg m. add_difference key m rg a b) ranges (dh_range_map holder)\<rparr>"

definition from_diffs :: "('e \<Rightarrow> 'k::linorder) \<Rightarrow> 'e diff_result list \<Rightarrow> 'e difference_holder" where
  "from_diffs key diffs =
     fold (\<lambda>diff holder. add_diff key holder (endpoint_a diff) (endpoint_b diff)
             (map (\<lambda>(start, stop). token_range_new start stop) (mismatched_ranges diff)))
       diffs difference_holder_new"

definition holder_is_empty :: "'e difference_holder \<Rightarrow> bool" where
  "holder_is_empty holder \<longleftrightarrow> dh_pair_ranges holder = []"

definition pair_ranges :: "'e difference_holder \<Rightarrow> 'e endpoint_pair \<Rightarrow> token_range list option" where
  "pair_ranges holder pair =
     map_option pd_ranges (find (\<lambda>entry. pd_pair entry = pair) (dh_pair_ranges holder))"

text \<open>The count of an endpoint, zero if the map has none.\<close>

definition disagreement_count :: "'e range_difference \<Rightarrow> 'e \<Rightarrow> nat" where
  "disagreement_count difference endpoint =
     length (filter (\<lambda>p. pair_left p = endpoint) (rd_pairs difference)) +
     length (filter (\<lambda>p. pair_right p = endpoint) (rd_pairs difference))"

definition sync_task :: "'e \<Rightarrow> 'e \<Rightarrow> token_range \<Rightarrow> string \<Rightarrow> string \<Rightarrow> 'e sync_task_descriptor" where
  "sync_task source target rg keyspace table =
     \<lparr>sync_source = source, sync_target = target, sync_ranges = [(tr_start rg, tr_end rg)],
      sync_keyspace = keyspace, sync_table = table\<rparr>"

text \<open>The body of the planner's loop over the differences.\<close>

definition range_plan ::
  "('e \<Rightarrow> 'k::linorder) \<Rightarrow> 'e list \<Rightarrow> string \<Rightarrow> string \<Rightarrow> 'e range_difference \<Rightarrow> 'e sync_task_descriptor list" where
  "range_plan key replicas keyspace table difference =
     (let counts = disagreement_count difference;
          candidates = sorted_endpoints key replicas
      in case candidates of
           [] \<Rightarrow> []
         | _ \<Rightarrow>
             let min_count = Min (set (map counts candidates));
                 source = hd (filter (\<lambda>endpoint. counts endpoint = min_count) candidates);
                 targets = filter (\<lambda>endpoint. counts endpoint > min_count) candidates
             in if targets = [] then
                  concat (map (\<lambda>pair.
                    [sync_task (pair_left pair) (pair_right pair) (rd_range difference) keyspace table,
                     sync_task (pair_right pair) (pair_left pair) (rd_range difference) keyspace table])
                    (sorted_pairs key (rd_pairs difference)))
                else map (\<lambda>target. sync_task source target (rd_range difference) keyspace table)
                       (sort_key key targets))"

definition create_asymmetric_sync_plan ::
  "('e \<Rightarrow> 'k::linorder) \<Rightarrow> 'e difference_holder \<Rightarrow> 'e list \<Rightarrow> string \<Rightarrow> string \<Rightarrow> 'e sync_task_descriptor list" where
  "create_asymmetric_sync_plan key holder replicas keyspace table =
     concat (map (range_plan key replicas keyspace table) (dh_range_map holder))"

section \<open>The differences of a range\<close>

text \<open>
  The ranges of the map are distinct, and the pairs at a range are those of the diffs that
  report it.
\<close>

definition range_map_ok :: "'e range_map \<Rightarrow> bool" where
  "range_map_ok m \<longleftrightarrow> distinct (map rd_range m) \<and> (\<forall>d \<in> set m. distinct (rd_pairs d))"

definition pairs_at :: "'e range_map \<Rightarrow> token_range \<Rightarrow> 'e endpoint_pair set" where
  "pairs_at m rg = (\<Union>d \<in> {d \<in> set m. rd_range d = rg}. set (rd_pairs d))"

lemma add_difference_ranges: "rd_range ` set (add_difference key m rg a b) = insert rg (rd_range ` set m)"
  by (induction key m rg a b rule: add_difference.induct) auto

lemma add_difference_ok: "range_map_ok m \<Longrightarrow> range_map_ok (add_difference key m rg a b)"
  by (induction key m rg a b rule: add_difference.induct)
    (simp_all add: range_map_ok_def add_difference_ranges, blast)

lemma add_difference_pairs:
  "range_map_ok m \<Longrightarrow> pairs_at (add_difference key m rg a b) r =
   (if r = rg then insert (endpoint_pair_new key a b) (pairs_at m r) else pairs_at m r)"
proof (induction key m rg a b rule: add_difference.induct)
  case (2 key entry entries rg a b)
  have "range_map_ok entries" using "2.prems" by (simp add: range_map_ok_def)
  moreover have "pairs_at (entry # es) r = (if rd_range entry = r then set (rd_pairs entry) else {}) \<union> pairs_at es r"
    for entry :: "'a range_difference" and es
    by (auto simp: pairs_at_def)
  ultimately show ?case using "2.IH" by auto
qed (auto simp: pairs_at_def)

lemma add_diff_map:
  assumes "range_map_ok (dh_range_map h)"
  shows "range_map_ok (dh_range_map (add_diff key h a b rs)) \<and>
    pairs_at (dh_range_map (add_diff key h a b rs)) r =
      pairs_at (dh_range_map h) r \<union> (if r \<in> set rs then {endpoint_pair_new key a b} else {})"
proof -
  have "range_map_ok m \<Longrightarrow> range_map_ok (fold (\<lambda>rg m. add_difference key m rg a b) rs m) \<and>
    pairs_at (fold (\<lambda>rg m. add_difference key m rg a b) rs m) r =
      pairs_at m r \<union> (if r \<in> set rs then {endpoint_pair_new key a b} else {})" for m
    by (induction rs arbitrary: m) (auto simp: add_difference_ok add_difference_pairs)
  with assms show ?thesis by (simp add: add_diff_def)
qed

lemma from_diffs_map:
  "range_map_ok (dh_range_map (from_diffs key ds)) \<and>
   pairs_at (dh_range_map (from_diffs key ds)) (token_range_new s e) =
     {endpoint_pair_new key (endpoint_a d) (endpoint_b d) |d. d \<in> set ds \<and> (s, e) \<in> set (mismatched_ranges d)}"
proof (induction ds rule: rev_induct)
  case Nil
  show ?case by (simp add: from_diffs_def difference_holder_new_def range_map_ok_def pairs_at_def)
next
  case (snoc d ds)
  have "from_diffs key (ds @ [d]) = add_diff key (from_diffs key ds) (endpoint_a d) (endpoint_b d)
      (map (\<lambda>(start, stop). token_range_new start stop) (mismatched_ranges d))"
    by (simp add: from_diffs_def)
  moreover have mem: "token_range_new s e \<in> set (map (\<lambda>(start, stop). token_range_new start stop) (mismatched_ranges d))
      \<longleftrightarrow> (s, e) \<in> set (mismatched_ranges d)"
    by (force simp: token_range_new_def)
  moreover note add_diff_map [OF conjunct1 [OF snoc], of key "endpoint_a d" "endpoint_b d"
    "map (\<lambda>(start, stop). token_range_new start stop) (mismatched_ranges d)" "token_range_new s e"]
  ultimately show ?case unfolding mem conjunct2 [OF snoc] by (auto split: if_splits)
qed

section \<open>Counting disagreements\<close>

lemma pair_new_contains: "pair_contains (endpoint_pair_new key a b) x \<longleftrightarrow> x = a \<or> x = b"
  by (auto simp: endpoint_pair_new_def pair_contains_def)

lemma pair_new_sides:
  "a \<noteq> b \<Longrightarrow> pair_left (endpoint_pair_new key a b) \<noteq> pair_right (endpoint_pair_new key a b)"
  by (simp add: endpoint_pair_new_def)

lemma pair_new_inj: "endpoint_pair_new key a b = endpoint_pair_new key a c \<Longrightarrow> b = c"
  by (auto simp: endpoint_pair_new_def split: if_splits)

lemma pair_new_commute:
  "key a \<noteq> key b \<Longrightarrow> endpoint_pair_new key a b = endpoint_pair_new key b a"
  by (auto simp: endpoint_pair_new_def)

lemma length_filter_distinct: "distinct xs \<Longrightarrow> length (filter P xs) = card {x \<in> set xs. P x}"
  using distinct_card [of "filter P xs"] by simp

text \<open>An endpoint's count is the number of replicas with other content.\<close>

lemma disagreement_count_card:
  assumes "distinct (rd_pairs d)" "inj_on key reps" "e \<in> reps"
    and pairs: "set (rd_pairs d) = {endpoint_pair_new key a b |a b. a \<in> reps \<and> b \<in> reps \<and> content a \<noteq> content b}"
  shows "disagreement_count d e = card {x \<in> reps. content x \<noteq> content e}"
proof -
  let ?L = "{p \<in> set (rd_pairs d). pair_left p = e}" and ?R = "{p \<in> set (rd_pairs d). pair_right p = e}"
  have pair: "\<exists>a b. p = endpoint_pair_new key a b \<and> a \<in> reps \<and> b \<in> reps \<and> content a \<noteq> content b"
    if "p \<in> set (rd_pairs d)" for p
    using that unfolding pairs by blast
  have "pair_left p \<noteq> pair_right p" if "p \<in> set (rd_pairs d)" for p
    using pair [OF that] pair_new_sides by metis
  then have "?L \<inter> ?R = {}" by (intro equals0I, elim IntE CollectE conjE) metis
  then have "disagreement_count d e = card (?L \<union> ?R)"
    by (simp add: disagreement_count_def length_filter_distinct [OF assms(1)] card_Un_disjoint)
  also have "?L \<union> ?R = {p \<in> set (rd_pairs d). pair_contains p e}" by (auto simp: pair_contains_def)
  also have "\<dots> = endpoint_pair_new key e ` {x \<in> reps. content x \<noteq> content e}"
  proof (intro equalityI subsetI)
    fix p assume "p \<in> {p \<in> set (rd_pairs d). pair_contains p e}"
    then obtain a b where ab: "p = endpoint_pair_new key a b" "a \<in> reps" "b \<in> reps" "content a \<noteq> content b" "e = a \<or> e = b"
      using pair [of p] pair_new_contains by (metis (mono_tags, lifting) mem_Collect_eq)
    then have "key a \<noteq> key b" using assms(2) by (metis inj_onD)
    with ab show "p \<in> endpoint_pair_new key e ` {x \<in> reps. content x \<noteq> content e}"
      using pair_new_commute [of key a b] by (metis (mono_tags, lifting) image_eqI mem_Collect_eq)
  next
    fix p assume "p \<in> endpoint_pair_new key e ` {x \<in> reps. content x \<noteq> content e}"
    then obtain x where x: "p = endpoint_pair_new key e x" "x \<in> reps" "content e \<noteq> content x" by auto
    then have "p \<in> set (rd_pairs d)" using assms(3) unfolding pairs by blast
    then show "p \<in> {p \<in> set (rd_pairs d). pair_contains p e}" by (simp add: x(1) pair_new_contains)
  qed
  also have "card \<dots> = card {x \<in> reps. content x \<noteq> content e}"
    by (rule card_image) (auto intro: inj_onI pair_new_inj)
  finally show ?thesis .
qed

definition sharing :: "('e \<Rightarrow> 'c) \<Rightarrow> 'e set \<Rightarrow> 'c \<Rightarrow> nat" where
  "sharing content reps c = card {x \<in> reps. content x = c}"

lemma card_others:
  "finite reps \<Longrightarrow> card {x \<in> reps. content x \<noteq> c} + sharing content reps c = card reps"
proof -
  assume fin: "finite reps"
  have "card ({x \<in> reps. content x \<noteq> c} \<union> {x \<in> reps. content x = c})
    = card {x \<in> reps. content x \<noteq> c} + card {x \<in> reps. content x = c}"
    using fin by (intro card_Un_disjoint) auto
  moreover have "{x \<in> reps. content x \<noteq> c} \<union> {x \<in> reps. content x = c} = reps" by blast
  ultimately show ?thesis by (simp add: sharing_def)
qed

lemma list_case_ne: "xs \<noteq> [] \<Longrightarrow> (case xs of [] \<Rightarrow> a | _ # _ \<Rightarrow> b) = b"
  by (cases xs) simp_all

lemma range_plan_majority:
  assumes reps: "distinct reps" "inj_on key (set reps)" "\<exists>e \<in> set reps. content e \<noteq> c"
    and counts: "\<And>e. e \<in> set reps \<Longrightarrow> disagreement_count d e = card {x \<in> set reps. content x \<noteq> content e}"
    and most: "\<forall>e \<in> set reps. content e \<noteq> c \<longrightarrow> sharing content (set reps) (content e) < sharing content (set reps) c"
  shows "\<exists>src \<in> set reps. content src = c \<and> range_plan key reps ks tbl d =
    map (\<lambda>t. sync_task src t (rd_range d) ks tbl) (sort_key key (filter (\<lambda>e. content e \<noteq> c) reps))"
proof -
  define m where "m = card {x \<in> set reps. content x \<noteq> c}"
  define cs where "cs = sort_key key reps"
  have sorted: "sorted_endpoints key reps = cs"
    using reps(1) by (simp add: sorted_endpoints_def cs_def remdups_adj_distinct)
  have cs: "set cs = set reps" by (simp add: cs_def)
  have count: "disagreement_count d e = m \<longleftrightarrow> content e = c" "m \<le> disagreement_count d e" if "e \<in> set reps" for e
    using card_others [of "set reps" content c] card_others [of "set reps" content "content e"]
      counts [OF that] most that unfolding m_def by fastforce+
  have above: "m < disagreement_count d e \<longleftrightarrow> content e \<noteq> c" if "e \<in> set reps" for e
    using count [OF that] by linarith
  obtain e where e: "e \<in> set reps" "content e = c"
  proof -
    have "sharing content (set reps) c \<noteq> 0" using reps(3) most by fastforce
    then show thesis using that unfolding sharing_def by (auto simp: card_eq_0_iff)
  qed
  have min: "Min (disagreement_count d ` set reps) = m"
    using e count by (intro Min_eqI) (auto intro: rev_image_eqI)
  have filters: "filter (\<lambda>e. disagreement_count d e = m) cs = filter (\<lambda>e. content e = c) cs"
    "filter (\<lambda>e. m < disagreement_count d e) cs = filter (\<lambda>e. content e \<noteq> c) cs"
    by (rule filter_cong; simp add: cs count above)+
  have "filter (\<lambda>e. content e \<noteq> c) cs \<noteq> []" "filter (\<lambda>e. content e = c) cs \<noteq> []"
    using reps(3) e by (auto simp: filter_empty_conv cs)
  moreover from this have "cs \<noteq> []" by auto
  ultimately have "range_plan key reps ks tbl d = map (\<lambda>t. sync_task (hd (filter (\<lambda>e. content e = c) cs)) t (rd_range d) ks tbl)
      (sort_key key (filter (\<lambda>e. content e \<noteq> c) cs))"
    by (simp add: range_plan_def sorted Let_def cs min filters list_case_ne)
  moreover have "hd (filter (\<lambda>e. content e = c) cs) \<in> set (filter (\<lambda>e. content e = c) cs)"
    using \<open>filter (\<lambda>e. content e = c) cs \<noteq> []\<close> by (rule hd_in_set)
  moreover have "sort_key key (filter (\<lambda>e. content e \<noteq> c) cs) = sort_key key (filter (\<lambda>e. content e \<noteq> c) reps)"
    using reps by (intro sort_key_set) (auto simp: cs cs_def distinct_map inj_on_def)
  ultimately show ?thesis by (auto simp: cs)
qed

lemma range_plan_range:
  "t \<in> set (range_plan key reps ks tbl d) \<Longrightarrow> sync_ranges t = [(tr_start (rd_range d), tr_end (rd_range d))]"
  by (auto simp: range_plan_def Let_def sync_task_def split: list.splits if_splits)

lemma range_map_entry:
  assumes "range_map_ok m" "pairs_at m rg \<noteq> {}"
  shows "\<exists>d. {d \<in> set m. rd_range d = rg} = {d} \<and> distinct (rd_pairs d) \<and> set (rd_pairs d) = pairs_at m rg"
proof -
  obtain d where d: "d \<in> set m" "rd_range d = rg" using assms(2) by (auto simp: pairs_at_def)
  have "d' = d" if "d' \<in> set m" "rd_range d' = rg" for d'
    using assms(1) d that by (auto simp: range_map_ok_def distinct_map inj_on_def)
  with d have "{d \<in> set m. rd_range d = rg} = {d}" by blast
  with assms(1) d show ?thesis by (auto simp: pairs_at_def range_map_ok_def)
qed

lemma reported_pairs:
  assumes "inj_on key (set reps)" "\<forall>d \<in> set ds. endpoint_a d \<in> set reps \<and> endpoint_b d \<in> set reps"
    and diffs: "\<forall>a \<in> set reps. \<forall>b \<in> set reps. content a \<noteq> content b \<longleftrightarrow>
      (\<exists>d \<in> set ds. r \<in> set (mismatched_ranges d) \<and> {endpoint_a d, endpoint_b d} = {a, b})"
  shows "{endpoint_pair_new key (endpoint_a d) (endpoint_b d) |d. d \<in> set ds \<and> r \<in> set (mismatched_ranges d)} =
    {endpoint_pair_new key a b |a b. a \<in> set reps \<and> b \<in> set reps \<and> content a \<noteq> content b}"
    (is "?L = ?R")
proof (intro equalityI subsetI)
  fix p assume "p \<in> ?L"
  then obtain d where "d \<in> set ds" "r \<in> set (mismatched_ranges d)" "p = endpoint_pair_new key (endpoint_a d) (endpoint_b d)"
    by blast
  with assms(2) diffs show "p \<in> ?R" by blast
next
  fix p assume "p \<in> ?R"
  then obtain a b where ab: "p = endpoint_pair_new key a b" "a \<in> set reps" "b \<in> set reps" "content a \<noteq> content b" by blast
  with diffs obtain d where d: "d \<in> set ds" "r \<in> set (mismatched_ranges d)" "{endpoint_a d, endpoint_b d} = {a, b}" by blast
  have "key a \<noteq> key b" using ab assms(1) by (metis inj_onD)
  with d(3) ab(1) have "p = endpoint_pair_new key (endpoint_a d) (endpoint_b d)"
    using pair_new_commute [of key a b] by (auto simp: doubleton_eq_iff)
  with d show "p \<in> ?L" by blast
qed

text \<open>
  C19. Where one content of a range is more common among the replicas than every other, the
  asymmetric plan made from the pairwise diffs sends that content from one of the replicas
  that hold it to exactly the replicas that do not.
\<close>

theorem asymmetric_plan_majority:
  assumes reps: "distinct reps" "inj_on key (set reps)"
    and diffs: "\<forall>d \<in> set ds. endpoint_a d \<in> set reps \<and> endpoint_b d \<in> set reps"
      "\<forall>a \<in> set reps. \<forall>b \<in> set reps. content a \<noteq> content b \<longleftrightarrow>
         (\<exists>d \<in> set ds. (s, e) \<in> set (mismatched_ranges d) \<and> {endpoint_a d, endpoint_b d} = {a, b})"
    and most: "\<exists>x \<in> set reps. content x \<noteq> c"
      "\<forall>x \<in> set reps. content x \<noteq> c \<longrightarrow> sharing content (set reps) (content x) < sharing content (set reps) c"
  shows "\<exists>src \<in> set reps. content src = c \<and>
    {(sync_source t, sync_target t) |t.
       t \<in> set (create_asymmetric_sync_plan key (from_diffs key ds) reps ks tbl) \<and> sync_ranges t = [(s, e)]} =
    {src} \<times> {x \<in> set reps. content x \<noteq> c}"
proof -
  define m where "m = dh_range_map (from_diffs key ds)"
  define rg where "rg = token_range_new s e"
  define P where "P = {endpoint_pair_new key a b |a b. a \<in> set reps \<and> b \<in> set reps \<and> content a \<noteq> content b}"
  have "pairs_at m rg = {endpoint_pair_new key (endpoint_a d) (endpoint_b d) |d. d \<in> set ds \<and> (s, e) \<in> set (mismatched_ranges d)}"
    using from_diffs_map [of key ds s e] by (simp add: m_def rg_def)
  also have "\<dots> = P"
    unfolding P_def using reported_pairs [OF reps(2) diffs] .
  finally have P: "pairs_at m rg = P" .
  obtain x where x: "x \<in> set reps" "content x \<noteq> c" using most(1) by blast
  then have "sharing content (set reps) c \<noteq> 0" using most(2) by fastforce
  then obtain y where y: "y \<in> set reps" "content y = c" unfolding sharing_def by (auto simp: card_eq_0_iff)
  have "endpoint_pair_new key x y \<in> P" using x y unfolding P_def by blast
  with P obtain d where d: "{d \<in> set m. rd_range d = rg} = {d}" "distinct (rd_pairs d)" "set (rd_pairs d) = P"
    using range_map_entry [of m rg] from_diffs_map [of key ds] unfolding m_def by blast
  obtain src where src: "src \<in> set reps" "content src = c" "range_plan key reps ks tbl d =
      map (\<lambda>t. sync_task src t (rd_range d) ks tbl) (sort_key key (filter (\<lambda>e. content e \<noteq> c) reps))"
    using range_plan_majority [OF reps most(1) disagreement_count_card [OF d(2) reps(2) _ d(3) [unfolded P_def]] most(2)]
    by blast
  have "rd_range d' = rg \<longleftrightarrow> [(tr_start (rd_range d'), tr_end (rd_range d'))] = [(s, e)]" for d' :: "'a range_difference"
    by (cases "rd_range d'") (simp add: rg_def token_range_new_def)
  then have "{t. t \<in> set (create_asymmetric_sync_plan key (from_diffs key ds) reps ks tbl) \<and> sync_ranges t = [(s, e)]}
    = (\<Union>d' \<in> {d \<in> set m. rd_range d = rg}. set (range_plan key reps ks tbl d'))"
    using range_plan_range [where key = key and reps = reps and ks = ks and tbl = tbl]
    unfolding create_asymmetric_sync_plan_def m_def by fastforce
  also have "\<dots> = set (range_plan key reps ks tbl d)" by (simp add: d(1))
  finally have tasks: "t \<in> set (create_asymmetric_sync_plan key (from_diffs key ds) reps ks tbl) \<and> sync_ranges t = [(s, e)] \<longleftrightarrow>
      t \<in> set (range_plan key reps ks tbl d)" for t
    by blast
  have "{(sync_source t, sync_target t) |t. t \<in> set (range_plan key reps ks tbl d)} = {src} \<times> {x \<in> set reps. content x \<noteq> c}"
    unfolding src(3) Setcompr_eq_image by (auto simp: sync_task_def image_image)
  with src(1,2) show ?thesis unfolding tasks by blast
qed

definition sample_diffs :: "nat diff_result list" where
  "sample_diffs = [\<lparr>endpoint_a = 1, endpoint_b = 3, mismatched_ranges = [(0, 9)]\<rparr>,
     \<lparr>endpoint_a = 2, endpoint_b = 3, mismatched_ranges = [(0, 9)]\<rparr>]"

theorem asymmetric_plan_majority_witness:
  "\<exists>src \<in> set [1, 2, 3 :: nat]. (src = 3) = False \<and>
    {(sync_source t, sync_target t) |t.
       t \<in> set (create_asymmetric_sync_plan id (from_diffs id sample_diffs) [1, 2, 3] ''ks'' ''t'') \<and> sync_ranges t = [(0, 9)]} =
    {src} \<times> {x \<in> set [1, 2, 3]. (x = 3) \<noteq> False}"
proof (rule asymmetric_plan_majority)
  have "{x \<in> set [1, 2, 3 :: nat]. (x = 3) = True} = {3}" "{x \<in> set [1, 2, 3 :: nat]. (x = 3) = False} = {1, 2}" by auto
  then show "\<forall>x \<in> set [1, 2, 3 :: nat]. (x = 3) \<noteq> False \<longrightarrow>
      sharing (\<lambda>x. x = 3) (set [1, 2, 3 :: nat]) (x = 3) < sharing (\<lambda>x. x = 3) (set [1, 2, 3 :: nat]) False"
    by (simp add: sharing_def)
qed (auto simp: sample_diffs_def doubleton_eq_iff)

section \<open>What the asymmetric plan leaves behind\<close>

text \<open>
  Five replicas of which two pairs agree: the counts of the pairs tie below that of the fifth,
  and the only task serves the fifth, although the two pairs differ.
\<close>

definition tied_diffs :: "nat diff_result list" where
  "tied_diffs = map (\<lambda>(a, b). \<lparr>endpoint_a = a, endpoint_b = b, mismatched_ranges = [(0, 9)]\<rparr>)
     [(1, 3), (1, 4), (1, 5), (2, 3), (2, 4), (2, 5), (3, 5), (4, 5)]"

lemma tied_contents_stay_apart:
  "map (\<lambda>t. (sync_source t, sync_target t))
     (create_asymmetric_sync_plan id (from_diffs id tied_diffs) [1, 2, 3, 4, 5] ''ks'' ''t'') = [(1, 5)]"
  by code_simp

text \<open>With a majority the minority's data is not sent to anyone.\<close>

lemma minority_data_not_sent:
  "map (\<lambda>t. (sync_source t, sync_target t))
     (create_asymmetric_sync_plan id (from_diffs id sample_diffs) [1, 2, 3] ''ks'' ''t'') = [(1, 3)]"
  by code_simp

text \<open>A leaf holds its first token and not its last; as a \<open>TokenRange\<close> it is the reverse.\<close>

lemma leaf_range_shifted:
  "s < e \<Longrightarrow> token_in_range (s, e) s \<and> \<not> range_contains (token_range_new s e) s"
  by (simp add: token_in_range_def range_contains_alt)

end
