(* ===== verification/Spec2Isabelle.thy ===== *)
theory Spec2Isabelle
  imports Vint Partitions Counters Cluster Paxos_Safety Write_Outcome Varint_Text Repair_Job
begin

text \<open>
  A verification development for the Rust implementation of Apache Cassandra under
  \<open>src/rust/crates\<close>.  File names below are relative to that directory, without the prefix
  \<open>cassandra-\<close> of the crates.

  \<^bold>\<open>The program.\<close>  A cluster of nodes stores partitions.  The Murmur3 hash of a partition key
  is a token; the token ring and a replication strategy give the replicas of a token.  A
  coordinator sends a write to the replicas and waits for as many answers as the consistency
  level asks; compare-and-set writes run Paxos.  Replicas keep rows with timestamps and
  tombstones and merge whatever versions they meet; repair compares the replicas by Merkle
  trees and streams the differences.  Values are compared by type, and encoded so that bytes
  compare as values do.

  \<^bold>\<open>Vocabulary.\<close>
  \<^item> \<open>Prelude\<close>: machine types, big-endian bytes, iterator operations.  Words where the code
    shifts or adds with wrap-around, \<open>int\<close> within the bounds of \<open>i64\<close> where it only compares,
    with \<open>wrap_i64\<close> where it adds.
  \<^item> \<open>Ordered_Map\<close>: \<open>BTreeMap\<close> as a sorted association list, its contract \<open>ordered_map\<close>, and
    \<open>convergent\<close>, the contract of a merge that is associative, commutative and idempotent.
  \<^item> \<open>Strings\<close>, \<open>Byte_Order\<close>: the operations of \<open>str\<close>, and the lexicographic order of bytes.
  \<^item> \<open>Quorums\<close>: \<open>quorum_system\<close> and \<open>majority\<close>, the contracts that two quorums meet.

  \<^bold>\<open>Stored data.\<close>
  \<^item> \<open>Vint\<close>: \<open>types/src/vint.rs\<close> and \<open>io/src/util/varint.rs\<close>.  Both codecs round-trip, agree
    byte for byte, and reject truncated input; the contract is the locale \<open>vint_codec\<close>.
  \<^item> \<open>Tombstones\<close>, \<open>Rows\<close>: \<open>common/src/tombstone.rs\<close>, \<open>ttl.rs\<close>, \<open>timestamp.rs\<close> and
    \<open>storage/src/rows\<close>.  Merging rows converges whatever the order of delivery, deleted data
    does not come back, and what is live after a merge is described exactly.
  \<^item> \<open>Partitions\<close>: \<open>storage/src/memtable/partition.rs\<close> and \<open>partitions/partition_update.rs\<close>.
    After any sequence of operations an update holds the merged rows, the sorted range
    tombstones and the greatest deletion of those operations; a merge brings no deleted row back.
  \<^item> \<open>Counters\<close>: \<open>storage/src/counter.rs\<close>.  Every increment is counted once, in any order of
    merges; the serialized format is exact.

  \<^bold>\<open>Types and orders.\<close>
  \<^item> \<open>Cql_Types\<close>: \<open>types/src/native.rs\<close>, with the round trip of type names.
  \<^item> \<open>Comparator\<close>: \<open>types/src/comparator.rs\<close> and \<open>composite.rs\<close>.
  \<^item> \<open>Byte_Comparable\<close>: \<open>types/src/byte_comparable.rs\<close>.  The order of the encodings is the
    order of the comparator, for values and for keys of several components (locale
    \<open>order_code\<close>), on the types of \<open>comparable\<close>; it is not claimed for date, timeuuid,
    decimal, duration, inet, collections, tuples, user-defined types and composites, and
    shown not to hold on some of them.
  \<^item> \<open>Varint_Text\<close>: \<open>types/src/bigint.rs\<close>, exact for every integer.

  \<^bold>\<open>Placement.\<close>
  \<^item> \<open>Murmur3\<close>, \<open>Tokens\<close>: \<open>common/src/murmur3.rs\<close>, \<open>token.rs\<close>, \<open>bounds.rs\<close> and decorated keys.
    The unrolled hash equals a reference definition; ranges are related to sets of points.
  \<^item> \<open>Ring\<close>, \<open>Replication\<close>, \<open>Cluster\<close>: \<open>cluster-metadata/src/ring.rs\<close>, \<open>replication.rs\<close>,
    \<open>node.rs\<close> and \<open>cluster.rs\<close>.  Invariants of the ring under its operations, what the walks
    compute, how many replicas and racks \<open>NetworkTopologyStrategy\<close> reaches, and what a leaving
    node moves; the contract for coordinators is the locale \<open>replication_strategy\<close>.

  \<^bold>\<open>Coordination.\<close>
  \<^item> \<open>Consistency\<close>: \<open>coordinator/src/consistency.rs\<close> and \<open>cluster-metadata/src/replica_plan.rs\<close>.
    Reads meet writes at QUORUM, SERIAL and ALL, for every strategy, and at EACH_QUORUM with
    LOCAL_QUORUM in the reading datacenter.
  \<^item> \<open>Write_Path\<close>, \<open>Write_Outcome\<close>: \<open>coordinator/src/write.rs\<close> and \<open>write_response_handler.rs\<close>.
    Deliveries and the waiting task interleave in any order, the timeout may strike at any
    moment (locale \<open>waiter\<close>); what the client is told is what the replicas did, and a decided
    write returns.
  \<^item> \<open>Paxos\<close>, \<open>Paxos_Safety\<close>: \<open>coordinator/src/paxos\<close>.  The handlers and the loop of a
    compare-and-set, what each of its results means, and agreement when any number of
    coordinators run with requests reordered, repeated or lost.  The system of \<open>Paxos_Safety\<close>
    lets a coordinator's steps on single replicas interleave; its events call the handlers of
    the code, and every execution of \<open>execute_cas\<close> is one of its runs.  Agreement assumes
    that different proposals have different ballots.  \<open>ballot.rs\<close> does not ensure this, as a
    ballot is the clock in microseconds and the node; a run with a reused ballot in which two
    mutations are chosen is given.

  \<^bold>\<open>Repair.\<close>
  \<^item> \<open>Merkle\<close>: \<open>repair/src/merkle.rs\<close> and \<open>validator.rs\<close>.  The leaves of a range that does not
    wrap partition it, equal roots mean equal leaves, and the diff of two validated trees is
    exactly the leaves on which the partitions differ.
  \<^item> \<open>Repair_Job\<close>: \<open>repair/src/job.rs\<close> and \<open>asymmetric.rs\<close>.  The symmetric plan streams every
    difference both ways; the asymmetric plan serves exactly the replicas without the most
    common content.

  \<^bold>\<open>Conventions.\<close>  A panic is \<open>None\<close>, an error a value of a sum type, a hash map an association
  list in the order of its iteration or a function, a trait object a datatype.  Operations are
  total; loops are structural recursions or have a measure: the bytes left for the parsers and
  the hash, the length of the level for the Merkle tree, the attempts left for the
  compare-and-set loop.  No definition uses fuel.  Other crates are parameters with their
  documented behaviour as hypotheses: \<open>byteorder\<close> reads and writes big-endian, the block reader
  of the hash is little-endian, MD5 yields sixteen bytes and does not collide on the strings
  of one comparison.

  Sums of replication factors and depths of Merkle trees are natural numbers: the theorems are
  about the code where the sum fits a \<open>usize\<close> and the depth is below 64.

  \<^bold>\<open>Not modelled.\<close>  Files, sockets and background tasks: the storage engine with its sstables,
  commit log and compaction, messaging, streaming, the native protocol, the server, tools,
  administration and configuration.  CQL parsing and execution, schema, security, gossip and
  the metadata log.  The read path and hints of the coordinator, the two-phase sessions of
  incremental repair, and the storage of Paxos state.  Within the modelled files: the type
  \<open>DynamicComposite\<close>, whose components are named in the data, serialization derived by
  macros, logging and metrics.
\<close>

end
